(* ===== verification/Bmt_Prelude.thy ===== *)
theory Bmt_Prelude
  imports Main "HOL-Library.Word" "HOL-Library.Monad_Syntax" "HOL-Library.Sublist"
begin

text \<open>
  Shared vocabulary of the development: the C integer types at their width, the error
  codes of the kernel headers, little-endian byte encodings, the memory primitives
  \<open>memcpy\<close>, \<open>memset\<close> and \<open>memcmp\<close> on byte lists, and the generic lemmas on lists and words
  that the component theories use.
\<close>

unbundle bit_operations_syntax

section \<open>Types\<close>

type_synonym u8 = "8 word"
type_synonym u16 = "16 word"
type_synonym u32 = "32 word"
type_synonym u64 = "64 word"
type_synonym byte = "8 word"

text \<open>Byte addresses on the chip (\<open>loff_t\<close>, \<open>uint64_t\<close>): at most a 32-bit block number
  shifted by the block shift, so they never wrap and are natural numbers.\<close>

type_synonym loff = nat

abbreviation ENXIO :: int where "ENXIO \<equiv> 6"
abbreviation EIO :: int where "EIO \<equiv> 5"
abbreviation ENOMEM :: int where "ENOMEM \<equiv> 12"
abbreviation ENODEV :: int where "ENODEV \<equiv> 19"
abbreviation EINVAL :: int where "EINVAL \<equiv> 22"
abbreviation ENOSPC :: int where "ENOSPC \<equiv> 28"
abbreviation EBADMSG :: int where "EBADMSG \<equiv> 74"
abbreviation EUCLEAN :: int where "EUCLEAN \<equiv> 117"

named_theorems frame_simps \<open>fields an operation leaves alone\<close>
named_theorems byte_simps \<open>byte encodings and their inverses\<close>

section \<open>Memory primitives on byte lists\<close>

definition memcpy_at :: "'a list \<Rightarrow> nat \<Rightarrow> 'a list \<Rightarrow> 'a list" where
  "memcpy_at buf off bs = take off buf @ bs @ drop (off + length bs) buf"

definition memcmp_eq :: "byte list \<Rightarrow> byte list \<Rightarrow> nat \<Rightarrow> bool" where
  "memcmp_eq a b n = (take n a = take n b)"

text \<open>Reading an array cell. C reads foreign memory when the index is out of range; the
  model then gives 0, and every property that depends on the cell bounds the index.\<close>

definition cell :: "'a::zero list \<Rightarrow> nat \<Rightarrow> 'a" where
  "cell xs i = (if i < length xs then xs ! i else 0)"

lemma cell_in [simp]: "i < length xs \<Longrightarrow> cell xs i = xs ! i"
  by (simp add: cell_def)

lemma cell_update:
  "i < length xs \<Longrightarrow> cell (xs[i := v]) j = (if i = j then v else cell xs j)"
  by (auto simp: cell_def nth_list_update)

lemma length_memcpy_at [simp]:
  "off + length bs \<le> length buf \<Longrightarrow> length (memcpy_at buf off bs) = length buf"
  by (simp add: memcpy_at_def)

lemma memcpy_at_Nil [simp]: "off \<le> length buf \<Longrightarrow> memcpy_at buf off [] = buf"
  by (simp add: memcpy_at_def)

lemma memcpy_at_whole: "length bs = length buf \<Longrightarrow> memcpy_at buf 0 bs = bs"
  by (simp add: memcpy_at_def)

lemma take_drop_memcpy_same:
  "off \<le> length buf \<Longrightarrow> n = length bs \<Longrightarrow> take n (drop off (memcpy_at buf off bs)) = bs"
  by (simp add: memcpy_at_def)

lemma take_drop_memcpy_below:
  "off' + n \<le> off \<Longrightarrow> off \<le> length buf \<Longrightarrow>
   take n (drop off' (memcpy_at buf off bs)) = take n (drop off' buf)"
  by (simp add: memcpy_at_def drop_take take_append min_absorb1)

lemma take_drop_memcpy_above:
  "off + length bs \<le> off' \<Longrightarrow> off \<le> length buf \<Longrightarrow>
   take n (drop off' (memcpy_at buf off bs)) = take n (drop off' buf)"
  by (simp add: memcpy_at_def)

section \<open>Little-endian encodings\<close>

definition le16_bytes :: "u16 \<Rightarrow> byte list" where
  "le16_bytes w = [ucast w, ucast (drop_bit 8 w)]"

definition le32_bytes :: "u32 \<Rightarrow> byte list" where
  "le32_bytes w = [ucast w, ucast (drop_bit 8 w), ucast (drop_bit 16 w), ucast (drop_bit 24 w)]"

definition le64_bytes :: "u64 \<Rightarrow> byte list" where
  "le64_bytes w = le32_bytes (ucast w) @ le32_bytes (ucast (drop_bit 32 w))"

fun le16_of :: "byte list \<Rightarrow> u16" where
  "le16_of (a # b # _) = ucast a OR push_bit 8 (ucast b)"
| "le16_of _ = 0"

fun le32_of :: "byte list \<Rightarrow> u32" where
  "le32_of (a # b # c # d # _) =
     ucast a OR push_bit 8 (ucast b) OR push_bit 16 (ucast c) OR push_bit 24 (ucast d)"
| "le32_of _ = 0"

definition le64_of :: "byte list \<Rightarrow> u64" where
  "le64_of bs = ucast (le32_of bs) OR push_bit 32 (ucast (le32_of (drop 4 bs)))"

lemma length_le_bytes [simp]:
  "length (le16_bytes w) = 2" "length (le32_bytes v) = 4" "length (le64_bytes x) = 8"
  by (simp_all add: le16_bytes_def le32_bytes_def le64_bytes_def)

lemma le16_of_bytes [simp, byte_simps]: "le16_of (le16_bytes w @ rest) = w"
  unfolding le16_bytes_def
  by (simp, rule bit_word_eqI) (auto simp: bit_simps)

lemma le32_of_bytes [simp, byte_simps]: "le32_of (le32_bytes w @ rest) = w"
proof (rule bit_word_eqI)
  fix n assume "n < LENGTH(32)"
  then consider "n < 8" | "8 \<le> n" "n < 16" | "16 \<le> n" "n < 24" | "24 \<le> n" "n < 32"
    by fastforce
  then show "bit (le32_of (le32_bytes w @ rest)) n \<longleftrightarrow> bit w n"
    by cases (auto simp: le32_bytes_def bit_simps)
qed

section \<open>Word arithmetic read as natural numbers\<close>

lemma unat_inj: "unat a = unat b \<Longrightarrow> a = b"
  by (rule unsigned_word_eqI)

lemma unat_eq_iff: "unat a = unat b \<longleftrightarrow> a = b"
  by (auto intro: unat_inj)

lemma unat_bound: "unat (x :: 'a::len word) < 2 ^ LENGTH('a)"
  by (rule unsigned_less)

lemma nat_less_unat: "0 \<le> i \<Longrightarrow> i < uint w \<Longrightarrow> nat i < unat w"
  by (simp add: nat_less_iff)

lemma unat_min_of_nat:
  "n < 2 ^ LENGTH('a) \<Longrightarrow> unat (min x (of_nat n :: 'a::len word)) = min (unat x) n"
  by (auto simp: min_def word_le_nat_alt unat_of_nat take_bit_nat_eq_self)

lemma ucast_16_32 [simp]:
  "unat (ucast (b :: u16) :: u32) = unat b" "uint (ucast b :: u32) = uint b"
  "ucast (ucast b :: u32) = b"
  using unat_bound [of b] uint_lt2p [of b]
  by (simp_all add: unsigned_ucast_eq take_bit_nat_eq_self take_bit_int_eq_self
      take_bit_word_eq_self)

lemma uint_less_int: "unat w < n \<Longrightarrow> uint w < int n" "unat w \<le> n \<Longrightarrow> uint w \<le> int n"
  by (simp_all only: uint_nat of_nat_less_iff of_nat_le_iff)

lemma sint_eq_uint: "unat (w :: u32) < 2 ^ 31 \<Longrightarrow> sint w = uint w"
proof -
  assume "unat w < 2 ^ 31"
  then have "uint w < 2 ^ 31"
    using uint_less_int(1) [of w "2 ^ 31"] by simp
  moreover have "- (2 ^ 31) \<le> uint w"
    by (rule order_trans [of _ 0]) auto
  ultimately show ?thesis
    by (simp add: sint_uint signed_take_bit_int_eq_self)
qed

lemma unat_drop_bit: "unat (drop_bit n (w :: 'a::len word)) = unat w div 2 ^ n"
  by (simp add: unsigned_drop_bit_eq take_bit_nat_eq_self, simp add: drop_bit_eq_div)

lemma unat_Suc_less: "a < b \<Longrightarrow> unat (a + 1) = Suc (unat a)"
  by unat_arith

lemma unat_pred_greater: "b < a \<Longrightarrow> unat (a - 1) = unat a - 1"
  by unat_arith

lemma word_Suc_measure: "(a :: 'a::len word) < b \<Longrightarrow> unat b - unat (a + 1) < unat b - unat a"
  by (simp add: unat_Suc_less word_less_nat_alt)

lemma and_not_mask: "w AND NOT (mask k) = push_bit k (drop_bit k (w :: 'a::len word))"
  by (rule bit_word_eqI) (auto simp: bit_simps)

lemma and_not_mask_eq_iff:
  "x AND NOT (mask k) = y AND NOT (mask k) \<longleftrightarrow> unat x div 2 ^ k = unat y div 2 ^ k" for x y :: "'a::len word"
proof -
  have "drop_bit k (w AND NOT (mask k)) = drop_bit k w" for w :: "'a word"
    by (rule bit_word_eqI) (auto simp: bit_simps dest: bit_imp_le_length)
  then have "x AND NOT (mask k) = y AND NOT (mask k) \<longleftrightarrow> drop_bit k x = drop_bit k y"
    by (metis and_not_mask)
  also have "\<dots> \<longleftrightarrow> unat x div 2 ^ k = unat y div 2 ^ k"
    by (simp only: unat_eq_iff [symmetric] unat_drop_bit)
  finally show ?thesis .
qed

section \<open>Block arithmetic\<close>

lemma div_block_step: "a mod B + k < B \<Longrightarrow> (a + k) div B = a div B" for a B k :: nat
proof -
  assume h: "a mod B + k < B"
  have "(a + k) div B = (a mod B + k + a div B * B) div B"
    by simp
  also have "\<dots> = a div B"
    using h by (subst div_mult_self1) auto
  finally show ?thesis .
qed

lemma mod_block_step: "a mod B + k < B \<Longrightarrow> (a + k) mod B = a mod B + k" for a B k :: nat
  by (metis mod_add_left_eq mod_less)

lemma block_bound: "x < T \<Longrightarrow> r < B \<Longrightarrow> x * B + r < T * B" for x r B T :: nat
proof -
  assume "x < T" "r < B"
  then have "x * B + r < (x + 1) * B" by simp
  also have "\<dots> \<le> T * B" using \<open>x < T\<close> by (intro mult_le_mono1) simp
  finally show ?thesis .
qed

section \<open>Two-bit fields of a word\<close>

lemma three_eq_mask: "(3 :: 'a::len word) = mask 2"
  by (simp add: mask_eq_exp_minus_1)

lemma two_bit_disjoint:
  "i \<noteq> j \<Longrightarrow> push_bit (i * 2) (mask 2 :: 'a::len word) AND push_bit (j * 2) (mask 2) = 0"
  by (rule bit_word_eqI) (auto simp: bit_simps)

lemma and_not_self_absorb: "((x :: 'a::len word) OR m) AND m = m" "(x AND NOT m) AND m = 0"
  by (rule bit_word_eqI, auto simp: bit_simps)+

lemma and_not_other:
  assumes "m AND n = 0"
  shows "((x :: 'a::len word) AND NOT m) AND n = x AND n"
proof (rule bit_word_eqI)
  fix k assume "k < LENGTH('a)"
  moreover have "\<not> bit (m AND n) k"
    using assms by simp
  ultimately show "bit ((x AND NOT m) AND n) k = bit (x AND n) k"
    by (auto simp: bit_simps)
qed

end
