(* ===== verification/Bmt_Nand.thy ===== *)
theory Bmt_Nand
  imports Bmt_Prelude
begin

text \<open>
  The data of the bad-block-management stack (\<open>mtk_bmt.h\<close> and the structures of
  \<open>mtk_bmt_v2.c\<close> and \<open>mtk_bmt_nmbm.c\<close>), the raw NAND driver as a parameter, and the NAND
  helpers of \<open>mtk_bmt.h\<close> and \<open>mtk_bmt.c\<close> that every backend calls.

  The driver below the stack (\<open>mtd->_read_oob\<close> and its four companions, installed by the
  kernel's raw NAND layer) is not part of the repository. It is a record of functions over
  a device state of any type \<open>'d\<close>; every definition that talks to the chip takes it as its
  argument \<open>drv\<close>.
\<close>

section \<open>The lower driver\<close>

text \<open>
  A read takes an address, the data length, the offset in the out-of-band area and the
  out-of-band length; it yields the return code, the bytes stored to the data and the
  out-of-band buffer (\<open>retlen\<close> and \<open>oobretlen\<close> are their lengths) and the device state. A
  write takes the bytes and yields the return code, \<open>retlen\<close> and \<open>oobretlen\<close>.
\<close>

record 'd nand_drv =
  drv_read_oob :: "loff \<Rightarrow> nat \<Rightarrow> nat \<Rightarrow> nat \<Rightarrow> 'd \<Rightarrow> int \<times> byte list \<times> byte list \<times> 'd"
  drv_write_oob :: "loff \<Rightarrow> byte list \<Rightarrow> nat \<Rightarrow> byte list \<Rightarrow> 'd \<Rightarrow> int \<times> nat \<times> nat \<times> 'd"
  drv_erase :: "loff \<Rightarrow> nat \<Rightarrow> 'd \<Rightarrow> int \<times> 'd"
  drv_block_isbad :: "loff \<Rightarrow> 'd \<Rightarrow> int \<times> 'd"
  drv_block_markbad :: "loff \<Rightarrow> 'd \<Rightarrow> int \<times> 'd"

text \<open>Which function an operation pointer of \<open>struct mtd_info\<close> holds: the driver's or the
  stack's (\<open>mtk_bmt_read\<close> and its companions).\<close>

datatype mtd_fn = Drv_fn | Bmt_fn | Null_fn

record mtd_fns =
  fn_read_oob :: mtd_fn
  fn_write_oob :: mtd_fn
  fn_erase :: mtd_fn
  fn_block_isbad :: mtd_fn
  fn_block_markbad :: mtd_fn

record mtd_info =
  erasesize :: u32
  erasesize_mask :: u32
  writesize :: u32
  oobsize :: u32
  oobavail :: u32
  mtd_size :: u64
  bitflip_threshold :: u32
  ecc_strength :: u32
  mtd_ops :: mtd_fns

section \<open>Structures of the backends\<close>

text \<open>\<open>struct bbmt\<close> and \<open>struct bbbt\<close> of \<open>mtk_bmt_v2.c\<close>. The flexible array \<open>bb_tbl[]\<close> holds
  \<open>table_size\<close> entries, and \<open>bmt_tbl(bbt)\<close> points behind them in the same buffer.\<close>

record bbmt =
  bb_block :: u16
  bb_mapped :: u16

record bbbt =
  bb_signature :: "byte list"
  bb_version :: u8
  bb_tbl :: "u16 list"
  bmt_tbl :: "bbmt list"

text \<open>\<open>struct nmbm_header\<close>, \<open>struct nmbm_signature\<close> (48 bytes: four bytes of tail padding
  follow \<open>padding[3]\<close>, since \<open>nand_size\<close> is eight-byte aligned),
  \<open>struct nmbm_info_table_header\<close> and \<open>struct nmbm_instance\<close>.\<close>

record nmbm_header =
  hdr_magic :: u32
  hdr_version :: u32
  hdr_size :: u32
  hdr_checksum :: u32

record nmbm_signature =
  sig_header :: nmbm_header
  sig_nand_size :: u64
  sig_block_size :: u32
  sig_page_size :: u32
  sig_spare_size :: u32
  sig_mgmt_start_pb :: u32
  sig_max_try_count :: u8
  sig_padding :: "byte list"

record nmbm_info_table_header =
  ift_header :: nmbm_header
  ift_write_count :: u32
  ift_state_table_off :: u32
  ift_mapping_table_off :: u32
  ift_padding :: u32

text \<open>\<open>page_cache\<close> is an alias of \<open>bmtd.data_buf\<close> and is not a field of its own.
  \<open>protected\<close> is the C \<open>int\<close> used as a flag; \<open>block_mapping\<close> holds \<open>int32_t\<close> values as
  32-bit words in two's complement.\<close>

record nmbm_instance =
  rawpage_size :: u32
  rawblock_size :: u32
  rawchip_size :: u32
  signature :: nmbm_signature
  info_table_cache :: "byte list"
  info_table_size :: u32
  info_table_spare_blocks :: u32
  info_table :: nmbm_info_table_header
  block_state :: "u32 list"
  block_state_changed :: u32
  state_table_size :: u32
  block_mapping :: "u32 list"
  block_mapping_changed :: u32
  mapping_table_size :: u32
  protected :: bool
  block_count :: u32
  data_block_count :: u32
  mgmt_start_ba :: u32
  main_table_ba :: u32
  backup_table_ba :: u32
  mapping_blocks_ba :: u32
  mapping_blocks_top_ba :: u32
  signature_ba :: u32
  max_ratio :: u32
  max_reserved_blocks :: u32
  empty_page_ecc_ok :: bool
  force_create :: bool

text \<open>
  \<open>struct bmt_desc\<close>, of which the program has one global instance \<open>bmtd\<close>, together with the
  state of the chip (\<open>nand\<close>). \<open>attached\<close> is \<open>bmtd.mtd != NULL\<close>, \<open>mtd\<close> the structure it then
  points to, \<open>saved_fns\<close> the five saved driver pointers, \<open>remap_range\<close> the pairs of the
  device-tree property after \<open>be32_to_cpu\<close>. The union of \<open>bbt\<close> and \<open>ni\<close> is a pair of options,
  of which a backend uses one.
\<close>

record 'd bmt_desc =
  nand :: 'd
  attached :: bool
  mtd :: mtd_info
  saved_fns :: mtd_fns
  bbt_buf :: "byte list"
  data_buf :: "byte list"
  bbt :: "bbbt option"
  ni :: "nmbm_instance option"
  debugfs_dir :: bool
  table_size :: u32
  pg_size :: u32
  blk_size :: u32
  pg_shift :: u16
  blk_shift :: u16
  pool_lba :: u16
  pool_pba :: u16
  bb_max :: u16
  total_blks :: u16
  bmt_blk_idx :: u16
  bmt_pgs :: u32
  remap_range :: "(u32 \<times> u32) list option"
  oob_offset :: u8

text \<open>What the stack reads from the device tree (\<open>of_property_read_*\<close>, \<open>of_get_property\<close>), and
  whether the two allocations and \<open>debugfs_create_dir\<close> of an attach succeed.\<close>

record bmt_env =
  dt_node :: bool
  dt_bmt_v2 :: bool
  dt_nmbm :: bool
  dt_bbt :: bool
  dt_remap_range :: "(u32 \<times> u32) list option"
  dt_overridden_oobsize :: "u32 option"
  dt_bmt_pool_size :: "u32 option"
  dt_bmt_oob_offset :: "u8 option"
  dt_bmt_table_size :: "u32 option"
  dt_bmt_max_ratio :: "u32 option"
  dt_bmt_max_reserved_blocks :: "u32 option"
  dt_empty_page_ecc_protected :: bool
  dt_bmt_force_create :: bool
  alloc_data_buf_ok :: bool
  alloc_table_ok :: bool
  debugfs_ok :: bool

section \<open>NAND helpers\<close>

definition OOB_SIGNATURE_OFFSET :: nat where
  "OOB_SIGNATURE_OFFSET = 1"

text \<open>\<open>(loff_t)block << bmtd.blk_shift\<close>\<close>

definition blk_addr :: "'d bmt_desc \<Rightarrow> nat \<Rightarrow> loff" where
  "blk_addr s b = b * 2 ^ unat (blk_shift s)"

definition blk_pg :: "'d bmt_desc \<Rightarrow> u16 \<Rightarrow> u32" where
  "blk_pg s block = push_bit (unat (blk_shift s) - unat (pg_shift s)) (ucast block)"

text \<open>Only the chip and the shared page buffer differ between two states.\<close>

definition io_upd :: "'d bmt_desc \<Rightarrow> 'd bmt_desc \<Rightarrow> bool" where
  "io_upd s t \<longleftrightarrow> t = s\<lparr>nand := nand t, data_buf := data_buf t\<rparr>"

definition bbt_nand_read ::
  "'d nand_drv \<Rightarrow> u32 \<Rightarrow> nat \<Rightarrow> nat \<Rightarrow> 'd bmt_desc \<Rightarrow> int \<times> byte list \<times> byte list \<times> 'd bmt_desc"
where
  "bbt_nand_read drv page dat_len fdm_len s =
     (let (ret, dat, fdm, d) =
        drv_read_oob drv (unat (push_bit (unat (pg_shift s)) page)) dat_len
          (unat (oob_offset s)) fdm_len (nand s)
      in (if ret < 0 then ret else 0, dat, fdm, s\<lparr>nand := d\<rparr>))"

definition bbt_nand_erase :: "'d nand_drv \<Rightarrow> u16 \<Rightarrow> 'd bmt_desc \<Rightarrow> int \<times> 'd bmt_desc" where
  "bbt_nand_erase drv block s =
     (let (ret, d) = drv_erase drv (blk_addr s (unat block)) (unat (blk_size s)) (nand s)
      in (ret, s\<lparr>nand := d\<rparr>))"

definition write_bmt ::
  "'d nand_drv \<Rightarrow> byte list \<Rightarrow> u16 \<Rightarrow> byte list \<Rightarrow> 'd bmt_desc \<Rightarrow> int \<times> 'd bmt_desc"
where
  "write_bmt drv sig block dat s =
     (let (ret, _, _, d) =
        drv_write_oob drv (blk_addr s (unat block))
          (take (unat (push_bit (unat (pg_shift s)) (bmt_pgs s))) dat)
          (OOB_SIGNATURE_OFFSET + unat (oob_offset s)) sig (nand s)
      in (ret, s\<lparr>nand := d\<rparr>))"

definition mtd_is_bitflip :: "int \<Rightarrow> bool" where
  "mtd_is_bitflip err \<longleftrightarrow> err = - EUCLEAN"

text \<open>
  \<open>bbt_nand_copy\<close> copies page by page through \<open>data_buf\<close>. \<open>wr_ops\<close> is a fresh structure in each
  round whose \<open>ooblen\<close> is set only after the write, so the write carries no out-of-band bytes.
  The first argument counts the pages left.
\<close>

fun bbt_nand_copy_loop ::
  "'d nand_drv \<Rightarrow> nat \<Rightarrow> nat \<Rightarrow> loff \<Rightarrow> loff \<Rightarrow> nat \<Rightarrow> int \<Rightarrow> 'd bmt_desc \<Rightarrow> int \<times> 'd bmt_desc"
where
  "bbt_nand_copy_loop drv 0 pages src dest offset max_offset s = (0, s)"
| "bbt_nand_copy_loop drv (Suc k) pages src dest offset max_offset s =
     (if int offset \<ge> max_offset then (0, s)
      else let (ret, dat, oob, d) =
             drv_read_oob drv (src + offset) (unat (pg_size s)) 0
               (min (unat (oobsize (mtd s)) div pages) 64) (nand s);
           s1 = s\<lparr>nand := d, data_buf := memcpy_at (data_buf s) 0 dat\<rparr>
      in if ret < 0 \<and> \<not> mtd_is_bitflip ret then (ret, s1)
         else if length dat = 0 then (0, s1)
         else let (wret, _, _, d') =
                drv_write_oob drv (dest + offset) (take (unat (pg_size s1)) (data_buf s1)) 0 []
                  (nand s1);
                s2 = s1\<lparr>nand := d'\<rparr>
           in if wret < 0 then (wret, s2)
              else bbt_nand_copy_loop drv k pages src dest (offset + length dat) max_offset s2)"

definition bbt_nand_copy ::
  "'d nand_drv \<Rightarrow> u16 \<Rightarrow> u16 \<Rightarrow> int \<Rightarrow> 'd bmt_desc \<Rightarrow> int \<times> 'd bmt_desc"
where
  "bbt_nand_copy drv dest_blk src_blk max_offset s =
     (let pages = unat (drop_bit (unat (pg_shift s)) (blk_size s))
      in bbt_nand_copy_loop drv pages pages (blk_addr s (unat src_blk)) (blk_addr s (unat dest_blk))
           0 max_offset s)"

text \<open>
  \<open>mapping_block_in_range\<close> yields the bounds through \<open>*start\<close> and \<open>*end\<close>, both C \<open>int\<close>; \<open>None\<close>
  is its \<open>false\<close>. Without a device-tree range the bounds are block numbers (0 and
  \<open>total_blks\<close>), with one they are the byte addresses of the property.
\<close>

fun find_range :: "u32 \<Rightarrow> (u32 \<times> u32) list \<Rightarrow> (int \<times> int) option" where
  "find_range addr [] = None"
| "find_range addr ((lo, hi) # rest) =
     (if addr < lo \<or> addr \<ge> hi then find_range addr rest else Some (sint lo, sint hi))"

definition mapping_block_in_range :: "'d bmt_desc \<Rightarrow> int \<Rightarrow> (int \<times> int) option" where
  "mapping_block_in_range s block =
     (let addr = push_bit (unat (blk_shift s)) (word_of_int block :: u32)
      in case remap_range s of
           None \<Rightarrow> Some (0, uint (total_blks s))
         | Some rs \<Rightarrow> if rs = [] then Some (0, uint (total_blks s)) else find_range addr rs)"

section \<open>Frame lemmas\<close>

lemma io_upd_refl [simp]: "io_upd s s"
  by (simp add: io_upd_def)

lemma io_upd_nand [simp]: "io_upd s (s\<lparr>nand := d\<rparr>)"
  by (simp add: io_upd_def)

lemma io_upd_nand_buf [simp]: "io_upd s (s\<lparr>nand := d, data_buf := b\<rparr>)"
  by (simp add: io_upd_def)

lemma io_upd_trans [trans]:
  assumes "io_upd s t" and "io_upd t u"
  shows "io_upd s u"
proof -
  obtain d b where t: "t = s\<lparr>nand := d, data_buf := b\<rparr>"
    using assms(1) unfolding io_upd_def by metis
  obtain d' b' where u: "u = t\<lparr>nand := d', data_buf := b'\<rparr>"
    using assms(2) unfolding io_upd_def by metis
  show ?thesis by (simp add: t u io_upd_def)
qed

lemma io_updE:
  assumes "io_upd s t"
  obtains d b where "t = s\<lparr>nand := d, data_buf := b\<rparr>"
  using assms unfolding io_upd_def by metis

lemma io_upd_fields [frame_simps]:
  assumes "io_upd s t"
  shows "attached t = attached s" "mtd t = mtd s" "bbt_buf t = bbt_buf s" "bbt t = bbt s"
    "ni t = ni s" "table_size t = table_size s" "pg_size t = pg_size s" "blk_size t = blk_size s"
    "pg_shift t = pg_shift s" "blk_shift t = blk_shift s" "pool_lba t = pool_lba s"
    "total_blks t = total_blks s" "bmt_blk_idx t = bmt_blk_idx s" "bmt_pgs t = bmt_pgs s"
    "remap_range t = remap_range s" "oob_offset t = oob_offset s" "bb_max t = bb_max s"
    "pool_pba t = pool_pba s" "saved_fns t = saved_fns s" "debugfs_dir t = debugfs_dir s"
  using assms by (auto elim!: io_updE)

lemma bbt_nand_read_frame: "bbt_nand_read drv page n m s = (ret, dat, fdm, t) \<Longrightarrow> io_upd s t"
  by (auto simp: bbt_nand_read_def split: prod.splits)

lemma bbt_nand_erase_frame: "bbt_nand_erase drv b s = (ret, t) \<Longrightarrow> io_upd s t"
  by (auto simp: bbt_nand_erase_def split: prod.splits)

lemma write_bmt_frame: "write_bmt drv sig b dat s = (ret, t) \<Longrightarrow> io_upd s t"
  by (auto simp: write_bmt_def split: prod.splits)

lemma bbt_nand_copy_loop_frame:
  "bbt_nand_copy_loop drv k pages src dest off mx s = (ret, t) \<Longrightarrow> io_upd s t"
proof (induction k arbitrary: off s)
  case 0
  then show ?case by simp
next
  case (Suc k)
  obtain r dat oob d where rd: "drv_read_oob drv (src + off) (unat (pg_size s)) 0
               (min (unat (oobsize (mtd s)) div pages) 64) (nand s) = (r, dat, oob, d)"
    by (metis prod_cases4)
  define s1 where "s1 = s\<lparr>nand := d, data_buf := memcpy_at (data_buf s) 0 dat\<rparr>"
  have s1: "io_upd s s1" by (simp add: s1_def)
  obtain wr x y d' where wr: "drv_write_oob drv (dest + off)
      (take (unat (pg_size s1)) (data_buf s1)) 0 [] (nand s1) = (wr, x, y, d')"
    by (metis prod_cases4)
  have s2: "io_upd s (s1\<lparr>nand := d'\<rparr>)"
    using s1 by (rule io_upd_trans) simp
  show ?case
    using Suc.prems Suc.IH [of "off + length dat" "s1\<lparr>nand := d'\<rparr>"] s1 s2
    by (auto simp: rd s1_def [symmetric] wr Let_def split: if_splits intro: io_upd_trans)
qed

lemma bbt_nand_copy_frame: "bbt_nand_copy drv a b mx s = (ret, t) \<Longrightarrow> io_upd s t"
  by (auto simp: bbt_nand_copy_def Let_def dest: bbt_nand_copy_loop_frame)

lemma io_upd_mapping_block_in_range:
  "io_upd s t \<Longrightarrow> mapping_block_in_range t b = mapping_block_in_range s b"
  by (auto simp: mapping_block_in_range_def Let_def elim!: io_updE split: option.splits)

lemma io_upd_blk_addr: "io_upd s t \<Longrightarrow> blk_addr t b = blk_addr s b"
  by (auto simp: blk_addr_def elim!: io_updE)

section \<open>Remap ranges\<close>

text \<open>
  What the device tree has to guarantee: no ranges at all, or block-aligned, pairwise disjoint
  ranges inside the chip. The chip has at most \<open>2 ^ 31\<close> bytes, the bound of the C \<open>int\<close> the
  range bounds are returned in.
\<close>

definition chip_fits :: "'d bmt_desc \<Rightarrow> bool" where
  "chip_fits s \<longleftrightarrow> unat (total_blks s) * 2 ^ unat (blk_shift s) < 2 ^ 31"

definition ranges_ok :: "'d bmt_desc \<Rightarrow> (u32 \<times> u32) list \<Rightarrow> bool" where
  "ranges_ok s rs \<longleftrightarrow>
     (\<forall>(lo, hi) \<in> set rs. lo \<le> hi \<and> 2 ^ unat (blk_shift s) dvd uint lo \<and>
        2 ^ unat (blk_shift s) dvd uint hi \<and>
        unat hi \<le> unat (total_blks s) * 2 ^ unat (blk_shift s)) \<and>
     (\<forall>p \<in> set rs. \<forall>q \<in> set rs. p \<noteq> q \<longrightarrow> snd p \<le> fst q \<or> snd q \<le> fst p)"

lemma find_range_Some:
  "find_range a rs = Some (l, h) \<Longrightarrow>
   \<exists>lo hi. (lo, hi) \<in> set rs \<and> lo \<le> a \<and> a < hi \<and> l = sint lo \<and> h = sint hi"
  by (induction a rs rule: find_range.induct)
    (simp, fastforce simp: not_less not_le split: if_splits)

lemma find_range_unique:
  assumes "(lo, hi) \<in> set rs" and "lo \<le> a" and "a < hi"
    and "\<forall>p \<in> set rs. \<forall>q \<in> set rs. p \<noteq> q \<longrightarrow> snd p \<le> fst q \<or> snd q \<le> fst p"
  shows "find_range a rs = Some (sint lo, sint hi)"
  using assms
proof (induction a rs rule: find_range.induct)
  case (1 addr)
  then show ?case by simp
next
  case (2 addr l h rest)
  show ?case
  proof (cases "addr < l \<or> addr \<ge> h")
    case True
    then have "(lo, hi) \<in> set rest" using 2 by auto
    with True 2 show ?thesis by simp
  next
    case False
    then have "(l, h) = (lo, hi)"
      using 2(2-5) by fastforce
    with False show ?thesis by simp
  qed
qed

lemma blk_addr_word:
  assumes "chip_fits s" and "0 \<le> b" and "b < uint (total_blks s)"
  shows "uint (push_bit (unat (blk_shift s)) (word_of_int b :: u32)) = b * 2 ^ unat (blk_shift s)"
proof -
  let ?n = "unat (blk_shift s)"
  have "uint (total_blks s) * 2 ^ ?n < 2 ^ 31"
    using assms(1) unfolding chip_fits_def by (simp flip: of_nat_less_iff [where ?'a = int])
  moreover have "b * 2 ^ ?n \<le> uint (total_blks s) * 2 ^ ?n"
    using assms(3) by (intro mult_right_mono) auto
  ultimately have "b * 2 ^ ?n < 2 ^ 31" by (rule order.strict_trans1 [rotated])
  then have "b * 2 ^ ?n < 2 ^ 32" by (rule order.strict_trans) simp
  then have "uint (word_of_int (b * 2 ^ ?n) :: u32) = b * 2 ^ ?n"
    using assms(2) unfolding unsigned_of_int by (simp add: take_bit_int_eq_self)
  moreover have "push_bit ?n (word_of_int b :: u32) = word_of_int (b * 2 ^ ?n)"
    by (simp add: push_bit_eq_mult)
  ultimately show ?thesis by (simp only:)
qed

end
