(* ===== verification/Bmt_Core.thy ===== *)
theory Bmt_Core
  imports Bmt_Nand
begin

text \<open>
  The backend-independent half of the stack (\<open>mtk_bmt.c\<close>): the operation table
  \<open>struct mtk_bmt_ops\<close>, and the functions installed in \<open>struct mtd_info\<close> that translate every
  access through the backend's block mapping and remap a block after a failure.

  A backend operation that may loop forever returns an option; \<open>None\<close> is a call that never
  returns. The loops of this theory inherit that type.
\<close>

section \<open>The backend interface\<close>

record 'd mtk_bmt_ops =
  op_sig :: "byte list"
  op_init :: "bmt_env \<Rightarrow> 'd bmt_desc \<Rightarrow> (int \<times> 'd bmt_desc) option"
  op_remap_block :: "u16 \<Rightarrow> u16 \<Rightarrow> int \<Rightarrow> 'd bmt_desc \<Rightarrow> (bool \<times> 'd bmt_desc) option"
  op_unmap_block :: "u16 \<Rightarrow> 'd bmt_desc \<Rightarrow> 'd bmt_desc option"
  op_get_mapping_block :: "'d bmt_desc \<Rightarrow> int \<Rightarrow> int"
  op_debug :: "u64 \<Rightarrow> 'd bmt_desc \<Rightarrow> (int \<times> 'd bmt_desc) option"

text \<open>Remapping is refused outside the configured ranges.\<close>

definition mtk_bmt_remap_block ::
  "'d mtk_bmt_ops \<Rightarrow> u32 \<Rightarrow> u32 \<Rightarrow> int \<Rightarrow> 'd bmt_desc \<Rightarrow> (bool \<times> 'd bmt_desc) option"
where
  "mtk_bmt_remap_block ops block mapped_block copy_len s =
     (case mapping_block_in_range s (sint block) of
        None \<Rightarrow> Some (False, s)
      | Some _ \<Rightarrow> op_remap_block ops (ucast block) (ucast mapped_block) copy_len s)"

section \<open>Address translation\<close>

text \<open>\<open>offset = addr & (blk_size - 1)\<close> and \<open>block = addr >> blk_shift\<close>, both \<open>u32\<close>.\<close>

definition addr_offset :: "'d bmt_desc \<Rightarrow> loff \<Rightarrow> u32" where
  "addr_offset s a = (of_nat a) AND (blk_size s - 1)"

definition addr_block :: "'d bmt_desc \<Rightarrow> loff \<Rightarrow> u32" where
  "addr_block s a = of_nat (a div 2 ^ unat (blk_shift s))"

section \<open>Read\<close>

text \<open>
  \<open>dat\<close> and \<open>oob\<close> are the bytes delivered so far, so their lengths are \<open>ops->retlen\<close> and
  \<open>ops->oobretlen\<close>; \<open>ooffs\<close> and \<open>olen\<close> are \<open>cur_ops.ooboffs\<close> and \<open>cur_ops.ooblen\<close>. The comparison
  of \<open>cur_ret\<close> with the threshold is between an \<open>int\<close> and an \<open>unsigned int\<close> and is made on
  32-bit unsigned values, as in C.
\<close>

partial_function (option) mtk_bmt_read_loop ::
  "'d mtk_bmt_ops \<Rightarrow> 'd nand_drv \<Rightarrow> nat \<Rightarrow> nat \<Rightarrow> loff \<Rightarrow> nat \<Rightarrow> int \<Rightarrow> int \<Rightarrow>
   byte list \<Rightarrow> byte list \<Rightarrow> nat \<Rightarrow> nat \<Rightarrow> 'd bmt_desc \<Rightarrow>
   (int \<times> byte list \<times> byte list \<times> 'd bmt_desc) option"
where
  "mtk_bmt_read_loop ops drv len ooblen from retry ret maxbf dat oob ooffs olen s =
     (if length dat < len \<or> length oob < ooblen then
        let offset = addr_offset s from;
            block = addr_block s from;
            cur_block = op_get_mapping_block ops s (sint block)
        in if cur_block < 0 then Some (- EIO, dat, oob, s)
        else let clen = min (erasesize (mtd s) - offset) (of_nat (len - length dat));
                 (cur_ret, cdat, coob, d) =
                   drv_read_oob drv (blk_addr s (nat cur_block) + unat offset) (unat clen)
                     ooffs olen (nand s);
                 s1 = s\<lparr>nand := d\<rparr>;
                 ret1 = (if cur_ret < 0 then cur_ret else ret);
                 maxbf1 = (if cur_ret < 0 then maxbf else max maxbf cur_ret)
             in if cur_ret < 0 \<and> \<not> mtd_is_bitflip cur_ret then
                  do {
                    (ok, s2) \<leftarrow> mtk_bmt_remap_block ops block (word_of_int cur_block)
                                  (sint (erasesize (mtd s1))) s1;
                    if ok \<and> retry < 10
                    then mtk_bmt_read_loop ops drv len ooblen from (Suc retry) ret1 maxbf1
                           dat oob ooffs olen s2
                    else Some (if ret1 < 0 then ret1 else maxbf1, dat, oob, s2)
                  }
                else
                  do {
                    s2 \<leftarrow> (if bitflip_threshold (mtd s1) \<noteq> 0 \<and>
                               bitflip_threshold (mtd s1) \<le> (word_of_int cur_ret :: u32)
                            then map_option snd (mtk_bmt_remap_block ops block
                                   (word_of_int cur_block) (sint (erasesize (mtd s1))) s1)
                            else Some s1);
                    mtk_bmt_read_loop ops drv len ooblen
                      (from + unat (if clen = 0 then erasesize (mtd s2) - offset else clen))
                      0 ret1 maxbf1 (dat @ cdat) (oob @ coob) 0 (olen - length coob) s2
                  }
      else Some (if ret < 0 then ret else maxbf, dat, oob, s))"

definition mtk_bmt_read ::
  "'d mtk_bmt_ops \<Rightarrow> 'd nand_drv \<Rightarrow> loff \<Rightarrow> nat \<Rightarrow> nat \<Rightarrow> nat \<Rightarrow> 'd bmt_desc \<Rightarrow>
   (int \<times> byte list \<times> byte list \<times> 'd bmt_desc) option"
where
  "mtk_bmt_read ops drv from len ooboffs ooblen s =
     mtk_bmt_read_loop ops drv len ooblen from 0 0 0 [] [] ooboffs ooblen s"

section \<open>Write\<close>

text \<open>
  \<open>dat\<close> and \<open>oob\<close> are the buffers from the current positions of \<open>cur_ops.datbuf\<close> and
  \<open>cur_ops.oobbuf\<close>; \<open>rl\<close> and \<open>orl\<close> are \<open>ops->retlen\<close> and \<open>ops->oobretlen\<close>.
\<close>

partial_function (option) mtk_bmt_write_loop ::
  "'d mtk_bmt_ops \<Rightarrow> 'd nand_drv \<Rightarrow> nat \<Rightarrow> nat \<Rightarrow> loff \<Rightarrow> nat \<Rightarrow> nat \<Rightarrow> nat \<Rightarrow>
   byte list \<Rightarrow> byte list \<Rightarrow> nat \<Rightarrow> nat \<Rightarrow> 'd bmt_desc \<Rightarrow> (int \<times> nat \<times> nat \<times> 'd bmt_desc) option"
where
  "mtk_bmt_write_loop ops drv len ooblen to retry rl orl dat oob ooffs olen s =
     (if rl < len \<or> orl < ooblen then
        let offset = addr_offset s to;
            block = addr_block s to;
            cur_block = op_get_mapping_block ops s (sint block)
        in if cur_block < 0 then Some (- EIO, rl, orl, s)
        else let clen = min (blk_size s - offset) (of_nat (len - rl));
                 (ret, crl, corl, d) =
                   drv_write_oob drv (blk_addr s (nat cur_block) + unat offset)
                     (take (unat clen) dat) ooffs (take olen oob) (nand s);
                 s1 = s\<lparr>nand := d\<rparr>
             in if ret < 0 then
                  do {
                    (ok, s2) \<leftarrow> mtk_bmt_remap_block ops block (word_of_int cur_block)
                                  (sint offset) s1;
                    if ok \<and> retry < 10
                    then mtk_bmt_write_loop ops drv len ooblen to (Suc retry) rl orl dat oob
                           ooffs olen s2
                    else Some (ret, rl, orl, s2)
                  }
                else mtk_bmt_write_loop ops drv len ooblen
                       (to + unat (if clen = 0 then erasesize (mtd s1) - offset else clen))
                       0 (rl + crl) (orl + corl) (drop crl dat) (drop corl oob) 0 (olen - corl) s1
      else Some (0, rl, orl, s))"

definition mtk_bmt_write ::
  "'d mtk_bmt_ops \<Rightarrow> 'd nand_drv \<Rightarrow> loff \<Rightarrow> byte list \<Rightarrow> nat \<Rightarrow> byte list \<Rightarrow> 'd bmt_desc \<Rightarrow>
   (int \<times> nat \<times> nat \<times> 'd bmt_desc) option"
where
  "mtk_bmt_write ops drv to dat ooboffs oob s =
     mtk_bmt_write_loop ops drv (length dat) (length oob) to 0 0 0 dat oob ooboffs (length oob) s"

section \<open>Erase\<close>

text \<open>
  The mask \<open>~mtd->erasesize_mask\<close> is a 32-bit value, so the start address keeps only the low
  32 bits. The result is the return code, \<open>instr->fail_addr\<close> when it is set, and the state. The
  C local \<open>ret\<close> has no value before the first round; \<open>ret\<close> starts as that unknown value.
\<close>

partial_function (option) mtk_bmt_erase_loop ::
  "'d mtk_bmt_ops \<Rightarrow> 'd nand_drv \<Rightarrow> nat \<Rightarrow> nat \<Rightarrow> nat \<Rightarrow> int \<Rightarrow> 'd bmt_desc \<Rightarrow>
   (int \<times> nat option \<times> 'd bmt_desc) option"
where
  "mtk_bmt_erase_loop ops drv start_addr end_addr retry ret s =
     (if start_addr < end_addr then
        let orig_block = (of_nat (start_addr div 2 ^ unat (blk_shift s)) :: u16);
            block = op_get_mapping_block ops s (uint orig_block)
        in if block < 0 then Some (- EIO, None, s)
        else let (ret1, d) = drv_erase drv (blk_addr s (nat block)) (unat (blk_size s)) (nand s);
                 s1 = s\<lparr>nand := d\<rparr>
             in if ret1 \<noteq> 0 then
                  do {
                    (ok, s2) \<leftarrow> mtk_bmt_remap_block ops (ucast orig_block) (word_of_int block) 0 s1;
                    if ok \<and> retry < 10
                    then mtk_bmt_erase_loop ops drv start_addr end_addr (Suc retry) ret1 s2
                    else Some (ret1, Some start_addr, s2)
                  }
                else mtk_bmt_erase_loop ops drv (start_addr + unat (erasesize (mtd s1))) end_addr
                       0 ret1 s1
      else Some (ret, None, s))"

definition mtk_bmt_mtd_erase ::
  "'d mtk_bmt_ops \<Rightarrow> 'd nand_drv \<Rightarrow> loff \<Rightarrow> nat \<Rightarrow> int \<Rightarrow> 'd bmt_desc \<Rightarrow>
   (int \<times> nat option \<times> 'd bmt_desc) option"
where
  "mtk_bmt_mtd_erase ops drv addr len junk s =
     mtk_bmt_erase_loop ops drv
       (unat ((of_nat addr :: u32) AND NOT (erasesize_mask (mtd s)))) (addr + len) 0 junk s"

section \<open>Bad-block queries\<close>

text \<open>The mapped block is stored to a \<open>u16\<close> without a check for a negative value.\<close>

fun mtk_bmt_block_isbad_loop ::
  "'d mtk_bmt_ops \<Rightarrow> 'd nand_drv \<Rightarrow> u16 \<Rightarrow> nat \<Rightarrow> 'd bmt_desc \<Rightarrow> (int \<times> 'd bmt_desc) option"
where
  "mtk_bmt_block_isbad_loop ops drv orig_block tries s =
     (let block = (word_of_int (op_get_mapping_block ops s (uint orig_block)) :: u16);
          (ret, d) = drv_block_isbad drv (blk_addr s (unat block)) (nand s);
          s1 = s\<lparr>nand := d\<rparr>
      in if ret \<noteq> 0 then
           do {
             (ok, s2) \<leftarrow> mtk_bmt_remap_block ops (ucast orig_block) (ucast block)
                           (sint (blk_size s1)) s1;
             (case tries of
                0 \<Rightarrow> Some (ret, s2)
              | Suc n \<Rightarrow> if ok then mtk_bmt_block_isbad_loop ops drv orig_block n s2
                        else Some (ret, s2))
           }
         else Some (ret, s1))"

definition mtk_bmt_block_isbad ::
  "'d mtk_bmt_ops \<Rightarrow> 'd nand_drv \<Rightarrow> loff \<Rightarrow> 'd bmt_desc \<Rightarrow> (int \<times> 'd bmt_desc) option"
where
  "mtk_bmt_block_isbad ops drv ofs s =
     mtk_bmt_block_isbad_loop ops drv (of_nat (ofs div 2 ^ unat (blk_shift s))) 10 s"

definition mtk_bmt_block_markbad ::
  "'d mtk_bmt_ops \<Rightarrow> 'd nand_drv \<Rightarrow> loff \<Rightarrow> 'd bmt_desc \<Rightarrow> (int \<times> 'd bmt_desc) option"
where
  "mtk_bmt_block_markbad ops drv ofs s =
     (let orig_block = (of_nat (ofs div 2 ^ unat (blk_shift s)) :: u16);
          block = op_get_mapping_block ops s (uint orig_block)
      in if block < 0 then Some (- EIO, s)
         else do {
           (_, s1) \<leftarrow> mtk_bmt_remap_block ops (ucast orig_block) (word_of_int block)
                        (sint (blk_size s)) s;
           let (ret, d) = drv_block_markbad drv (blk_addr s1 (nat block)) (nand s1);
           Some (ret, s1\<lparr>nand := d\<rparr>)
         })"

section \<open>Debug files\<close>

definition mtk_bmt_debug_repair ::
  "'d mtk_bmt_ops \<Rightarrow> 'd nand_drv \<Rightarrow> u64 \<Rightarrow> 'd bmt_desc \<Rightarrow> (int \<times> 'd bmt_desc) option"
where
  "mtk_bmt_debug_repair ops drv val s =
     (let block = (ucast (drop_bit (unat (blk_shift s)) val) :: u32);
          prev_block = op_get_mapping_block ops s (sint block)
      in if prev_block < 0 then Some (- EIO, s)
         else do {
           s1 \<leftarrow> op_unmap_block ops (ucast block) s;
           let new_block = op_get_mapping_block ops s1 (sint block);
           if new_block < 0 then Some (- EIO, s1)
           else if prev_block = new_block then Some (0, s1)
           else let (_, s2) = bbt_nand_erase drv (word_of_int new_block) s1;
                    (_, s3) = bbt_nand_copy drv (word_of_int new_block) (word_of_int prev_block)
                                (uint (blk_size s2)) s2
                in Some (0, s3)
         })"

definition mtk_bmt_debug_mark_good ::
  "'d mtk_bmt_ops \<Rightarrow> u64 \<Rightarrow> 'd bmt_desc \<Rightarrow> (int \<times> 'd bmt_desc) option"
where
  "mtk_bmt_debug_mark_good ops val s =
     map_option (\<lambda>s1. (0, s1))
       (op_unmap_block ops (ucast (drop_bit (unat (blk_shift s)) val)) s)"

definition mtk_bmt_debug_mark_bad ::
  "'d mtk_bmt_ops \<Rightarrow> u64 \<Rightarrow> 'd bmt_desc \<Rightarrow> (int \<times> 'd bmt_desc) option"
where
  "mtk_bmt_debug_mark_bad ops val s =
     (let block = (ucast (drop_bit (unat (blk_shift s)) val) :: u32);
          cur_block = op_get_mapping_block ops s (sint block)
      in if cur_block < 0 then Some (- EIO, s)
         else map_option (\<lambda>(_, s1). (0, s1))
                (mtk_bmt_remap_block ops block (word_of_int cur_block) (sint (blk_size s)) s))"

definition mtk_bmt_debug ::
  "'d mtk_bmt_ops \<Rightarrow> u64 \<Rightarrow> 'd bmt_desc \<Rightarrow> (int \<times> 'd bmt_desc) option"
where
  "mtk_bmt_debug ops val s = op_debug ops val s"

section \<open>The contract of a backend\<close>

text \<open>A consistent geometry: the block size is the erase size of the device and the power of
  two given by the shift, and the chip is smaller than \<open>2 ^ 31\<close> bytes.\<close>

definition geom_ok :: "'d bmt_desc \<Rightarrow> bool" where
  "geom_ok s \<longleftrightarrow> unat (blk_size s) = 2 ^ unat (blk_shift s) \<and> erasesize (mtd s) = blk_size s \<and>
     erasesize_mask (mtd s) = blk_size s - 1 \<and> chip_fits s"

definition same_geom :: "'d bmt_desc \<Rightarrow> 'd bmt_desc \<Rightarrow> bool" where
  "same_geom s t \<longleftrightarrow> blk_size t = blk_size s \<and> blk_shift t = blk_shift s \<and> pg_size t = pg_size s \<and>
     pg_shift t = pg_shift s \<and> total_blks t = total_blks s \<and> remap_range t = remap_range s \<and>
     mtd t = mtd s"

lemma same_geom_refl [simp]: "same_geom s s"
  by (simp add: same_geom_def)

lemma same_geom_nand [simp]: "same_geom s (t\<lparr>nand := d\<rparr>) = same_geom s t"
  "same_geom (s\<lparr>nand := d\<rparr>) t = same_geom s t"
  by (auto simp: same_geom_def)

lemma same_geom_trans [trans]: "same_geom s t \<Longrightarrow> same_geom t u \<Longrightarrow> same_geom s u"
  by (auto simp: same_geom_def)

lemma io_upd_same_geom: "io_upd s t \<Longrightarrow> same_geom s t"
  by (auto simp: same_geom_def elim!: io_updE)

lemma same_geom_ok: "same_geom s t \<Longrightarrow> geom_ok t = geom_ok s"
  by (auto simp: same_geom_def geom_ok_def chip_fits_def)

lemma geom_ok_nand [simp]: "geom_ok (s\<lparr>nand := d\<rparr>) = geom_ok s"
  by (simp add: geom_ok_def chip_fits_def)

lemma geom_shift_bound:
  assumes "geom_ok s"
  shows "unat (blk_shift s) < 32"
proof (rule ccontr)
  assume "\<not> unat (blk_shift s) < 32"
  then have "(2 :: nat) ^ 32 \<le> 2 ^ unat (blk_shift s)"
    by (intro power_increasing) auto
  moreover have "unat (blk_size s) < 2 ^ 32"
    using unat_bound [of "blk_size s"] by simp
  ultimately show False
    using assms by (simp add: geom_ok_def)
qed

lemma addr_offset_mod:
  assumes "geom_ok s"
  shows "unat (addr_offset s a) = a mod 2 ^ unat (blk_shift s)"
proof -
  let ?n = "unat (blk_shift s)"
  have n: "?n < 32" using assms by (rule geom_shift_bound)
  have "of_nat (unat (blk_size s)) = (of_nat (2 ^ ?n) :: u32)"
    using assms by (simp add: geom_ok_def)
  then have "blk_size s = 2 ^ ?n" by simp
  then have "addr_offset s a = take_bit ?n (of_nat a)"
    by (simp add: addr_offset_def take_bit_eq_mask mask_eq_exp_minus_1)
  then have "unat (addr_offset s a) = take_bit ?n (take_bit 32 a)"
    by (simp add: unsigned_take_bit_eq unsigned_of_nat)
  also have "\<dots> = a mod 2 ^ ?n"
    using n by (subst take_bit_take_bit) (simp add: min_absorb1 flip: take_bit_eq_mod)
  finally show ?thesis .
qed

text \<open>Where the stack sends a logical byte address.\<close>

definition xlate :: "'d mtk_bmt_ops \<Rightarrow> 'd bmt_desc \<Rightarrow> nat \<Rightarrow> nat" where
  "xlate ops s a =
     nat (op_get_mapping_block ops s (int (a div 2 ^ unat (blk_shift s)))) * 2 ^ unat (blk_shift s)
     + a mod 2 ^ unat (blk_shift s)"

text \<open>
  The mapping contract: \<open>binv\<close> is the backend's invariant and \<open>lblks\<close> the number of logical
  blocks it serves. Every logical block is sent to a block of the chip, and the mapping does
  not look at the chip.
\<close>

locale bmt_mapping =
  fixes ops :: "'d mtk_bmt_ops"
    and binv :: "'d bmt_desc \<Rightarrow> bool"
    and lblks :: "'d bmt_desc \<Rightarrow> nat"
  assumes geom: "binv s \<Longrightarrow> geom_ok s"
    and lblks_le: "binv s \<Longrightarrow> lblks s \<le> unat (total_blks s)"
    and map_range: "binv s \<Longrightarrow> b < lblks s \<Longrightarrow>
          0 \<le> op_get_mapping_block ops s (int b) \<and>
          op_get_mapping_block ops s (int b) < uint (total_blks s)"
    and nand_inv: "binv s \<Longrightarrow> binv (s\<lparr>nand := d\<rparr>)"
    and nand_lblks: "lblks (s\<lparr>nand := d\<rparr>) = lblks s"
    and nand_map: "op_get_mapping_block ops (s\<lparr>nand := d\<rparr>) i = op_get_mapping_block ops s i"

text \<open>The remap contract: moving a logical block off the block it is mapped to always returns and
  keeps the invariant, the geometry and the number of logical blocks.\<close>

locale bmt_remapping = bmt_mapping +
  assumes remap_ok: "binv s \<Longrightarrow> unat b < lblks s \<Longrightarrow>
      m = word_of_int (op_get_mapping_block ops s (uint b)) \<Longrightarrow>
      \<exists>ok t. op_remap_block ops b m n s = Some (ok, t) \<and> binv t \<and> same_geom s t \<and> lblks t = lblks s"

text \<open>The isolation contract: two logical blocks never share a block of the chip.\<close>

locale bmt_isolating = bmt_mapping +
  assumes map_inj: "binv s \<Longrightarrow> b < lblks s \<Longrightarrow> c < lblks s \<Longrightarrow>
      op_get_mapping_block ops s (int b) = op_get_mapping_block ops s (int c) \<Longrightarrow> b = c"

text \<open>
  Documented behaviour of the driver that the functional properties assume: a read delivers the
  bytes of the chip without bit flips; a write into erased bytes (all 0xff) stores its data and
  touches nothing else; an erase succeeds.
\<close>

definition clean_reads :: "'d nand_drv \<Rightarrow> (nat \<Rightarrow> byte) \<Rightarrow> 'd \<Rightarrow> bool" where
  "clean_reads drv chip d \<longleftrightarrow>
     (\<forall>a n. drv_read_oob drv a n 0 0 d = (0, map chip [a..<a + n], [], d))"

definition programs_erased :: "'d nand_drv \<Rightarrow> ('d \<Rightarrow> nat \<Rightarrow> byte) \<Rightarrow> bool" where
  "programs_erased drv peek \<longleftrightarrow>
     (\<forall>a bs d. (\<forall>i < length bs. peek d (a + i) = 0xff) \<longrightarrow>
        (\<exists>d'. drv_write_oob drv a bs 0 [] d = (0, length bs, 0, d') \<and>
           (\<forall>x. peek d' x = (if a \<le> x \<and> x < a + length bs then bs ! (x - a) else peek d x))))"

lemma programs_erasedD:
  assumes "programs_erased drv peek" and "\<And>i. i < length bs \<Longrightarrow> peek d (a + i) = 0xff"
  obtains d' where "drv_write_oob drv a bs 0 [] d = (0, length bs, 0, d')"
    and "\<And>x. peek d' x = (if a \<le> x \<and> x < a + length bs then bs ! (x - a) else peek d x)"
  using assms unfolding programs_erased_def by metis

definition erases_ok :: "'d nand_drv \<Rightarrow> bool" where
  "erases_ok drv \<longleftrightarrow> (\<forall>a n d. fst (drv_erase drv a n d) = 0)"

section \<open>Client lemmas: the mapping contract\<close>

context bmt_mapping
begin

lemma addr_block_eq:
  assumes "binv s" and "a < lblks s * 2 ^ unat (blk_shift s)"
  shows "sint (addr_block s a) = int (a div 2 ^ unat (blk_shift s))"
    and "a div 2 ^ unat (blk_shift s) < lblks s"
proof -
  show b: "a div 2 ^ unat (blk_shift s) < lblks s"
    using assms(2) by (simp add: less_mult_imp_div_less)
  have "lblks s < 2 ^ 16"
    using lblks_le [OF assms(1)] unat_bound [of "total_blks s"] by simp
  with b have "a div 2 ^ unat (blk_shift s) < 2 ^ 16" by simp
  then show "sint (addr_block s a) = int (a div 2 ^ unat (blk_shift s))"
    by (simp add: addr_block_def signed_of_nat signed_take_bit_int_eq_self)
qed

lemma xlate_block_step:
  assumes "a mod 2 ^ unat (blk_shift s) + k < 2 ^ unat (blk_shift s)"
  shows "xlate ops s (a + k) = xlate ops s a + k"
  using assms by (simp add: xlate_def div_block_step mod_block_step)

lemma xlate_in_chip:
  assumes "binv s" and "a < lblks s * 2 ^ unat (blk_shift s)"
  shows "xlate ops s a < unat (total_blks s) * 2 ^ unat (blk_shift s)"
proof -
  have "nat (op_get_mapping_block ops s (int (a div 2 ^ unat (blk_shift s)))) < unat (total_blks s)"
    using map_range [OF assms(1) addr_block_eq(2) [OF assms]]
    by (simp add: nat_less_unat)
  then show ?thesis
    unfolding xlate_def by (rule block_bound) simp
qed

text \<open>
  Reading through the stack. The driver is assumed to deliver the requested bytes of the chip
  (\<open>chip\<close>) with no bit flips; the stack then delivers the bytes of the translated addresses in
  order, however many block boundaries the request crosses.
\<close>

lemma chunk_len:
  assumes "binv s" and "a + rest \<le> lblks s * 2 ^ unat (blk_shift s)"
  shows "unat (min (blk_size s - addr_offset s a) (of_nat rest)) =
           min (2 ^ unat (blk_shift s) - a mod 2 ^ unat (blk_shift s)) rest"
proof -
  have g: "geom_ok s" using assms(1) by (rule geom)
  have "lblks s * 2 ^ unat (blk_shift s) \<le> unat (total_blks s) * 2 ^ unat (blk_shift s)"
    using lblks_le [OF assms(1)] by (rule mult_le_mono1)
  also have "\<dots> < 2 ^ 31" using g by (simp add: geom_ok_def chip_fits_def)
  finally have "rest < 2 ^ LENGTH(32)" using assms(2) by simp
  moreover have "addr_offset s a \<le> blk_size s"
    using g by (simp add: word_le_nat_alt addr_offset_mod geom_ok_def less_imp_le)
  then have "unat (blk_size s - addr_offset s a) = unat (blk_size s) - unat (addr_offset s a)"
    by (rule unat_sub)
  ultimately show ?thesis
    using g by (simp only: unat_min_of_nat addr_offset_mod [OF g]) (simp add: geom_ok_def)
qed

lemma read_chunk:
  assumes "k \<le> 2 ^ unat (blk_shift s) - a mod 2 ^ unat (blk_shift s)"
  shows "map chip [xlate ops s a..<xlate ops s a + k] = map (\<lambda>x. chip (xlate ops s x)) [a..<a + k]"
  using assms
  by (intro nth_equalityI) (auto simp: xlate_block_step)

lemma read_loop_clean:
  assumes inv: "binv s" and rd: "clean_reads drv chip (nand s)"
    and "from + rest \<le> lblks s * 2 ^ unat (blk_shift s)"
  shows "mtk_bmt_read_loop ops drv (length dat + rest) 0 from retry 0 0 dat [] 0 0 s =
           Some (0, dat @ map (\<lambda>x. chip (xlate ops s x)) [from..<from + rest], [], s)"
  using assms(3)
proof (induction rest arbitrary: "from" dat retry rule: less_induct)
  case (less rest)
  show ?case
  proof (cases "rest = 0")
    case True
    then show ?thesis by (simp add: mtk_bmt_read_loop.simps)
  next
    case False
    let ?n = "unat (blk_shift s)"
    let ?off = "from mod 2 ^ ?n"
    let ?b = "from div 2 ^ ?n"
    have g: "geom_ok s" using inv by (rule geom)
    have b: "sint (addr_block s from) = int ?b" "?b < lblks s"
      using addr_block_eq [OF inv, of "from"] less.prems False by auto
    have m: "0 \<le> op_get_mapping_block ops s (int ?b)"
      using map_range [OF inv b(2)] by simp
    define clen where "clen = min (erasesize (mtd s) - addr_offset s from) (of_nat rest :: u32)"
    have clen: "unat clen = min (2 ^ ?n - ?off) rest"
      unfolding clen_def using chunk_len [OF inv less.prems] g by (simp add: geom_ok_def)
    define k where "k = unat clen"
    have k: "0 < k" "k \<le> rest" "k \<le> 2 ^ ?n - ?off"
      using clen False by (auto simp: k_def)
    have cn: "clen \<noteq> 0" using k(1) by (auto simp: k_def)
    have IH: "mtk_bmt_read_loop ops drv (length (dat @ map (\<lambda>x. chip (xlate ops s x)) [from..<from + k]) + (rest - k)) 0
        (from + k) 0 0 0 (dat @ map (\<lambda>x. chip (xlate ops s x)) [from..<from + k]) [] 0 0 s =
      Some (0, (dat @ map (\<lambda>x. chip (xlate ops s x)) [from..<from + k]) @
               map (\<lambda>x. chip (xlate ops s x)) [from + k..<from + k + (rest - k)], [], s)"
      using less.prems k by (intro less.IH) auto
    have "map f [from..<from + k] @ map f [from + k..<from + rest] = map f [from..<from + rest]"
      for f :: "nat \<Rightarrow> byte"
      using k upt_add_eq_append [of "from" "from + k" "rest - k"] by (simp flip: map_append)
    moreover have "mtk_bmt_read_loop ops drv (length dat + rest) 0 from retry 0 0 dat [] 0 0 s =
        mtk_bmt_read_loop ops drv (length dat + rest) 0 (from + k) 0 0 0
          (dat @ map chip [xlate ops s from..<xlate ops s from + k]) [] 0 0 s"
      by (subst mtk_bmt_read_loop.simps)
        (use False m in \<open>simp add: b rd [unfolded clean_reads_def] clen_def [symmetric] k_def [symmetric] cn Let_def
           addr_offset_mod [OF g] blk_addr_def xlate_def\<close>)
    ultimately show ?thesis
      using IH k by (simp add: read_chunk)
  qed
qed

lemma xlate_nand [simp]: "xlate ops (s\<lparr>nand := d\<rparr>) = xlate ops s"
  by (simp add: xlate_def nand_map fun_eq_iff)

lemma erase_loop_clean:
  assumes inv: "binv s" and er: "erases_ok drv"
    and "k + n \<le> lblks s"
  shows "mtk_bmt_erase_loop ops drv (k * 2 ^ unat (blk_shift s)) ((k + n) * 2 ^ unat (blk_shift s))
           retry ret (s\<lparr>nand := d\<rparr>) =
         Some (if n = 0 then ret else 0, None, s\<lparr>nand := fold (\<lambda>b d.
           snd (drv_erase drv (blk_addr s (nat (op_get_mapping_block ops s (int b))))
                  (unat (blk_size s)) d)) [k..<k + n] d\<rparr>)"
  using assms(3)
proof (induction n arbitrary: k d retry ret)
  case 0
  then show ?case by (simp add: mtk_bmt_erase_loop.simps)
next
  case (Suc n)
  let ?B = "2 ^ unat (blk_shift s) :: nat"
  let ?e = "drv_erase drv (blk_addr s (nat (op_get_mapping_block ops s (int k)))) (unat (blk_size s)) d"
  have g: "unat (erasesize (mtd s)) = ?B"
    using geom [OF inv] by (simp add: geom_ok_def)
  obtain d1 where e: "?e = (0, d1)"
    using er by (metis erases_ok_def prod.collapse)
  have "k < 2 ^ 16"
    using Suc.prems lblks_le [OF inv] unat_bound [of "total_blks s"] by simp
  then have u: "uint (of_nat k :: u16) = int k"
    by (simp add: unsigned_of_nat take_bit_nat_eq_self)
  have m: "0 \<le> op_get_mapping_block ops s (int k)"
    using map_range [OF inv, of k] Suc.prems by simp
  have ba: "blk_addr (s\<lparr>nand := d\<rparr>) x = blk_addr s x" for x
    by (simp add: blk_addr_def)
  have IH: "mtk_bmt_erase_loop ops drv (Suc k * ?B) ((Suc k + n) * ?B) 0 0 (s\<lparr>nand := d1\<rparr>) =
      Some (if n = 0 then 0 else 0, None, s\<lparr>nand := fold (\<lambda>b d.
           snd (drv_erase drv (blk_addr s (nat (op_get_mapping_block ops s (int b))))
                  (unat (blk_size s)) d)) [Suc k..<Suc k + n] d1\<rparr>)"
    using Suc.prems by (intro Suc.IH) simp
  have "k * ?B < (k + Suc n) * ?B" by (rule mult_less_mono1) auto
  then have "mtk_bmt_erase_loop ops drv (k * ?B) ((k + Suc n) * ?B) retry ret (s\<lparr>nand := d\<rparr>) =
      mtk_bmt_erase_loop ops drv (k * ?B + ?B) ((k + Suc n) * ?B) 0 0 (s\<lparr>nand := d1\<rparr>)"
    by (subst mtk_bmt_erase_loop.simps) (use m e in \<open>simp add: Let_def nand_map u ba g \<close>)
  moreover have "[k..<k + Suc n] = k # [Suc k..<Suc k + n]"
    by (simp add: upt_conv_Cons del: upt_Suc)
  ultimately show ?case
    using e IH by (simp add: add.commute del: upt_Suc)
qed

end

section \<open>Client lemmas: the isolation contract\<close>

context bmt_isolating
begin

lemma xlate_inj:
  assumes "binv s" and "a < lblks s * 2 ^ unat (blk_shift s)" and "c < lblks s * 2 ^ unat (blk_shift s)"
    and eq: "xlate ops s a = xlate ops s c"
  shows "a = c"
proof -
  let ?B = "2 ^ unat (blk_shift s) :: nat"
  let ?f = "\<lambda>x. nat (op_get_mapping_block ops s (int (x div ?B)))"
  have "xlate ops s x div ?B = ?f x" "xlate ops s x mod ?B = x mod ?B" for x
    by (simp_all add: xlate_def)
  with eq have "?f a = ?f c" and r: "a mod ?B = c mod ?B"
    by metis+
  moreover have "a div ?B < lblks s" "c div ?B < lblks s"
    using assms(2,3) by (simp_all add: less_mult_imp_div_less)
  moreover from this have "0 \<le> op_get_mapping_block ops s (int (a div ?B))"
      "0 \<le> op_get_mapping_block ops s (int (c div ?B))"
    using map_range [OF assms(1)] by blast+
  ultimately have "a div ?B = c div ?B"
    by (intro map_inj [OF assms(1)]) auto
  with r show ?thesis
    by (metis div_mult_mod_eq)
qed

text \<open>
  Writing through the stack into erased logical bytes stores exactly the data: seen through the
  mapping, the written range holds the new bytes and every other logical byte is unchanged.
\<close>

lemma write_loop_clean:
  assumes inv: "binv s" and wr: "programs_erased drv peek"
    and "to + length dat \<le> lblks s * 2 ^ unat (blk_shift s)"
    and "\<forall>i < length dat. peek d (xlate ops s (to + i)) = 0xff"
  shows "\<exists>t. mtk_bmt_write_loop ops drv (rl + length dat) 0 to retry rl 0 dat [] 0 0 (s\<lparr>nand := d\<rparr>) =
           Some (0, rl + length dat, 0, s\<lparr>nand := t\<rparr>) \<and>
         (\<forall>x < lblks s * 2 ^ unat (blk_shift s). peek t (xlate ops s x) =
            (if to \<le> x \<and> x < to + length dat then dat ! (x - to) else peek d (xlate ops s x)))"
  using assms(3,4)
proof (induction "length dat" arbitrary: dat to d rl retry rule: less_induct)
  case less
  let ?L = "lblks s * 2 ^ unat (blk_shift s)"
  show ?case
  proof (cases "dat = []")
    case True
    then show ?thesis
      by (intro exI [of _ d]) (auto simp add: mtk_bmt_write_loop.simps)
  next
    case False
    let ?n = "unat (blk_shift s)"
    let ?off = "to mod 2 ^ ?n"
    let ?b = "to div 2 ^ ?n"
    have inv': "binv (s\<lparr>nand := d\<rparr>)" using inv by (rule nand_inv)
    have g: "geom_ok s" using inv by (rule geom)
    have "to < ?L" using less.prems(1) False by (cases dat) auto
    then have b: "sint (addr_block (s\<lparr>nand := d\<rparr>) to) = int ?b" "?b < lblks s"
      using addr_block_eq [OF inv', of to] by (auto simp: nand_lblks)
    have m: "0 \<le> op_get_mapping_block ops s (int ?b)"
      using map_range [OF inv b(2)] by simp
    define clen where
      "clen = min (blk_size s - addr_offset (s\<lparr>nand := d\<rparr>) to) (of_nat (length dat) :: u32)"
    have clen: "unat clen = min (2 ^ ?n - ?off) (length dat)"
      unfolding clen_def using chunk_len [OF inv', of to "length dat"] less.prems(1)
      by (simp add: nand_lblks)
    define k where "k = unat clen"
    have k: "0 < k" "k \<le> length dat" "k \<le> 2 ^ ?n - ?off"
      using clen False by (auto simp: k_def)
    have cn: "clen \<noteq> 0" using k(1) by (auto simp: k_def)
    have step: "xlate ops s (to + i) = xlate ops s to + i" if "i < k" for i
      using that k(3) by (intro xlate_block_step) simp
    have er: "peek d (xlate ops s to + i) = 0xff" if "i < k" for i
      using less.prems(2) step [OF that] that k(2) by (metis order.strict_trans2)
    obtain d' where d': "drv_write_oob drv (xlate ops s to) (take k dat) 0 [] d = (0, k, 0, d')"
      and pk: "\<And>x. peek d' x = (if xlate ops s to \<le> x \<and> x < xlate ops s to + k
                 then take k dat ! (x - xlate ops s to) else peek d x)"
      using programs_erasedD [OF wr, of "take k dat" d "xlate ops s to"] er k(2)
      by (auto simp: min_absorb2)
    have view: "peek d' (xlate ops s x) = (if to \<le> x \<and> x < to + k then dat ! (x - to)
                  else peek d (xlate ops s x))" if x: "x < ?L" for x
    proof (cases "to \<le> x \<and> x < to + k")
      case True
      then obtain j where "x = to + j" "j < k"
        by (metis less_eqE nat_add_left_cancel_less)
      then show ?thesis using pk step [of j] by simp
    next
      case False
      have "\<not> (xlate ops s to \<le> xlate ops s x \<and> xlate ops s x < xlate ops s to + k)"
      proof
        assume h: "xlate ops s to \<le> xlate ops s x \<and> xlate ops s x < xlate ops s to + k"
        then obtain j where j: "xlate ops s x = xlate ops s to + j" "j < k"
          by (metis less_eqE nat_add_left_cancel_less)
        have "to + j < ?L" using j(2) k(2) less.prems(1) by linarith
        moreover have "xlate ops s (to + j) = xlate ops s x" using step [OF j(2)] j(1) by simp
        ultimately have "to + j = x" using xlate_inj [OF inv _ x] by blast
        with False \<open>j < k\<close> show False by auto
      qed
      with False pk show ?thesis by auto
    qed
    have "\<exists>t. mtk_bmt_write_loop ops drv ((rl + k) + length (drop k dat)) 0 (to + k) 0 (rl + k) 0
             (drop k dat) [] 0 0 (s\<lparr>nand := d'\<rparr>) =
             Some (0, (rl + k) + length (drop k dat), 0, s\<lparr>nand := t\<rparr>) \<and>
           (\<forall>x < ?L. peek t (xlate ops s x) =
             (if to + k \<le> x \<and> x < to + k + length (drop k dat) then drop k dat ! (x - (to + k))
              else peek d' (xlate ops s x)))"
      using less.prems k view by (intro less.hyps) (auto simp: add.assoc)
    then obtain t where t: "mtk_bmt_write_loop ops drv (rl + length dat) 0 (to + k) 0 (rl + k) 0
             (drop k dat) [] 0 0 (s\<lparr>nand := d'\<rparr>) = Some (0, rl + length dat, 0, s\<lparr>nand := t\<rparr>)"
      and tv: "\<And>x. x < ?L \<Longrightarrow> peek t (xlate ops s x) =
             (if to + k \<le> x \<and> x < to + length dat then dat ! (x - to)
              else peek d' (xlate ops s x))"
      using k by (auto simp: add.assoc)
    have "mtk_bmt_write_loop ops drv (rl + length dat) 0 to retry rl 0 dat [] 0 0 (s\<lparr>nand := d\<rparr>) =
        mtk_bmt_write_loop ops drv (rl + length dat) 0 (to + k) 0 (rl + k) 0 (drop k dat) [] 0 0
          (s\<lparr>nand := d'\<rparr>)"
      by (subst mtk_bmt_write_loop.simps)
        (use False m d' in \<open>simp add: b nand_map clen_def [symmetric] k_def [symmetric] cn Let_def
           addr_offset_mod g blk_addr_def xlate_def\<close>)
    with t tv view k show ?thesis
      by (intro exI [of _ t]) auto
  qed
qed

end

section \<open>Client lemmas: the remap contract\<close>

text \<open>
  Whatever the driver answers, a loop that remaps on failure ends: a block is retried at most ten
  times, and each success moves on. The backend's invariant survives every failure path.
\<close>

definition keeps ::
  "('d bmt_desc \<Rightarrow> bool) \<Rightarrow> ('d bmt_desc \<Rightarrow> nat) \<Rightarrow> 'd bmt_desc \<Rightarrow> 'd bmt_desc \<Rightarrow> bool"
where
  "keeps binv lblks s t \<longleftrightarrow> binv t \<and> same_geom s t \<and> lblks t = lblks s"

context bmt_remapping
begin

lemma keeps_nand: "binv s \<Longrightarrow> keeps binv lblks s (s\<lparr>nand := d\<rparr>)"
  by (simp add: keeps_def nand_inv nand_lblks)

lemma keeps_trans: "keeps binv lblks s t \<Longrightarrow> keeps binv lblks t u \<Longrightarrow> keeps binv lblks s u"
  by (auto simp: keeps_def intro: same_geom_trans)

lemma remap_block_total:
  assumes "binv s" and "unat b < lblks s"
    and "ucast m = (word_of_int (op_get_mapping_block ops s (uint b)) :: u16)"
  obtains ok t where "mtk_bmt_remap_block ops b m n s = Some (ok, t)" and "keeps binv lblks s t"
proof -
  have "unat b < 2 ^ 16"
    using assms lblks_le [OF assms(1)] unat_bound [of "total_blks s"] by simp
  then have ub: "unat (ucast b :: u16) = unat b"
    by (simp add: unsigned_ucast_eq take_bit_nat_eq_self)
  then have ui: "uint (ucast b :: u16) = uint b"
    by (simp only: uint_nat)
  obtain ok t where "op_remap_block ops (ucast b) (ucast m) n s = Some (ok, t)"
    and "keeps binv lblks s t"
    using remap_ok [OF assms(1), of "ucast b" "ucast m" n] assms(2,3) ub ui
    by (auto simp: keeps_def)
  moreover have "keeps binv lblks s s"
    using keeps_nand [OF assms(1), of "nand s"] by simp
  ultimately show thesis
    using that by (cases "mapping_block_in_range s (sint b)") (auto simp: mtk_bmt_remap_block_def)
qed

lemma remap_block_total_int:
  assumes "binv s" and "unat b < lblks s"
  obtains ok t where
    "mtk_bmt_remap_block ops b (word_of_int (op_get_mapping_block ops s (uint b))) n s = Some (ok, t)"
    and "keeps binv lblks s t"
proof (rule remap_block_total [OF assms])
  show "ucast (word_of_int (op_get_mapping_block ops s (uint b)) :: u32) =
          (word_of_int (op_get_mapping_block ops s (uint b)) :: u16)"
    by (rule bit_word_eqI) (simp add: bit_simps)
qed (rule that)

lemma erase_loop_total:
  assumes "binv s" and "e \<le> lblks s * 2 ^ unat (blk_shift s)"
  shows "\<exists>r fa t. mtk_bmt_erase_loop ops drv a e retry ret s = Some (r, fa, t) \<and> keeps binv lblks s t"
  using assms
proof (induction "(e - a) * 12 + (10 - retry)" arbitrary: a retry ret s rule: less_induct)
  case less
  show ?case
  proof (cases "a < e")
    case False
    then show ?thesis
      using keeps_nand [OF less.prems(1), of "nand s"] by (simp add: mtk_bmt_erase_loop.simps)
  next
    case True
    let ?k = "a div 2 ^ unat (blk_shift s)"
    let ?b = "of_nat ?k :: u16"
    have k: "?k < lblks s"
      using True less.prems(2) by (intro less_mult_imp_div_less) simp
    then have "?k < 2 ^ 16"
      using lblks_le [OF less.prems(1)] unat_bound [of "total_blks s"] by simp
    then have u: "uint ?b = int ?k" and uu: "unat (ucast ?b :: u32) = ?k"
      by (simp_all add: unsigned_of_nat take_bit_nat_eq_self unsigned_ucast_eq)
    from uu have ui: "uint (ucast ?b :: u32) = int ?k" by (simp only: uint_nat)
    let ?m = "op_get_mapping_block ops s (int ?k)"
    have m: "0 \<le> ?m" using map_range [OF less.prems(1) k] by simp
    obtain r d where er: "drv_erase drv (blk_addr s (nat ?m)) (unat (blk_size s)) (nand s) = (r, d)"
      by fastforce
    let ?s1 = "s\<lparr>nand := d\<rparr>"
    have s1: "binv ?s1" "keeps binv lblks s ?s1"
      using less.prems(1) nand_inv keeps_nand by auto
    have pos: "0 < unat (erasesize (mtd s))"
      using geom [OF less.prems(1)] by (simp add: geom_ok_def)
    show ?thesis
    proof (cases "r = 0")
      case True
      have "\<exists>r fa t. mtk_bmt_erase_loop ops drv (a + unat (erasesize (mtd s))) e 0 0 ?s1
              = Some (r, fa, t) \<and> keeps binv lblks ?s1 t"
        using \<open>a < e\<close> pos less.prems s1 by (intro less.hyps) (auto simp: nand_lblks)
      with True s1 \<open>a < e\<close> m er u show ?thesis
        by (subst mtk_bmt_erase_loop.simps) (auto simp: Let_def intro: keeps_trans)
    next
      case False
      obtain ok t where rm: "mtk_bmt_remap_block ops (ucast ?b) (word_of_int ?m) 0 ?s1 = Some (ok, t)"
        and t: "keeps binv lblks ?s1 t"
        using remap_block_total_int [OF s1(1), of "ucast ?b" 0] k uu
        unfolding nand_lblks nand_map ui by metis
      have st: "keeps binv lblks s t" using s1(2) t by (rule keeps_trans)
      show ?thesis
      proof (cases "ok \<and> retry < 10")
        case True
        have "\<exists>r' fa t'. mtk_bmt_erase_loop ops drv a e (Suc retry) r t = Some (r', fa, t') \<and> keeps binv lblks t t'"
          using True less.prems st by (intro less.hyps) (auto simp: keeps_def same_geom_def)
        with True False \<open>a < e\<close> m er u rm st show ?thesis
          by (subst mtk_bmt_erase_loop.simps) (auto simp: Let_def intro: keeps_trans)
      next
        case nc: False
        with False \<open>a < e\<close> m er u rm st show ?thesis
          by (subst mtk_bmt_erase_loop.simps) (auto simp: Let_def)
      qed
    qed
  qed
qed

lemma remap_after_query:
  fixes b :: u16
  assumes "binv s" and "unat b < lblks s"
  obtains ok t where "mtk_bmt_remap_block ops (ucast b) (ucast (word_of_int
      (op_get_mapping_block ops s (uint b)) :: u16)) n (s\<lparr>nand := d\<rparr>) = Some (ok, t)"
    and "keeps binv lblks s t"
proof -
  have 1: "binv (s\<lparr>nand := d\<rparr>)" using assms(1) by (rule nand_inv)
  have 2: "unat (ucast b :: u32) < lblks (s\<lparr>nand := d\<rparr>)" using assms(2) by (simp add: nand_lblks)
  have 3: "ucast (ucast (word_of_int (op_get_mapping_block ops s (uint b)) :: u16) :: u32) =
     (word_of_int (op_get_mapping_block ops (s\<lparr>nand := d\<rparr>) (uint (ucast b :: u32))) :: u16)"
    by (simp add: nand_map)
  obtain ok t where rm: "mtk_bmt_remap_block ops (ucast b) (ucast (word_of_int
      (op_get_mapping_block ops s (uint b)) :: u16)) n (s\<lparr>nand := d\<rparr>) = Some (ok, t)"
    and "keeps binv lblks (s\<lparr>nand := d\<rparr>) t"
    using 1 2 3 by (rule remap_block_total)
  then show thesis
    using keeps_trans [OF keeps_nand [OF assms(1)]] by (intro that [OF rm])
qed

lemma block_isbad_total:
  assumes "binv s" and "unat b < lblks s"
  shows "\<exists>r t. mtk_bmt_block_isbad_loop ops drv b n s = Some (r, t) \<and> keeps binv lblks s t"
  using assms
proof (induction n arbitrary: s)
  case base: 0
  obtain r d where bad: "drv_block_isbad drv (blk_addr s (unat (word_of_int
      (op_get_mapping_block ops s (uint b)) :: u16))) (nand s) = (r, d)"
    by fastforce
  obtain ok t where "mtk_bmt_remap_block ops (ucast b) (ucast (word_of_int
      (op_get_mapping_block ops s (uint b)) :: u16)) (sint (blk_size s)) (s\<lparr>nand := d\<rparr>) = Some (ok, t)"
    and "keeps binv lblks s t"
    using base.prems by (rule remap_after_query)
  with bad keeps_nand [OF base.prems(1)] show ?case
    by (auto simp: Let_def)
next
  case (Suc n)
  obtain r d where bad: "drv_block_isbad drv (blk_addr s (unat (word_of_int
      (op_get_mapping_block ops s (uint b)) :: u16))) (nand s) = (r, d)"
    by fastforce
  obtain ok t where rm: "mtk_bmt_remap_block ops (ucast b) (ucast (word_of_int
      (op_get_mapping_block ops s (uint b)) :: u16)) (sint (blk_size s)) (s\<lparr>nand := d\<rparr>) = Some (ok, t)"
    and st: "keeps binv lblks s t"
    using Suc.prems by (rule remap_after_query)
  then have "\<exists>r' t'. mtk_bmt_block_isbad_loop ops drv b n t = Some (r', t') \<and> keeps binv lblks t t'"
    using Suc.prems by (intro Suc.IH) (auto simp: keeps_def)
  with bad rm st keeps_nand [OF Suc.prems(1)] show ?case
    by (auto simp: Let_def intro: keeps_trans)
qed

end

section \<open>Runs\<close>

text \<open>
  A run is any sequence of the operations below on logical addresses: erase, bad-block query,
  marking a block bad, and the two debug files that remap. The driver's answers are free.
\<close>

inductive bmt_run ::
  "'d mtk_bmt_ops \<Rightarrow> 'd nand_drv \<Rightarrow> ('d bmt_desc \<Rightarrow> nat) \<Rightarrow> 'd bmt_desc \<Rightarrow> 'd bmt_desc \<Rightarrow> bool"
  for ops drv lblks
where
  run_start: "bmt_run ops drv lblks s s"
| run_chip: "bmt_run ops drv lblks s t \<Longrightarrow> bmt_run ops drv lblks s (t\<lparr>nand := d\<rparr>)"
| run_erase: "bmt_run ops drv lblks s t \<Longrightarrow> a + len \<le> lblks t * 2 ^ unat (blk_shift t) \<Longrightarrow>
    mtk_bmt_mtd_erase ops drv a len junk t = Some (r, fa, u) \<Longrightarrow> bmt_run ops drv lblks s u"
| run_isbad: "bmt_run ops drv lblks s t \<Longrightarrow> a < lblks t * 2 ^ unat (blk_shift t) \<Longrightarrow>
    mtk_bmt_block_isbad ops drv a t = Some (r, u) \<Longrightarrow> bmt_run ops drv lblks s u"
| run_markbad: "bmt_run ops drv lblks s t \<Longrightarrow> a < lblks t * 2 ^ unat (blk_shift t) \<Longrightarrow>
    mtk_bmt_block_markbad ops drv a t = Some (r, u) \<Longrightarrow> bmt_run ops drv lblks s u"
| run_debug_bad: "bmt_run ops drv lblks s t \<Longrightarrow> unat val < lblks t * 2 ^ unat (blk_shift t) \<Longrightarrow>
    mtk_bmt_debug_mark_bad ops val t = Some (r, u) \<Longrightarrow> bmt_run ops drv lblks s u"

context bmt_remapping
begin

lemma block_of_u16:
  assumes "binv s" and "a < lblks s * 2 ^ unat (blk_shift s)"
  shows "unat (of_nat (a div 2 ^ unat (blk_shift s)) :: u16) = a div 2 ^ unat (blk_shift s)"
    and "a div 2 ^ unat (blk_shift s) < lblks s"
proof -
  show b: "a div 2 ^ unat (blk_shift s) < lblks s"
    using assms(2) by (simp add: less_mult_imp_div_less)
  then have "a div 2 ^ unat (blk_shift s) < 2 ^ LENGTH(16)"
    using lblks_le [OF assms(1)] unat_bound [of "total_blks s"] by simp
  then show "unat (of_nat (a div 2 ^ unat (blk_shift s)) :: u16) = a div 2 ^ unat (blk_shift s)"
    by (simp add: unsigned_of_nat take_bit_nat_eq_self)
qed

lemma mtd_erase_total:
  assumes "binv s" and "a + len \<le> lblks s * 2 ^ unat (blk_shift s)"
  shows "\<exists>r fa t. mtk_bmt_mtd_erase ops drv a len junk s = Some (r, fa, t) \<and> keeps binv lblks s t"
  unfolding mtk_bmt_mtd_erase_def using assms by (rule erase_loop_total)

lemma isbad_total:
  assumes "binv s" and "a < lblks s * 2 ^ unat (blk_shift s)"
  shows "\<exists>r t. mtk_bmt_block_isbad ops drv a s = Some (r, t) \<and> keeps binv lblks s t"
  unfolding mtk_bmt_block_isbad_def
  using block_of_u16 [OF assms] by (intro block_isbad_total [OF assms(1)]) simp

lemma markbad_total:
  assumes "binv s" and "a < lblks s * 2 ^ unat (blk_shift s)"
  shows "\<exists>r t. mtk_bmt_block_markbad ops drv a s = Some (r, t) \<and> keeps binv lblks s t"
proof -
  let ?b = "of_nat (a div 2 ^ unat (blk_shift s)) :: u16"
  have b: "unat (ucast ?b :: u32) < lblks s" and ui: "uint (ucast ?b :: u32) = uint ?b"
    using block_of_u16 [OF assms] by simp_all
  obtain ok t where rm: "mtk_bmt_remap_block ops (ucast ?b)
      (word_of_int (op_get_mapping_block ops s (uint ?b))) (sint (blk_size s)) s = Some (ok, t)"
    and k: "keeps binv lblks s t"
    using remap_block_total_int [OF assms(1) b, of "sint (blk_size s)"] unfolding ui by blast
  have "keeps binv lblks s s" using keeps_nand [OF assms(1), of "nand s"] by simp
  with rm k keeps_trans [OF k keeps_nand] show ?thesis
    by (auto simp: mtk_bmt_block_markbad_def Let_def keeps_def split: prod.splits)
qed

lemma debug_mark_bad_total:
  assumes "binv s" and "unat val < lblks s * 2 ^ unat (blk_shift s)"
  shows "\<exists>r t. mtk_bmt_debug_mark_bad ops val s = Some (r, t) \<and> keeps binv lblks s t"
proof -
  let ?b = "ucast (drop_bit (unat (blk_shift s)) val) :: u32"
  have ud: "unat (drop_bit (unat (blk_shift s)) val) = unat val div 2 ^ unat (blk_shift s)"
    by (rule unat_drop_bit)
  have lt: "unat val div 2 ^ unat (blk_shift s) < lblks s"
    using assms(2) by (simp add: less_mult_imp_div_less)
  moreover have "lblks s < 2 ^ 16" using lblks_le [OF assms(1)] unat_bound [of "total_blks s"] by simp
  ultimately have ub: "unat ?b = unat val div 2 ^ unat (blk_shift s)" and "unat ?b < 2 ^ 31"
    by (simp_all add: unsigned_ucast_eq ud take_bit_nat_eq_self)
  from this(2) have si: "sint ?b = uint ?b" by (rule sint_eq_uint)
  obtain ok t where "mtk_bmt_remap_block ops ?b (word_of_int (op_get_mapping_block ops s (uint ?b)))
      (sint (blk_size s)) s = Some (ok, t)" and "keeps binv lblks s t"
    using remap_block_total_int [OF assms(1), of ?b "sint (blk_size s)"] lt ub by auto
  moreover have "keeps binv lblks s s" using keeps_nand [OF assms(1), of "nand s"] by simp
  ultimately show ?thesis
    by (auto simp: mtk_bmt_debug_mark_bad_def Let_def si)
qed

lemma run_keeps:
  assumes "bmt_run ops drv lblks s t" and "binv s"
  shows "keeps binv lblks s t"
  using assms
proof (induction rule: bmt_run.induct)
  case (run_start s)
  then show ?case using keeps_nand [of s "nand s"] by simp
next
  case (run_chip s t d)
  then have k: "keeps binv lblks s t" by simp
  then have "binv t" by (simp add: keeps_def)
  from keeps_trans [OF k keeps_nand [OF this]] show ?case .
next
  case (run_erase s t a len junk r fa u)
  then have k: "keeps binv lblks s t" by simp
  then have "binv t" by (simp add: keeps_def)
  with run_erase mtd_erase_total [OF this run_erase(2), of drv junk] keeps_trans [OF k] show ?case by auto
next
  case (run_isbad s t a r u)
  then have k: "keeps binv lblks s t" by simp
  then have "binv t" by (simp add: keeps_def)
  with run_isbad isbad_total [OF this run_isbad(2), of drv] keeps_trans [OF k] show ?case by auto
next
  case (run_markbad s t a r u)
  then have k: "keeps binv lblks s t" by simp
  then have "binv t" by (simp add: keeps_def)
  with run_markbad markbad_total [OF this run_markbad(2), of drv] keeps_trans [OF k] show ?case by auto
next
  case (run_debug_bad s t val r u)
  then have k: "keeps binv lblks s t" by simp
  then have "binv t" by (simp add: keeps_def)
  with run_debug_bad debug_mark_bad_total [OF this run_debug_bad(2)] keeps_trans [OF k] show ?case by auto
qed

end

end
