(* ===== verification/Bmt_Local.thy ===== *)
theory Bmt_Local
  imports Bmt_Core
begin

text \<open>
  What the NAND helpers touch on the chip. The driver is assumed to be local: a read changes no
  byte and delivers at most what was asked for, a write and an erase change no byte outside
  their range, whether they succeed or fail. The lemmas bound the blocks each helper can change.
\<close>

section \<open>Local drivers\<close>

definition local_drv :: "'d nand_drv \<Rightarrow> ('d \<Rightarrow> nat \<Rightarrow> byte) \<Rightarrow> bool" where
  "local_drv drv peek \<longleftrightarrow>
     (\<forall>a n ofs m d r dat oob d'. drv_read_oob drv a n ofs m d = (r, dat, oob, d') \<longrightarrow>
        length dat \<le> n \<and> peek d' = peek d) \<and>
     (\<forall>a bs ofs oob d r l m d' x. drv_write_oob drv a bs ofs oob d = (r, l, m, d') \<longrightarrow>
        \<not> (a \<le> x \<and> x < a + length bs) \<longrightarrow> peek d' x = peek d x) \<and>
     (\<forall>a n d r d' x. drv_erase drv a n d = (r, d') \<longrightarrow>
        \<not> (a \<le> x \<and> x < a + n) \<longrightarrow> peek d' x = peek d x)"

lemma local_readD:
  "local_drv drv peek \<Longrightarrow> drv_read_oob drv a n ofs m d = (r, dat, oob, d') \<Longrightarrow>
   length dat \<le> n \<and> peek d' = peek d"
  unfolding local_drv_def by metis

lemma local_writeD:
  "local_drv drv peek \<Longrightarrow> drv_write_oob drv a bs ofs oob d = (r, l, m, d') \<Longrightarrow>
   \<not> (a \<le> x \<and> x < a + length bs) \<Longrightarrow> peek d' x = peek d x"
  unfolding local_drv_def by metis

lemma local_eraseD:
  "local_drv drv peek \<Longrightarrow> drv_erase drv a n d = (r, d') \<Longrightarrow>
   \<not> (a \<le> x \<and> x < a + n) \<Longrightarrow> peek d' x = peek d x"
  unfolding local_drv_def by metis

section \<open>The blocks an operation can change\<close>

definition in_blk :: "'d bmt_desc \<Rightarrow> nat \<Rightarrow> nat \<Rightarrow> bool" where
  "in_blk s b x \<longleftrightarrow> blk_addr s b \<le> x \<and> x < blk_addr s b + 2 ^ unat (blk_shift s)"

definition same_outside ::
  "('d \<Rightarrow> nat \<Rightarrow> byte) \<Rightarrow> nat set \<Rightarrow> 'd bmt_desc \<Rightarrow> 'd bmt_desc \<Rightarrow> bool"
where
  "same_outside peek B s t \<longleftrightarrow> same_geom s t \<and>
     (\<forall>x. (\<forall>b \<in> B. \<not> in_blk s b x) \<longrightarrow> peek (nand t) x = peek (nand s) x)"

text \<open>The page size is the power of two of its shift, and the stored table fits in a block.\<close>

definition pages_ok :: "'d bmt_desc \<Rightarrow> bool" where
  "pages_ok s \<longleftrightarrow> geom_ok s \<and> unat (pg_size s) = 2 ^ unat (pg_shift s)"

definition table_fits :: "'d bmt_desc \<Rightarrow> bool" where
  "table_fits s \<longleftrightarrow> unat (push_bit (unat (pg_shift s)) (bmt_pgs s)) \<le> 2 ^ unat (blk_shift s)"

lemma in_blk_eq: "in_blk s b x \<longleftrightarrow> x div 2 ^ unat (blk_shift s) = b"
proof -
  let ?B = "2 ^ unat (blk_shift s) :: nat"
  have "x div ?B * ?B \<le> x" "x < x div ?B * ?B + ?B"
    by (simp_all add: div_times_less_eq_dividend, metis add.commute dividend_less_div_times
        zero_less_numeral zero_less_power)
  moreover have "x div ?B = b" if "b * ?B \<le> x" "x < b * ?B + ?B"
    using that by (intro div_nat_eqI) (auto simp: algebra_simps)
  ultimately have "b * ?B \<le> x \<and> x < b * ?B + ?B \<longleftrightarrow> x div ?B = b" by blast
  then show ?thesis by (simp add: in_blk_def blk_addr_def)
qed

lemma same_outside_refl [simp]: "same_outside peek B s s"
  by (simp add: same_outside_def)

lemma same_outside_trans [trans]:
  "same_outside peek B s t \<Longrightarrow> same_outside peek C t u \<Longrightarrow> same_outside peek (B \<union> C) s u"
  by (auto simp: same_outside_def in_blk_eq intro: same_geom_trans) (simp add: same_geom_def)

lemma same_outside_mono: "same_outside peek B s t \<Longrightarrow> B \<subseteq> C \<Longrightarrow> same_outside peek C s t"
  by (auto simp: same_outside_def)

lemma erase_outside:
  assumes "local_drv drv peek" and "geom_ok s" and "bbt_nand_erase drv b s = (r, t)"
  shows "same_outside peek {unat b} s t"
  using assms bbt_nand_erase_frame [OF assms(3)]
  by (auto simp: same_outside_def bbt_nand_erase_def in_blk_def geom_ok_def
      dest: local_eraseD intro: io_upd_same_geom split: prod.splits)

lemma write_bmt_outside:
  assumes "local_drv drv peek" and "table_fits s" and "write_bmt drv sig b dat s = (r, t)"
  shows "same_outside peek {unat b} s t"
proof -
  obtain r' l m d where w: "drv_write_oob drv (blk_addr s (unat b))
      (take (unat (push_bit (unat (pg_shift s)) (bmt_pgs s))) dat)
      (OOB_SIGNATURE_OFFSET + unat (oob_offset s)) sig (nand s) = (r', l, m, d)"
    by (metis prod_cases4)
  let ?bs = "take (unat (push_bit (unat (pg_shift s)) (bmt_pgs s))) dat"
  have "length ?bs \<le> 2 ^ unat (blk_shift s)"
    using assms(2) by (simp add: table_fits_def)
  moreover have "t = s\<lparr>nand := d\<rparr>"
    using assms(3) w by (simp add: write_bmt_def)
  ultimately show ?thesis
    using local_writeD [OF assms(1) w] by (auto simp: same_outside_def in_blk_def)
qed

lemma copy_loop_outside:
  assumes "local_drv drv peek"
    and "off + k * unat (pg_size s) \<le> 2 ^ unat (blk_shift s)"
    and "bbt_nand_copy_loop drv k pages src (blk_addr s b) off mx s = (r, t)"
  shows "same_outside peek {b} s t"
  using assms(2,3)
proof (induction k arbitrary: off s)
  case 0
  then show ?case by simp
next
  case (Suc k)
  obtain r1 dat oob d where rd: "drv_read_oob drv (src + off) (unat (pg_size s)) 0
               (min (unat (oobsize (mtd s)) div pages) 64) (nand s) = (r1, dat, oob, d)"
    by (metis prod_cases4)
  define s1 where "s1 = s\<lparr>nand := d, data_buf := memcpy_at (data_buf s) 0 dat\<rparr>"
  obtain wr l m d' where wr: "drv_write_oob drv (blk_addr s b + off)
      (take (unat (pg_size s1)) (data_buf s1)) 0 [] (nand s1) = (wr, l, m, d')"
    by (metis prod_cases4)
  define s2 where "s2 = s1\<lparr>nand := d'\<rparr>"
  have ld: "length dat \<le> unat (pg_size s)" and pk: "peek d = peek (nand s)"
    using local_readD [OF assms(1) rd] by auto
  have s1: "same_outside peek {b} s s1"
    using pk by (simp add: s1_def same_outside_def same_geom_def)
  have s2: "same_outside peek {b} s s2"
    using local_writeD [OF assms(1) wr] Suc.prems(1) pk
    by (auto simp: s2_def s1_def same_outside_def same_geom_def in_blk_def)
  have IH: "same_outside peek {b} s t"
    if "bbt_nand_copy_loop drv k pages src (blk_addr s b) (off + length dat) mx s2 = (r, t)"
  proof -
    have "blk_addr s2 b = blk_addr s b" by (simp add: s1_def s2_def blk_addr_def)
    with that ld Suc.prems(1) have "same_outside peek {b} s2 t"
      by (intro Suc.IH [of "off + length dat"]) (auto simp: s2_def s1_def)
    with s2 show ?thesis using same_outside_trans by fastforce
  qed
  have "(r, t) = (if int off \<ge> mx then (0, s) else if r1 < 0 \<and> \<not> mtd_is_bitflip r1 then (r1, s1)
      else if length dat = 0 then (0, s1) else if wr < 0 then (wr, s2)
      else bbt_nand_copy_loop drv k pages src (blk_addr s b) (off + length dat) mx s2)"
    using Suc.prems(2) by (simp only: bbt_nand_copy_loop.simps rd s1_def [symmetric] wr Let_def
        s2_def [symmetric] prod.case)
  then show ?case
    using s1 s2 IH by (metis same_outside_refl prod.inject)
qed

lemma copy_outside:
  assumes "local_drv drv peek" and "pages_ok s" and "bbt_nand_copy drv a b mx s = (r, t)"
  shows "same_outside peek {unat a} s t"
proof -
  have "unat (drop_bit (unat (pg_shift s)) (blk_size s)) * unat (pg_size s) \<le> 2 ^ unat (blk_shift s)"
    using assms(2) by (simp add: pages_ok_def geom_ok_def unat_drop_bit div_times_less_eq_dividend)
  with assms(1,3) show ?thesis
    by (intro copy_loop_outside) (auto simp: bbt_nand_copy_def Let_def)
qed

section \<open>A chip in memory\<close>

text \<open>
  A concrete driver, on which the hypotheses about the driver hold: the device state is the
  contents of the chip, programming can only clear bits, erasing sets every bit, and the factory
  bad blocks of the list \<open>bad\<close> carry a marker in their first out-of-band byte.
\<close>

definition ram_drv :: "nat \<Rightarrow> nat list \<Rightarrow> (nat \<Rightarrow> byte) nand_drv" where
  "ram_drv B bad =
     \<lparr>drv_read_oob = (\<lambda>a n ofs m d. (0, map d [a..<a + n],
        replicate m (if a div B \<in> set bad then 0 else 0xff), d)),
      drv_write_oob = (\<lambda>a bs ofs oob d. (0, length bs, length oob,
        (\<lambda>x. if a \<le> x \<and> x < a + length bs then d x AND bs ! (x - a) else d x))),
      drv_erase = (\<lambda>a n d. (0, (\<lambda>x. if a \<le> x \<and> x < a + n then 0xff else d x))),
      drv_block_isbad = (\<lambda>a d. (if a div B \<in> set bad then 1 else 0, d)),
      drv_block_markbad = (\<lambda>a d. (0, d))\<rparr>"

lemma ram_clean_reads: "clean_reads (ram_drv B bad) d d"
  by (simp add: clean_reads_def ram_drv_def)

lemma and_erased: "(0xff :: byte) AND w = w"
proof -
  have "(0xff :: byte) = - 1" by simp
  then show ?thesis by (simp only: and.left_neutral)
qed

lemma ram_programs_erased: "programs_erased (ram_drv B bad) (\<lambda>d. d)"
  by (simp add: programs_erased_def ram_drv_def) (metis and_erased less_eqE nat_add_left_cancel_less
      add_diff_cancel_left')

lemma ram_erases_ok: "erases_ok (ram_drv B bad)"
  by (simp add: erases_ok_def ram_drv_def)

lemma ram_local: "local_drv (ram_drv B bad) (\<lambda>d. d)"
  by (auto simp: local_drv_def ram_drv_def)

text \<open>A descriptor of a chip with eight blocks of four bytes and two pages each, whose blocks 0
  to 5 form one remap range.\<close>

definition ex_mtd :: mtd_info where
  "ex_mtd = \<lparr>erasesize = 4, erasesize_mask = 3, writesize = 2, oobsize = 4, oobavail = 4,
     mtd_size = 32, bitflip_threshold = 0, ecc_strength = 1,
     mtd_ops = \<lparr>fn_read_oob = Drv_fn, fn_write_oob = Drv_fn, fn_erase = Drv_fn,
       fn_block_isbad = Drv_fn, fn_block_markbad = Drv_fn\<rparr>\<rparr>"

definition ex_desc :: "(nat \<Rightarrow> byte) bmt_desc" where
  "ex_desc = \<lparr>nand = (\<lambda>x. 0xff), attached = True, mtd = ex_mtd, saved_fns = mtd_ops ex_mtd,
     bbt_buf = replicate 4 0, data_buf = replicate 2 0, bbt = None, ni = None,
     debugfs_dir = True, table_size = 8, pg_size = 2, blk_size = 4, pg_shift = 1, blk_shift = 2,
     pool_lba = 4, pool_pba = 4, bb_max = 2, total_blks = 8, bmt_blk_idx = 7, bmt_pgs = 2,
     remap_range = Some [(0, 24)], oob_offset = 0\<rparr>"

end
