(* ===== verification/Bmt_Bbt.thy ===== *)
theory Bmt_Bbt
  imports Bmt_Local
begin

text \<open>
  The \<open>mediatek,bbt\<close> backend (\<open>mtk_bmt_bbt.c\<close>): a bad-block bitmap of two bits per block kept in
  \<open>bbt_buf\<close> and in one of the last five blocks of the chip. The mapping is computed from the
  bitmap at every access: logical blocks of a remap range go to the good blocks of the range
  in ascending order, and what is left over goes to the bad ones.
\<close>

section \<open>Definitions\<close>

definition bbt_sig :: "byte list" where
  "bbt_sig = [0x6d, 0x74, 0x6b, 0x6e, 0x61, 0x6e, 0x64]" \<comment> \<open>"mtknand"\<close>

definition bbt_mask :: "u16 \<Rightarrow> u8" where
  "bbt_mask block = push_bit (unat (block mod 4) * 2) 3"

definition bbt_block_is_bad :: "'d bmt_desc \<Rightarrow> u16 \<Rightarrow> bool" where
  "bbt_block_is_bad s block = (cell (bbt_buf s) (unat (block div 4)) AND bbt_mask block \<noteq> 0)"

definition bbt_set_block_state ::
  "'d nand_drv \<Rightarrow> u16 \<Rightarrow> bool \<Rightarrow> 'd bmt_desc \<Rightarrow> 'd bmt_desc"
where
  "bbt_set_block_state drv block bad s =
     (let i = unat (block div 4);
          cur = cell (bbt_buf s) i;
          s1 = s\<lparr>bbt_buf := (bbt_buf s)[i := (if bad then cur OR bbt_mask block
                                             else cur AND NOT (bbt_mask block))]\<rparr>;
          (_, s2) = bbt_nand_erase drv (bmt_blk_idx s1) s1;
          (_, s3) = write_bmt drv bbt_sig (bmt_blk_idx s2) (bbt_buf s2) s2
      in s3)"

text \<open>The first loop of \<open>get_mapping_block_index_bbt\<close>: the final \<open>i\<close>, \<open>ofs\<close> and \<open>bad_blocks\<close>.\<close>

function bbt_scan :: "'d bmt_desc \<Rightarrow> int \<Rightarrow> int \<Rightarrow> int \<Rightarrow> int \<Rightarrow> int \<times> int \<times> int" where
  "bbt_scan s i end_blk ofs bad_blocks =
     (if i < end_blk then
        if bbt_block_is_bad s (word_of_int i) then bbt_scan s (i + 1) end_blk ofs (bad_blocks + 1)
        else if ofs \<noteq> 0 then bbt_scan s (i + 1) end_blk (ofs - 1) bad_blocks
        else (i, ofs, bad_blocks)
      else (i, ofs, bad_blocks))"
  by pat_completeness auto
termination
  by (relation "measure (\<lambda>(s, i, e, ofs, bad). nat (e - i))") auto

declare bbt_scan.simps [simp del]

text \<open>
  The second loop counts down while \<open>bad_blocks > 0\<close>. Its bound is not in its head, so it takes
  fuel; \<open>None\<close> is a loop that has not ended. \<open>bbt_overflow_ref\<close> shows that one unit per block of
  the range is enough. \<open>block\<close> is the value returned when the loop ends without a hit.
\<close>

fun bbt_overflow :: "'d bmt_desc \<Rightarrow> nat \<Rightarrow> int \<Rightarrow> int \<Rightarrow> int \<Rightarrow> int \<Rightarrow> int option" where
  "bbt_overflow s fuel i bad_blocks ofs block =
     (if bad_blocks \<le> 0 then Some block
      else case fuel of
             0 \<Rightarrow> None
           | Suc n \<Rightarrow>
               if \<not> bbt_block_is_bad s (word_of_int i)
               then bbt_overflow s n (i - 1) bad_blocks ofs block
               else if bad_blocks - 1 \<le> ofs then Some i
               else bbt_overflow s n (i - 1) (bad_blocks - 1) ofs block)"

declare bbt_overflow.simps [simp del]

definition get_mapping_block_index_bbt :: "'d bmt_desc \<Rightarrow> int \<Rightarrow> int" where
  "get_mapping_block_index_bbt s block =
     (case mapping_block_in_range s block of
        None \<Rightarrow> block
      | Some (start0, end0) \<Rightarrow>
          let start = drop_bit (unat (blk_shift s)) start0;
              end_blk = drop_bit (unat (blk_shift s)) end0;
              (i, ofs, bad_blocks) = bbt_scan s start end_blk (block - start) 0
          in if i < end_blk then i
             else case bbt_overflow s (nat (end_blk - start)) (end_blk - 1) bad_blocks ofs block of
                    None \<Rightarrow> block
                  | Some r \<Rightarrow> r)"

definition remap_block_bbt ::
  "'d nand_drv \<Rightarrow> u16 \<Rightarrow> u16 \<Rightarrow> int \<Rightarrow> 'd bmt_desc \<Rightarrow> (bool \<times> 'd bmt_desc) option"
where
  "remap_block_bbt drv block mapped_blk copy_len s =
     (case mapping_block_in_range s (uint block) of
        None \<Rightarrow> Some (False, s)
      | Some _ \<Rightarrow>
          let s1 = bbt_set_block_state drv mapped_blk True s;
              new_blk = (word_of_int (get_mapping_block_index_bbt s1 (uint block)) :: u16);
              (_, s2) = bbt_nand_erase drv new_blk s1;
              (_, s3) = (if copy_len > 0 then bbt_nand_copy drv new_blk mapped_blk copy_len s2
                         else (0, s2))
          in Some (True, s3))"

definition unmap_block_bbt :: "'d nand_drv \<Rightarrow> u16 \<Rightarrow> 'd bmt_desc \<Rightarrow> 'd bmt_desc option" where
  "unmap_block_bbt drv block s = Some (bbt_set_block_state drv block False s)"

text \<open>The loop over the last five blocks; the list holds the values of \<open>i\<close> still to try and
  \<open>oob\<close> is \<open>oob_buf\<close>, taken to start as zeros.\<close>

fun mtk_bmt_read_bbt_loop ::
  "'d nand_drv \<Rightarrow> int list \<Rightarrow> byte list \<Rightarrow> 'd bmt_desc \<Rightarrow> int \<times> 'd bmt_desc"
where
  "mtk_bmt_read_bbt_loop drv [] oob s = (- EIO, s)"
| "mtk_bmt_read_bbt_loop drv (i # is) oob s =
     (let page = push_bit (unat (blk_shift s) - unat (pg_shift s)) (word_of_int i :: u32);
          (ret, dat, ob, s1) = bbt_nand_read drv page (unat (pg_size s)) 8 s;
          s2 = s1\<lparr>bbt_buf := memcpy_at (bbt_buf s1) 0 dat\<rparr>;
          oob1 = memcpy_at oob 0 ob
      in if ret \<noteq> 0 then mtk_bmt_read_bbt_loop drv is oob1 s2
         else if cell oob1 0 \<noteq> 0xff then mtk_bmt_read_bbt_loop drv is oob1 s2
         else if \<not> memcmp_eq (drop 1 oob1) bbt_sig 7 then mtk_bmt_read_bbt_loop drv is oob1 s2
         else (0, s2\<lparr>bmt_blk_idx := word_of_int i\<rparr>))"

definition mtk_bmt_read_bbt :: "'d nand_drv \<Rightarrow> 'd bmt_desc \<Rightarrow> int \<times> 'd bmt_desc" where
  "mtk_bmt_read_bbt drv s =
     mtk_bmt_read_bbt_loop drv (map (\<lambda>k. uint (total_blks s) - 1 - int k) [0..<5])
       (replicate 8 0) s"

text \<open>\<open>round_up(x, y)\<close> of the kernel for a power of two \<open>y\<close>.\<close>

definition round_up :: "u32 \<Rightarrow> u32 \<Rightarrow> u32" where
  "round_up x y = ((x - 1) OR (y - 1)) + 1"

definition mtk_bmt_init_bbt ::
  "'d nand_drv \<Rightarrow> bmt_env \<Rightarrow> 'd bmt_desc \<Rightarrow> (int \<times> 'd bmt_desc) option"
where
  "mtk_bmt_init_bbt drv np s =
     (let buf_size = round_up (drop_bit 2 (ucast (total_blks s))) (blk_size s)
      in if \<not> alloc_table_ok np then Some (- ENOMEM, s\<lparr>bbt_buf := []\<rparr>)
         else let s1 = s\<lparr>bbt_buf := replicate (unat buf_size) 0xff,
                         mtd := (mtd s)\<lparr>mtd_size := mtd_size (mtd s)
                                          - ucast (4 * erasesize (mtd s))\<rparr>\<rparr>;
                  (ret, s2) = mtk_bmt_read_bbt drv s1
              in if ret \<noteq> 0 then Some (ret, s2)
                 else Some (0, s2\<lparr>bmt_pgs := buf_size div pg_size s2\<rparr>))"

text \<open>Value 0 prints the bitmap; value 100 moves the table to the last block and writes it.\<close>

definition mtk_bmt_debug_bbt ::
  "'d nand_drv \<Rightarrow> u64 \<Rightarrow> 'd bmt_desc \<Rightarrow> (int \<times> 'd bmt_desc) option"
where
  "mtk_bmt_debug_bbt drv val s =
     (if val = 100 then
        let s1 = s\<lparr>bmt_blk_idx := total_blks s - 1\<rparr>;
            (_, s2) = bbt_nand_erase drv (bmt_blk_idx s1) s1;
            (_, s3) = write_bmt drv bbt_sig (bmt_blk_idx s2) (bbt_buf s2) s2
        in Some (0, s3)
      else Some (0, s))"

definition mtk_bmt_bbt_ops :: "'d nand_drv \<Rightarrow> 'd mtk_bmt_ops" where
  "mtk_bmt_bbt_ops drv =
     \<lparr>op_sig = bbt_sig, op_init = mtk_bmt_init_bbt drv, op_remap_block = remap_block_bbt drv,
      op_unmap_block = unmap_block_bbt drv, op_get_mapping_block = get_mapping_block_index_bbt,
      op_debug = mtk_bmt_debug_bbt drv\<rparr>"

section \<open>The bitmap\<close>

lemma bbt_set_block_state_frame:
  "io_upd (s\<lparr>bbt_buf := (bbt_buf s)[unat (b div 4) :=
        (if bad then cell (bbt_buf s) (unat (b div 4)) OR bbt_mask b
         else cell (bbt_buf s) (unat (b div 4)) AND NOT (bbt_mask b))]\<rparr>)
     (bbt_set_block_state drv b bad s)"
proof -
  let ?s1 = "s\<lparr>bbt_buf := (bbt_buf s)[unat (b div 4) :=
        (if bad then cell (bbt_buf s) (unat (b div 4)) OR bbt_mask b
         else cell (bbt_buf s) (unat (b div 4)) AND NOT (bbt_mask b))]\<rparr>"
  obtain r2 s2 where s2: "bbt_nand_erase drv (bmt_blk_idx ?s1) ?s1 = (r2, s2)"
    by fastforce
  obtain r3 s3 where s3: "write_bmt drv bbt_sig (bmt_blk_idx s2) (bbt_buf s2) s2 = (r3, s3)"
    by fastforce
  have "bbt_set_block_state drv b bad s = s3"
    by (simp only: bbt_set_block_state_def Let_def s2 s3 prod.case)
  then show ?thesis
    using io_upd_trans [OF bbt_nand_erase_frame [OF s2] write_bmt_frame [OF s3]] by simp
qed

lemma bbt_mask_mask: "bbt_mask b = push_bit (unat b mod 4 * 2) (mask 2)"
  by (simp add: bbt_mask_def three_eq_mask unat_mod)

lemma bbt_mask_disjoint:
  assumes "b div 4 = c div 4" and "b \<noteq> c"
  shows "bbt_mask b AND bbt_mask c = 0"
proof -
  have "b mod 4 \<noteq> c mod 4"
    using assms by (metis word_mod_div_equality)
  then have "unat b mod 4 \<noteq> unat c mod 4"
    using unat_mod [of b 4] unat_mod [of c 4] unat_inj [of "b mod 4" "c mod 4"] by auto
  then show ?thesis
    unfolding bbt_mask_mask by (rule two_bit_disjoint)
qed

lemma bbt_mask_nonzero: "bbt_mask b \<noteq> 0"
proof -
  have "bit (bbt_mask b) (unat b mod 4 * 2)"
    by (auto simp: bbt_mask_mask bit_simps)
  then show ?thesis by auto
qed

lemma bbt_is_bad_set:
  assumes len: "unat (b div 4) < length (bbt_buf s)"
  shows "bbt_block_is_bad (bbt_set_block_state drv b bad s) c =
           (if c = b then bad else bbt_block_is_bad s c)"
proof -
  let ?t = "bbt_set_block_state drv b bad s"
  have buf: "bbt_buf ?t = (bbt_buf s)[unat (b div 4) :=
        (if bad then bbt_buf s ! unat (b div 4) OR bbt_mask b
         else bbt_buf s ! unat (b div 4) AND NOT (bbt_mask b))]"
    using io_upd_fields(3) [OF bbt_set_block_state_frame [of s b bad drv]] len by simp
  show ?thesis
  proof (cases "c div 4 = b div 4")
    case False
    then have "unat (c div 4) \<noteq> unat (b div 4)"
      by (metis unat_inj)
    with False len show ?thesis by (auto simp: bbt_block_is_bad_def buf cell_update)
  next
    case True
    have d: "c \<noteq> b \<Longrightarrow> bbt_mask b AND bbt_mask c = 0"
      using True by (intro bbt_mask_disjoint) auto
    show ?thesis
      using True len bbt_mask_nonzero [of b]
      by (cases "c = b")
        (auto simp: bbt_block_is_bad_def buf cell_update word_ao_dist d and_not_self_absorb
          and_not_other [OF d])
  qed
qed

section \<open>The mapping\<close>

abbreviation bbt_bad :: "'d bmt_desc \<Rightarrow> int \<Rightarrow> bool" where
  "bbt_bad s i \<equiv> bbt_block_is_bad s (word_of_int i)"

text \<open>The reference order of a range: its good blocks ascending, then its bad blocks ascending.\<close>

definition bbt_order :: "'d bmt_desc \<Rightarrow> int \<Rightarrow> int \<Rightarrow> int list" where
  "bbt_order s start end_blk =
     filter (\<lambda>i. \<not> bbt_bad s i) [start..end_blk - 1] @ filter (bbt_bad s) [start..end_blk - 1]"

lemma bbt_scan_found:
  "0 \<le> ofs \<Longrightarrow> nat ofs < length (filter (\<lambda>j. \<not> bbt_bad s j) [i..e - 1]) \<Longrightarrow>
   fst (bbt_scan s i e ofs bad) = filter (\<lambda>j. \<not> bbt_bad s j) [i..e - 1] ! nat ofs \<and>
   fst (bbt_scan s i e ofs bad) < e"
proof (induction s i e ofs bad rule: bbt_scan.induct)
  case (1 s i e ofs bad)
  then show ?case
    by (cases "i < e"; cases "ofs = 0")
      (auto simp: bbt_scan.simps [of s i e] upto_rec1 nth_Cons' nat_diff_distrib split: if_splits)
qed

lemma bbt_scan_overflow:
  "0 \<le> ofs \<Longrightarrow> length (filter (\<lambda>j. \<not> bbt_bad s j) [i..e - 1]) \<le> nat ofs \<Longrightarrow> i \<le> e \<Longrightarrow>
   bbt_scan s i e ofs bad =
     (e, ofs - int (length (filter (\<lambda>j. \<not> bbt_bad s j) [i..e - 1])),
      bad + int (length (filter (bbt_bad s) [i..e - 1])))"
proof (induction s i e ofs bad rule: bbt_scan.induct)
  case (1 s i e ofs bad)
  then show ?case
    by (cases "i < e"; cases "ofs = 0")
      (auto simp: bbt_scan.simps [of s i e] bbt_scan.simps [of s e e] upto_rec1 split: if_splits)
qed

lemma bbt_overflow_ref:
  assumes "cnt = int (length (filter (bbt_bad s) [start..i]))" and "0 \<le> ofs" and "ofs < cnt"
    and "nat (i + 1 - start) \<le> fuel"
  shows "bbt_overflow s fuel i cnt ofs block = Some (filter (bbt_bad s) [start..i] ! nat ofs)"
  using assms
proof (induction fuel arbitrary: i cnt)
  case 0
  then show ?case by simp
next
  case (Suc n)
  have si: "start \<le> i"
    using Suc.prems by (cases "start \<le> i") auto
  then have up: "[start..i] = [start..i - 1] @ [i]"
    by (simp add: upto_rec2)
  show ?case
  proof (cases "bbt_bad s i")
    case False
    have "bbt_overflow s n (i - 1) cnt ofs block = Some (filter (bbt_bad s) [start..i - 1] ! nat ofs)"
      using Suc.prems False si by (intro Suc.IH) (auto simp: up)
    with False Suc.prems show ?thesis
      by (auto simp add: bbt_overflow.simps [of s "Suc n"] up)
  next
    case True
    show ?thesis
    proof (cases "cnt - 1 \<le> ofs")
      case True
      with \<open>bbt_bad s i\<close> Suc.prems have "nat ofs = length (filter (bbt_bad s) [start..i - 1])"
        by (simp add: up)
      with \<open>bbt_bad s i\<close> True Suc.prems show ?thesis
        by (simp add: bbt_overflow.simps [of s "Suc n"] up nth_append)
    next
      case False
      have "bbt_overflow s n (i - 1) (cnt - 1) ofs block =
              Some (filter (bbt_bad s) [start..i - 1] ! nat ofs)"
        using Suc.prems False \<open>bbt_bad s i\<close> si by (intro Suc.IH) (auto simp: up)
      with False \<open>bbt_bad s i\<close> Suc.prems show ?thesis
        by (auto simp add: bbt_overflow.simps [of s "Suc n"] up nth_append)
    qed
  qed
qed

lemma length_bbt_order: "start \<le> e \<Longrightarrow> length (bbt_order s start e) = nat (e - start)"
  using sum_length_filter_compl [of "bbt_bad s" "[start..e - 1]"] by (simp add: bbt_order_def)

lemma set_bbt_order [simp]: "set (bbt_order s start e) = {start..<e}"
  by (auto simp: bbt_order_def)

lemma distinct_bbt_order [simp]: "distinct (bbt_order s start e)"
  by (auto simp: bbt_order_def)

lemma get_mapping_bbt_order:
  assumes "mapping_block_in_range s block = Some (lo, hi)"
    and start: "start = drop_bit (unat (blk_shift s)) lo"
    and e: "e = drop_bit (unat (blk_shift s)) hi"
    and "start \<le> block" and "block < e"
  shows "get_mapping_block_index_bbt s block = bbt_order s start e ! nat (block - start)"
proof -
  let ?g = "filter (\<lambda>j. \<not> bbt_bad s j) [start..e - 1]"
  let ?b = "filter (bbt_bad s) [start..e - 1]"
  have len: "length ?g + length ?b = nat (e - start)"
    using length_bbt_order [of start e s] assms(4,5) by (simp add: bbt_order_def)
  show ?thesis
  proof (cases "nat (block - start) < length ?g")
    case True
    then show ?thesis
      using bbt_scan_found [of "block - start" s start e 0] assms
      by (auto simp: get_mapping_block_index_bbt_def bbt_order_def nth_append Let_def
          split: prod.splits)
  next
    case False
    let ?ofs = "block - start - int (length ?g)"
    have sc: "bbt_scan s start e (block - start) 0 = (e, ?ofs, int (length ?b))"
      using False assms bbt_scan_overflow [of "block - start" s start e 0] by simp
    have "bbt_overflow s (nat (e - start)) (e - 1) (int (length ?b)) ?ofs block = Some (?b ! nat ?ofs)"
      using False assms len by (intro bbt_overflow_ref) auto
    moreover have "nat ?ofs = nat (block - start) - length ?g"
      using False by simp
    ultimately show ?thesis
      using False assms(1) sc
      by (simp add: get_mapping_block_index_bbt_def bbt_order_def nth_append Let_def
          start [symmetric] e [symmetric])
  qed
qed

section \<open>Invariant and contract\<close>

text \<open>
  The bitmap covers the chip, and the remap ranges are sound. Without ranges, the block count
  must lie below the block size, which holds for every NAND chip (a block is at least 64 KiB and
  the count is a 16-bit number).
\<close>

definition bbt_ranges :: "'d bmt_desc \<Rightarrow> (u32 \<times> u32) list" where
  "bbt_ranges s = (case remap_range s of None \<Rightarrow> [] | Some rs \<Rightarrow> rs)"

definition bbt_inv :: "'d bmt_desc \<Rightarrow> bool" where
  "bbt_inv s \<longleftrightarrow> geom_ok s \<and> unat (total_blks s) \<le> 4 * length (bbt_buf s) \<and>
     (if bbt_ranges s = [] then unat (total_blks s) < 2 ^ unat (blk_shift s)
      else ranges_ok s (bbt_ranges s))"

definition bbt_lblks :: "'d bmt_desc \<Rightarrow> nat" where
  "bbt_lblks s = unat (total_blks s)"

lemma in_range_ranges:
  "mapping_block_in_range s b =
     (if bbt_ranges s = [] then Some (0, uint (total_blks s))
      else find_range (push_bit (unat (blk_shift s)) (word_of_int b)) (bbt_ranges s))"
  by (simp add: mapping_block_in_range_def bbt_ranges_def split: option.splits)

lemma range_block:
  assumes "geom_ok s" and "ranges_ok s rs" and "(lo, hi) \<in> set rs"
    and "0 \<le> b" and "b < uint (total_blks s)"
  shows "lo \<le> push_bit (unat (blk_shift s)) (word_of_int b) \<and>
           push_bit (unat (blk_shift s)) (word_of_int b) < hi \<longleftrightarrow>
         drop_bit (unat (blk_shift s)) (sint lo) \<le> b \<and> b < drop_bit (unat (blk_shift s)) (sint hi)"
    and "drop_bit (unat (blk_shift s)) (sint hi) \<le> uint (total_blks s)"
    and "0 \<le> drop_bit (unat (blk_shift s)) (sint lo)"
proof -
  let ?n = "unat (blk_shift s)"
  have fits: "chip_fits s" using assms(1) by (simp add: geom_ok_def)
  from assms(2,3) have le: "lo \<le> hi" and hi: "unat hi \<le> unat (total_blks s) * 2 ^ ?n"
    and "2 ^ ?n dvd uint lo" and "2 ^ ?n dvd uint hi"
    by (auto simp: ranges_ok_def)
  then obtain p q where p: "uint lo = p * 2 ^ ?n" and q: "uint hi = q * 2 ^ ?n"
    by (metis dvd_def mult.commute)
  have h31: "unat hi < 2 ^ 31"
    using hi fits by (simp add: chip_fits_def)
  then have l31: "unat lo < 2 ^ 31"
    using le by (simp add: word_le_nat_alt)
  have sh: "sint hi = uint hi" and sl: "sint lo = uint lo"
    using h31 l31 by (simp_all only: sint_eq_uint)
  have ad: "uint (push_bit ?n (word_of_int b :: u32)) = b * 2 ^ ?n"
    using fits assms(4,5) by (rule blk_addr_word)
  show "lo \<le> push_bit ?n (word_of_int b) \<and> push_bit ?n (word_of_int b) < hi \<longleftrightarrow>
         drop_bit ?n (sint lo) \<le> b \<and> b < drop_bit ?n (sint hi)"
    by (simp add: word_le_def word_less_def ad p q sh sl drop_bit_eq_div)
  have "q * 2 ^ ?n \<le> uint (total_blks s) * 2 ^ ?n"
    using uint_less_int(2) [OF hi] unfolding q [symmetric] by simp
  then show "drop_bit ?n (sint hi) \<le> uint (total_blks s)"
    by (simp add: q sh drop_bit_eq_div)
  show "0 \<le> drop_bit ?n (sint lo)"
    by (simp add: sl)
qed

lemma bbt_no_range_identity:
  assumes "bbt_inv s" and "bbt_ranges s = []"
  shows "get_mapping_block_index_bbt s b = b"
proof -
  have "uint (total_blks s) < 2 ^ unat (blk_shift s)"
    using assms uint_less_int(1) [of "total_blks s" "2 ^ unat (blk_shift s)"]
    by (simp add: bbt_inv_def)
  then have e: "drop_bit (unat (blk_shift s)) (uint (total_blks s)) = 0"
    by (simp add: drop_bit_eq_div)
  show ?thesis
    by (simp add: get_mapping_block_index_bbt_def in_range_ranges assms(2) e
        bbt_scan.simps [of s 0 0] bbt_overflow.simps)
qed

lemma bbt_map_cases:
  assumes inv: "bbt_inv s" and ne: "bbt_ranges s \<noteq> []"
    and b: "0 \<le> b" "b < uint (total_blks s)"
  obtains
    (outside) "mapping_block_in_range s b = None" "get_mapping_block_index_bbt s b = b"
  | (inside) l h start e where "mapping_block_in_range s b = Some (l, h)"
      "start = drop_bit (unat (blk_shift s)) l" "e = drop_bit (unat (blk_shift s)) h"
      "0 \<le> start" "start \<le> b" "b < e" "e \<le> uint (total_blks s)"
      "get_mapping_block_index_bbt s b = bbt_order s start e ! nat (b - start)"
      "start \<le> get_mapping_block_index_bbt s b" "get_mapping_block_index_bbt s b < e"
      "mapping_block_in_range s (get_mapping_block_index_bbt s b) = Some (l, h)"
proof (cases "mapping_block_in_range s b")
  case None
  then show thesis by (intro outside) (simp_all add: get_mapping_block_index_bbt_def)
next
  case (Some lh)
  obtain l h where lh: "lh = (l, h)" by fastforce
  let ?n = "unat (blk_shift s)"
  let ?start = "drop_bit ?n l" and ?e = "drop_bit ?n h"
  have g: "geom_ok s" and rs: "ranges_ok s (bbt_ranges s)"
    using inv ne by (auto simp: bbt_inv_def)
  obtain lo hi where mem: "(lo, hi) \<in> set (bbt_ranges s)"
    and "lo \<le> push_bit ?n (word_of_int b)" "push_bit ?n (word_of_int b) < hi"
    and l: "l = sint lo" and h: "h = sint hi"
    using find_range_Some [of "push_bit ?n (word_of_int b)" "bbt_ranges s" l h] Some lh ne
    by (auto simp: in_range_ranges)
  with range_block [OF g rs mem b]
  have bnd: "?start \<le> b" "b < ?e" "?e \<le> uint (total_blks s)" "0 \<le> ?start" by auto
  let ?g = "get_mapping_block_index_bbt s b"
  have eq: "?g = bbt_order s ?start ?e ! nat (b - ?start)"
    using Some lh bnd by (intro get_mapping_bbt_order) auto
  moreover have "nat (b - ?start) < length (bbt_order s ?start ?e)"
    using bnd by (simp add: length_bbt_order)
  ultimately have "?g \<in> set (bbt_order s ?start ?e)"
    by (metis nth_mem)
  then have gb: "?start \<le> ?g" "?g < ?e" by auto
  then have "0 \<le> ?g" "?g < uint (total_blks s)" using bnd by linarith+
  with range_block(1) [OF g rs mem this] gb l h
  have "find_range (push_bit ?n (word_of_int ?g)) (bbt_ranges s) = Some (l, h)"
    using rs mem by (auto simp: ranges_ok_def intro!: find_range_unique)
  then have "mapping_block_in_range s ?g = Some (l, h)"
    using ne by (simp add: in_range_ranges)
  then show thesis
    using Some lh bnd eq gb by (intro inside [of l h ?start ?e]) auto
qed

lemma bbt_map_range:
  assumes "bbt_inv s" and "0 \<le> b" and "b < uint (total_blks s)"
  shows "0 \<le> get_mapping_block_index_bbt s b \<and> get_mapping_block_index_bbt s b < uint (total_blks s)"
proof (cases "bbt_ranges s = []")
  case True
  with assms show ?thesis by (simp add: bbt_no_range_identity)
next
  case False
  from assms(1) this assms(2,3) show ?thesis
  proof (cases rule: bbt_map_cases)
    case outside
    with assms show ?thesis by simp
  next
    case (inside l h start e)
    then show ?thesis by linarith
  qed
qed

lemma bbt_map_inj:
  assumes inv: "bbt_inv s" and b: "0 \<le> b" "b < uint (total_blks s)"
    and c: "0 \<le> c" "c < uint (total_blks s)"
    and eq: "get_mapping_block_index_bbt s b = get_mapping_block_index_bbt s c"
  shows "b = c"
proof (cases "bbt_ranges s = []")
  case True
  with inv eq show ?thesis by (simp add: bbt_no_range_identity)
next
  case ne: False
  from inv ne b show ?thesis
  proof (cases rule: bbt_map_cases)
    case ob: outside
    from inv ne c show ?thesis
      by (cases rule: bbt_map_cases) (use ob eq in auto)
  next
    case (inside l h start e)
    note ib = this
    from inv ne c show ?thesis
    proof (cases rule: bbt_map_cases)
      case outside
      with ib eq show ?thesis by simp
    next
      case (inside l' h' start' e')
      with ib eq have "start' = start" "e' = e" by auto
      with ib inside eq have "bbt_order s start e ! nat (b - start) = bbt_order s start e ! nat (c - start)"
        by simp
      then have "nat (b - start) = nat (c - start)"
        using ib inside \<open>start' = start\<close> \<open>e' = e\<close>
        by (subst (asm) nth_eq_iff_index_eq) (auto simp: length_bbt_order)
      with ib inside \<open>start' = start\<close> show ?thesis by linarith
    qed
  qed
qed

lemma bbt_inv_cong:
  assumes "same_geom s t" and "length (bbt_buf t) = length (bbt_buf s)"
  shows "bbt_inv t = bbt_inv s"
proof -
  have "bbt_ranges t = bbt_ranges s" "geom_ok t = geom_ok s" "ranges_ok t rs = ranges_ok s rs" for rs
    using assms(1)
    by (simp_all add: same_geom_def bbt_ranges_def geom_ok_def chip_fits_def ranges_ok_def)
  with assms show ?thesis
    by (simp add: bbt_inv_def same_geom_def)
qed

lemma bbt_inv_io: "io_upd s t \<Longrightarrow> bbt_inv s \<Longrightarrow> bbt_inv t"
  using bbt_inv_cong [OF io_upd_same_geom, of s t] by (simp add: io_upd_fields)

lemma bbt_inv_buf:
  "bbt_inv s \<Longrightarrow> length buf = length (bbt_buf s) \<Longrightarrow> bbt_inv (s\<lparr>bbt_buf := buf\<rparr>)"
  by (subst bbt_inv_cong [of s]) (auto simp: same_geom_def)

lemma bbt_block_is_bad_nand [simp]:
  "bbt_block_is_bad (s\<lparr>nand := d\<rparr>) b = bbt_block_is_bad s b"
  by (simp add: bbt_block_is_bad_def)

lemma bbt_scan_nand: "bbt_scan (s\<lparr>nand := d\<rparr>) i e ofs bad = bbt_scan s i e ofs bad"
proof (induction s i e ofs bad rule: bbt_scan.induct)
  case (1 s i e ofs bad)
  then show ?case
    by (simp add: bbt_scan.simps [of _ i])
qed

lemma bbt_overflow_nand: "bbt_overflow (s\<lparr>nand := d\<rparr>) n i bad ofs b = bbt_overflow s n i bad ofs b"
  by (induction n arbitrary: i bad) (simp_all add: bbt_overflow.simps [of _ "Suc _"] bbt_overflow.simps [of _ 0])

lemma get_mapping_bbt_nand [simp]:
  "get_mapping_block_index_bbt (s\<lparr>nand := d\<rparr>) b = get_mapping_block_index_bbt s b"
  by (simp add: get_mapping_block_index_bbt_def bbt_scan_nand bbt_overflow_nand Let_def
      io_upd_mapping_block_in_range [of s "s\<lparr>nand := d\<rparr>"] split: option.split prod.split)

lemma bbt_set_block_state_inv:
  assumes "bbt_inv s"
  shows "bbt_inv (bbt_set_block_state drv b bad s)" "same_geom s (bbt_set_block_state drv b bad s)"
    "bbt_lblks (bbt_set_block_state drv b bad s) = bbt_lblks s"
proof -
  let ?t = "bbt_set_block_state drv b bad s"
  note fr = bbt_set_block_state_frame [of s b bad drv]
  show "bbt_inv ?t"
    by (rule bbt_inv_io [OF fr], rule bbt_inv_buf [OF assms]) simp
  show "same_geom s ?t" using io_upd_same_geom [OF fr] by (simp add: same_geom_def)
  show "bbt_lblks ?t = bbt_lblks s" using fr by (auto simp: bbt_lblks_def elim!: io_updE)
qed

lemma remap_block_bbt_keeps:
  assumes "bbt_inv s"
  shows "\<exists>ok t. remap_block_bbt drv b m n s = Some (ok, t) \<and> keeps bbt_inv bbt_lblks s t"
proof (cases "mapping_block_in_range s (uint b)")
  case None
  with assms have "remap_block_bbt drv b m n s = Some (False, s) \<and> keeps bbt_inv bbt_lblks s s"
    by (simp add: remap_block_bbt_def keeps_def)
  then show ?thesis by blast
next
  case (Some r)
  let ?s1 = "bbt_set_block_state drv m True s"
  let ?nb = "word_of_int (get_mapping_block_index_bbt ?s1 (uint b)) :: u16"
  obtain r2 s2 where s2: "bbt_nand_erase drv ?nb ?s1 = (r2, s2)" by fastforce
  obtain r3 s3 where s3: "(if n > 0 then bbt_nand_copy drv ?nb m n s2 else (0, s2)) = (r3, s3)"
    by fastforce
  have "io_upd s2 s3"
    using s3 by (auto split: if_splits dest: bbt_nand_copy_frame)
  with bbt_nand_erase_frame [OF s2] have io: "io_upd ?s1 s3" by (rule io_upd_trans)
  then have "keeps bbt_inv bbt_lblks s s3"
    using bbt_set_block_state_inv [OF assms, of drv m True] bbt_inv_io [OF io]
      same_geom_trans [OF _ io_upd_same_geom [OF io]]
    by (auto simp: keeps_def bbt_lblks_def io_upd_fields)
  moreover have "remap_block_bbt drv b m n s = Some (True, s3)"
    by (simp add: remap_block_bbt_def Some Let_def s2 s3)
  ultimately show ?thesis by blast
qed

interpretation bbt: bmt_remapping "mtk_bmt_bbt_ops drv" bbt_inv bbt_lblks
proof unfold_locales
  show "bbt_inv s \<Longrightarrow> geom_ok s" for s
    by (simp add: bbt_inv_def)
  show "0 \<le> op_get_mapping_block (mtk_bmt_bbt_ops drv) s (int b) \<and>
      op_get_mapping_block (mtk_bmt_bbt_ops drv) s (int b) < uint (total_blks s)"
    if "bbt_inv s" and "b < bbt_lblks s" for s b
    using bbt_map_range [OF that(1), of "int b"] that(2)
    by (simp add: mtk_bmt_bbt_ops_def bbt_lblks_def uint_nat del: of_nat_unat)
  show "\<exists>ok t. op_remap_block (mtk_bmt_bbt_ops drv) b m n s = Some (ok, t) \<and> bbt_inv t \<and>
      same_geom s t \<and> bbt_lblks t = bbt_lblks s" if "bbt_inv s" for s b m n
    using remap_block_bbt_keeps [OF that] by (auto simp: mtk_bmt_bbt_ops_def keeps_def)
qed (auto simp: bbt_lblks_def mtk_bmt_bbt_ops_def intro: bbt_inv_io [OF io_upd_nand])

interpretation bbt: bmt_isolating "mtk_bmt_bbt_ops drv" bbt_inv bbt_lblks
proof unfold_locales
  show "b = c" if "bbt_inv s" and "b < bbt_lblks s" and "c < bbt_lblks s"
    and "op_get_mapping_block (mtk_bmt_bbt_ops drv) s (int b) =
         op_get_mapping_block (mtk_bmt_bbt_ops drv) s (int c)" for s b c
    using bbt_map_inj [OF that(1), of "int b" "int c"] that(2-4)
    by (simp add: mtk_bmt_bbt_ops_def bbt_lblks_def uint_nat del: of_nat_unat)
qed

section \<open>Properties\<close>

text \<open>The example chip with block 1 marked bad.\<close>

definition ex_bbt :: "(nat \<Rightarrow> byte) bmt_desc" where
  "ex_bbt = ex_desc\<lparr>bbt_buf := [0x0c, 0, 0, 0]\<rparr>"

lemma ex_bbt_inv: "bbt_inv ex_bbt" "bbt_ranges ex_bbt = [(0, 24)]" "bbt_lblks ex_bbt = 8"
  "blk_shift ex_bbt = 2" "total_blks ex_bbt = 8" "nand ex_bbt = (\<lambda>x. 0xff)"
  by (simp_all add: ex_bbt_def ex_desc_def ex_mtd_def bbt_inv_def bbt_ranges_def bbt_lblks_def geom_ok_def
      chip_fits_def ranges_ok_def)

text \<open>C29: inside a remap range the two loops of \<open>get_mapping_block_index_bbt\<close> compute the reference
  order: the n-th logical block of the range is the n-th entry of the list of the range's good
  blocks followed by its bad blocks.\<close>

theorem bbt_mapping_reference:
  assumes "mapping_block_in_range s b = Some (lo, hi)"
    and "drop_bit (unat (blk_shift s)) lo \<le> b" and "b < drop_bit (unat (blk_shift s)) hi"
  shows "get_mapping_block_index_bbt s b =
     bbt_order s (drop_bit (unat (blk_shift s)) lo) (drop_bit (unat (blk_shift s)) hi)
       ! nat (b - drop_bit (unat (blk_shift s)) lo)"
  using get_mapping_bbt_order [OF assms(1) refl refl assms(2,3)] .

theorem bbt_mapping_reference_witness:
  "mapping_block_in_range ex_bbt 1 = Some (0, 24) \<and> get_mapping_block_index_bbt ex_bbt 1 = 2"
proof -
  have h: "mapping_block_in_range ex_bbt 1 = Some (0, 24)" by code_simp
  have "get_mapping_block_index_bbt ex_bbt 1 = bbt_order ex_bbt 0 6 ! 1"
    using bbt_mapping_reference [OF h] by (simp add: ex_bbt_inv)
  moreover have "bbt_order ex_bbt 0 6 = [0, 2, 3, 4, 5, 1]" by code_simp
  ultimately show ?thesis using h by simp
qed

text \<open>C5: the bad-block-table mapping is a permutation of the blocks of the chip: every block is
  sent to a block of the chip and no two blocks are sent to the same one.\<close>

theorem bbt_mapping_permutation:
  assumes "bbt_inv s"
  shows "bij_betw (get_mapping_block_index_bbt s) {0..<uint (total_blks s)} {0..<uint (total_blks s)}"
proof -
  let ?A = "{0..<uint (total_blks s)}"
  have inj: "inj_on (get_mapping_block_index_bbt s) ?A"
    using bbt_map_inj [OF assms] by (auto intro!: inj_onI)
  moreover have "get_mapping_block_index_bbt s ` ?A \<subseteq> ?A"
    using bbt_map_range [OF assms] by auto
  ultimately show ?thesis
    by (simp add: bij_betw_def endo_inj_surj)
qed

theorem bbt_mapping_permutation_witness:
  "bbt_inv ex_bbt \<and> bij_betw (get_mapping_block_index_bbt ex_bbt) {0..<8} {0..<8}"
  using bbt_mapping_permutation [of ex_bbt] by (simp add: ex_bbt_inv)

text \<open>C30: a read through the stack with the bad-block-table backend delivers, in order, the bytes of
  the translated addresses, whatever block boundaries it crosses, returns 0 and changes nothing,
  when the driver reads without error.\<close>

theorem bbt_read_translates:
  assumes "bbt_inv s" and "clean_reads drv chip (nand s)"
    and "from + len \<le> bbt_lblks s * 2 ^ unat (blk_shift s)"
  shows "mtk_bmt_read (mtk_bmt_bbt_ops drv) drv from len 0 0 s =
     Some (0, map (\<lambda>a. chip (xlate (mtk_bmt_bbt_ops drv) s a)) [from..<from + len], [], s)"
  using bbt.read_loop_clean [OF assms, where dat = "[]" and retry = 0] by (simp add: mtk_bmt_read_def)

theorem bbt_read_translates_witness:
  "mtk_bmt_read (mtk_bmt_bbt_ops (ram_drv 4 [])) (ram_drv 4 []) 2 4 0 0 (ex_bbt\<lparr>nand := of_nat\<rparr>) =
     Some (0, [2, 3, 8, 9], [], ex_bbt\<lparr>nand := of_nat\<rparr>)"
proof -
  let ?s = "ex_bbt\<lparr>nand := of_nat\<rparr>" and ?d = "ram_drv 4 []"
  have "bbt_inv ?s" using bbt_inv_io [OF io_upd_nand ex_bbt_inv(1)] .
  then have "mtk_bmt_read (mtk_bmt_bbt_ops ?d) ?d 2 4 0 0 ?s =
     Some (0, map (\<lambda>a. of_nat (xlate (mtk_bmt_bbt_ops ?d) ?s a)) [2..<2 + 4], [], ?s)"
    by (rule bbt_read_translates) (use ram_clean_reads in \<open>simp_all add: ex_bbt_inv bbt_lblks_def\<close>)
  moreover have "map (xlate (mtk_bmt_bbt_ops ?d) ex_bbt) [2..<6] = [2, 3, 8, 9]"
    unfolding mtk_bmt_bbt_ops_def xlate_def by code_simp
  ultimately show ?thesis by (simp add: upt_rec)
qed

lemma same_geom_in_range:
  "same_geom s t \<Longrightarrow> mapping_block_in_range t b = mapping_block_in_range s b"
  by (simp add: same_geom_def mapping_block_in_range_def split: option.split)

lemma filter_remove_nth:
  "distinct xs \<Longrightarrow> i + 1 < length xs \<Longrightarrow> filter (\<lambda>x. x \<noteq> xs ! i) xs ! i = xs ! (i + 1)"
proof (induction xs arbitrary: i)
  case (Cons x xs)
  show ?case
  proof (cases i)
    case 0
    with Cons.prems have "filter (\<lambda>y. y \<noteq> x) xs = xs" by (auto intro: filter_True)
    with 0 Cons.prems show ?thesis by simp
  next
    case (Suc j)
    with Cons show ?thesis by (auto simp: nth_mem)
  qed
qed simp

lemma bbt_remap_order:
  assumes g: "filter (\<lambda>j. \<not> bbt_bad s j) [start..e - 1] = gs" and i: "i + 1 < length gs"
    and bad: "\<And>j. j \<in> {start..<e} \<Longrightarrow> bbt_bad t j = (j = gs ! i \<or> bbt_bad s j)"
  shows "bbt_order t start e ! i = bbt_order s start e ! (i + 1)"
proof -
  have "filter (\<lambda>j. \<not> bbt_bad t j) [start..e - 1] = filter (\<lambda>j. j \<noteq> gs ! i) gs"
    unfolding g [symmetric] filter_filter by (rule filter_cong) (auto simp: bad g)
  moreover have "distinct gs" unfolding g [symmetric] by simp
  moreover from this have "filter (\<lambda>j. j \<noteq> gs ! i) gs ! i = gs ! (i + 1)"
    using i by (rule filter_remove_nth)
  moreover have "length (filter (\<lambda>j. j \<noteq> gs ! i) gs) > i"
  proof -
    have "length (filter (\<lambda>j. j = gs ! i) gs) = 1"
      using \<open>distinct gs\<close> i by (simp add: distinct_length_filter Collect_conv_if conj_commute)
    then show ?thesis
      using sum_length_filter_compl [of "\<lambda>j. j = gs ! i" gs] i by simp
  qed
  ultimately show ?thesis
    using i by (simp add: bbt_order_def nth_append g)
qed

text \<open>A remap marks the block it is given as bad; the rest of it is chip operations.\<close>

lemma remap_bbt_marks:
  assumes "mapping_block_in_range s (uint b) = Some (lo, hi)" and "remap_block_bbt drv b m n s = Some (ok, t)"
  shows "ok" "io_upd (bbt_set_block_state drv m True s) t"
proof -
  let ?s1 = "bbt_set_block_state drv m True s"
  obtain r2 s2 where s2: "bbt_nand_erase drv (word_of_int (get_mapping_block_index_bbt ?s1 (uint b))) ?s1 = (r2, s2)"
    by fastforce
  obtain r3 s3 where s3: "(if n > 0 then bbt_nand_copy drv (word_of_int (get_mapping_block_index_bbt ?s1 (uint b))) m n s2
       else (0, s2)) = (r3, s3)"
    by fastforce
  have t: "ok" "t = s3" using assms(2) by (auto simp: remap_block_bbt_def assms(1) Let_def s2 s3)
  show "ok" by (fact t(1))
  show "io_upd ?s1 t"
    using bbt_nand_erase_frame [OF s2] s3 unfolding t(2)
    by (auto split: if_splits dest: bbt_nand_copy_frame intro: io_upd_trans)
qed



text \<open>The example chip with three blocks and no remap range; every byte holds 0x5a.\<close>

definition ex_norange :: "(nat \<Rightarrow> byte) bmt_desc" where
  "ex_norange = ex_desc\<lparr>nand := (\<lambda>x. 0x5a), total_blks := 3, remap_range := None\<rparr>"

text \<open>a remap without a range destroys the block it is meant to rescue: it marks the
  block bad, erases the same block and copies the erased block onto itself.\<close>

theorem bbt_no_range_remap_erases:
  "\<exists>t. remap_block_bbt (ram_drv 4 []) 1 1 4 ex_norange = Some (True, t) \<and>
       get_mapping_block_index_bbt t 1 = 1 \<and>
       map (nand ex_norange) [4..<8] = [0x5a, 0x5a, 0x5a, 0x5a] \<and>
       map (nand t) [4..<8] = [0xff, 0xff, 0xff, 0xff]"
proof -
  have "case remap_block_bbt (ram_drv 4 []) 1 1 4 ex_norange of None \<Rightarrow> False
     | Some (ok, t) \<Rightarrow> ok \<and> get_mapping_block_index_bbt t 1 = 1 \<and>
         map (nand ex_norange) [4..<8] = [0x5a, 0x5a, 0x5a, 0x5a] \<and>
         map (nand t) [4..<8] = [0xff, 0xff, 0xff, 0xff]"
    by code_simp
  then show ?thesis by (auto split: option.splits prod.splits)
qed

end
