(* ===== verification/Bmt_V2.thy ===== *)
theory Bmt_V2
  imports Bmt_Bbt
begin

text \<open>
  The \<open>mediatek,bmt-v2\<close> backend (\<open>mtk_bmt_v2.c\<close>): a table \<open>bb_tbl\<close> that gives the physical block
  of every logical block, and a pool \<open>bmt_tbl\<close> of spare blocks behind it, one of which stores the
  tables themselves. The tables live in one buffer; the model keeps them as the structure
  \<open>bbbt\<close> and converts at the chip boundary (\<open>bbbt_bytes\<close>, \<open>bbbt_of\<close>).
\<close>

section \<open>The table and its bytes\<close>

abbreviation (input) NO_MAPPED :: u16 where "NO_MAPPED \<equiv> 0"
abbreviation (input) NORMAL_MAPPED :: u16 where "NORMAL_MAPPED \<equiv> 1"
abbreviation (input) BMT_MAPPED :: u16 where "BMT_MAPPED \<equiv> 2"
abbreviation (input) BBMT_VERSION :: u8 where "BBMT_VERSION \<equiv> 2"

definition main_sig_v2 :: "byte list" where
  "main_sig_v2 = [0x42, 0x4d, 0x54]" \<comment> \<open>"BMT"\<close>

definition oob_sig_v2 :: "byte list" where
  "oob_sig_v2 = [0x62, 0x6d, 0x74]" \<comment> \<open>"bmt"\<close>

definition bbmt_bytes :: "bbmt \<Rightarrow> byte list" where
  "bbmt_bytes e = le16_bytes (bb_block e) @ le16_bytes (bb_mapped e)"

definition bbbt_bytes :: "bbbt \<Rightarrow> byte list" where
  "bbbt_bytes b = bb_signature b @ [bb_version b] @ concat (map le16_bytes (bb_tbl b)) @
     concat (map bbmt_bytes (bmt_tbl b))"

fun u16s_of :: "nat \<Rightarrow> byte list \<Rightarrow> u16 list" where
  "u16s_of 0 bs = []"
| "u16s_of (Suc n) bs = le16_of bs # u16s_of n (drop 2 bs)"

fun bbmts_of :: "nat \<Rightarrow> byte list \<Rightarrow> bbmt list" where
  "bbmts_of 0 bs = []"
| "bbmts_of (Suc n) bs = \<lparr>bb_block = le16_of bs, bb_mapped = le16_of (drop 2 bs)\<rparr> # bbmts_of n (drop 4 bs)"

text \<open>The cast \<open>(struct bbbt * )buf\<close>. \<open>bmt_tbl\<close> has as many entries as fit behind \<open>bb_tbl\<close> in the
  buffer; entries beyond it are foreign memory in C and are not part of the model.\<close>

definition bbbt_of :: "nat \<Rightarrow> byte list \<Rightarrow> bbbt" where
  "bbbt_of n buf =
     \<lparr>bb_signature = take 3 buf, bb_version = cell buf 3, bb_tbl = u16s_of n (drop 4 buf),
      bmt_tbl = bbmts_of ((length buf - 4 - 2 * n) div 4) (drop (4 + 2 * n) buf)\<rparr>"

definition bmt_at :: "bbmt list \<Rightarrow> nat \<Rightarrow> bbmt" where
  "bmt_at es i = (if i < length es then es ! i else \<lparr>bb_block = 0, bb_mapped = 0\<rparr>)"

section \<open>Scanning\<close>

text \<open>\<open>find_valid_block\<close> yields 0 for failure. \<open>k\<close> is \<open>bmtd.bb_max - loop\<close> and \<open>fdm\<close> the
  out-of-band buffer, taken to start as zeros.\<close>

fun find_valid_block_loop ::
  "'d nand_drv \<Rightarrow> nat \<Rightarrow> byte list \<Rightarrow> u16 \<Rightarrow> 'd bmt_desc \<Rightarrow> u16 \<times> 'd bmt_desc"
where
  "find_valid_block_loop drv k fdm block s =
     (if block \<ge> total_blks s then (0, s)
      else let (ret, dat, ob, s1) = bbt_nand_read drv (blk_pg s block) (unat (pg_size s)) 4 s;
               s2 = s1\<lparr>data_buf := memcpy_at (data_buf s1) 0 dat\<rparr>;
               fdm1 = memcpy_at fdm 0 ob
           in if ret \<noteq> 0 \<or> cell fdm1 0 \<noteq> 0xff
              then (case k of
                      0 \<Rightarrow> (0, s2)
                    | Suc k' \<Rightarrow> find_valid_block_loop drv k' fdm1 (block + 1) s2)
              else (block, s2))"

declare find_valid_block_loop.simps [simp del]

definition find_valid_block :: "'d nand_drv \<Rightarrow> u16 \<Rightarrow> 'd bmt_desc \<Rightarrow> u16 \<times> 'd bmt_desc" where
  "find_valid_block drv block s =
     find_valid_block_loop drv (unat (bb_max s)) (replicate 4 0) block s"

lemma find_valid_block_loop_frame:
  "find_valid_block_loop drv k fdm b s = (r, t) \<Longrightarrow> io_upd s t"
proof (induction k arbitrary: fdm b s)
  case (0 fdm b s)
  then show ?case
    by (subst (asm) find_valid_block_loop.simps)
      (auto simp: Let_def split: if_splits prod.splits dest!: bbt_nand_read_frame elim!: io_updE)
next
  case (Suc k fdm b s)
  obtain ret dat ob s1 where rd: "bbt_nand_read drv (blk_pg s b) (unat (pg_size s)) 4 s = (ret, dat, ob, s1)"
    by (metis prod_cases4)
  let ?s2 = "s1\<lparr>data_buf := memcpy_at (data_buf s1) 0 dat\<rparr>"
  have s2: "io_upd s ?s2"
    using bbt_nand_read_frame [OF rd] by (auto elim!: io_updE)
  from Suc.prems show ?case
    by (subst (asm) find_valid_block_loop.simps)
      (auto simp: Let_def rd s2 split: if_splits dest!: Suc.IH intro: io_upd_trans [OF s2])
qed

lemma find_valid_block_loop_bounds:
  "find_valid_block_loop drv k fdm b s = (r, t) \<Longrightarrow> r \<noteq> 0 \<Longrightarrow> b \<le> r \<and> r < total_blks s"
proof (induction k arbitrary: fdm b s)
  case (0 fdm b s)
  then show ?case
    by (subst (asm) find_valid_block_loop.simps)
      (auto simp: Let_def not_le split: if_splits prod.splits)
next
  case (Suc k fdm b s)
  obtain ret dat ob s1 where rd: "bbt_nand_read drv (blk_pg s b) (unat (pg_size s)) 4 s = (ret, dat, ob, s1)"
    by (metis prod_cases4)
  let ?s2 = "s1\<lparr>data_buf := memcpy_at (data_buf s1) 0 dat\<rparr>"
  have tb: "total_blks ?s2 = total_blks s"
    using bbt_nand_read_frame [OF rd] by (auto elim!: io_updE)
  show ?case
  proof (cases "b < total_blks s")
    case True
    then have "b \<le> b + 1" by unat_arith
    with True Suc.prems(2) Suc.IH [of _ "b + 1" ?s2] tb show ?thesis
      using Suc.prems(1) [unfolded find_valid_block_loop.simps [of drv "Suc k"]]
      by (auto simp: Let_def rd not_le split: if_splits dest: order_trans)
  next
    case False
    with Suc.prems show ?thesis
      by (subst (asm) find_valid_block_loop.simps) (auto simp: not_less)
  qed
qed

lemma find_valid_block_frame: "find_valid_block drv b s = (r, t) \<Longrightarrow> io_upd s t"
  unfolding find_valid_block_def by (rule find_valid_block_loop_frame)

lemma find_valid_block_bounds:
  "find_valid_block drv b s = (r, t) \<Longrightarrow> r \<noteq> 0 \<Longrightarrow> b \<le> r \<and> r < total_blks s"
  unfolding find_valid_block_def by (rule find_valid_block_loop_bounds)

text \<open>The first loop of \<open>scan_bad_blocks\<close>: \<open>k\<close> rounds from index \<open>i\<close>. The flag is false when
  no valid block was left.\<close>

fun scan_bb_tbl_loop ::
  "'d nand_drv \<Rightarrow> nat \<Rightarrow> nat \<Rightarrow> u16 list \<Rightarrow> 'd bmt_desc \<Rightarrow> bool \<times> u16 list \<times> 'd bmt_desc"
where
  "scan_bb_tbl_loop drv 0 i tbl s = (True, tbl, s)"
| "scan_bb_tbl_loop drv (Suc k) i tbl s =
     (let (b, s1) = find_valid_block drv (cell tbl (i - 1) + 1) s;
          tbl1 = tbl[i := b]
      in if b = 0 then (False, tbl1, s1) else scan_bb_tbl_loop drv k (i + 1) tbl1 s1)"

text \<open>The loop that fills the pool.\<close>

function (sequential) scan_pool_loop ::
  "'d nand_drv \<Rightarrow> nat \<Rightarrow> u16 \<Rightarrow> bbmt list \<Rightarrow> 'd bmt_desc \<Rightarrow> nat \<times> bbmt list \<times> 'd bmt_desc"
where
  "scan_pool_loop drv i block es s =
     (case find_valid_block drv block s of
        (b, s1) \<Rightarrow>
          if b = 0 then (i, es, s1)
          else scan_pool_loop drv (i + 1) (b + 1) (es[i := \<lparr>bb_block = b, bb_mapped = NO_MAPPED\<rparr>]) s1)"
  by pat_completeness auto
termination
proof (relation "measure (\<lambda>(drv, i, block, es, s). 65536 - unat block)", simp, goal_cases)
  case (1 drv i block es s b s1)
  then have "block \<le> b" and "b < total_blks s"
    using find_valid_block_bounds [of drv block s b s1] by auto
  then have "unat block < unat (b + 1)" "unat (b + 1) < 65536"
    using unat_Suc_less [of b "total_blks s"] unat_bound [of "b + 1"] by (auto simp: word_le_nat_alt)
  then show ?case
    by simp
qed

declare scan_pool_loop.simps [simp del]

text \<open>\<open>scan_bad_blocks\<close> works on \<open>bmtd.bbt\<close>; an index past the end of a table is not written.
  The index \<open>(u16)(i - 1)\<close> is used before \<open>i < 1\<close> is tested, as in the source.\<close>

definition scan_bad_blocks :: "'d nand_drv \<Rightarrow> bbbt \<Rightarrow> 'd bmt_desc \<Rightarrow> int \<times> bbbt \<times> 'd bmt_desc" where
  "scan_bad_blocks drv b s =
     (let (ok, tbl, s1) =
        scan_bb_tbl_loop drv (unat (pool_lba s) - 1) 1 ((bb_tbl b)[0 := 0]) s;
        b1 = b\<lparr>bb_tbl := tbl\<rparr>
      in if \<not> ok then (-1, b1, s1)
         else let s2 = s1\<lparr>pool_pba := cell tbl (max 1 (unat (pool_lba s1)) - 1) + 1\<rparr>
         in if uint (pool_pba s2) \<ge> uint (total_blks s2) - 2 then (-1, b1, s2)
            else let (i, es, s3) = scan_pool_loop drv 0 (pool_pba s2) (bmt_tbl b1) s2;
                     s4 = s3\<lparr>bmt_blk_idx := of_nat i - 1\<rparr>;
                     idx = unat (bmt_blk_idx s4);
                     b2 = b1\<lparr>bmt_tbl := es[idx := (bmt_at es idx)\<lparr>bb_mapped := BMT_MAPPED\<rparr>]\<rparr>
                 in if i < 1 then (-1, b2, s4) else (0, b2, s4))"

section \<open>Finding, storing and using the table\<close>

definition is_valid_bmt :: "nat \<Rightarrow> byte list \<Rightarrow> byte list \<Rightarrow> bool" where
  "is_valid_bmt n buf fdm \<longleftrightarrow>
     memcmp_eq (bb_signature (bbbt_of n buf)) main_sig_v2 3 \<and>
     memcmp_eq (drop OOB_SIGNATURE_OFFSET fdm) oob_sig_v2 3 \<and>
     bb_version (bbbt_of n buf) = BBMT_VERSION"

fun get_bmt_index_loop :: "nat \<Rightarrow> bbmt list \<Rightarrow> nat" where
  "get_bmt_index_loop i [] = 0"
| "get_bmt_index_loop i (e # es) =
     (if bb_block e = 0 then 0
      else if bb_mapped e = BMT_MAPPED then i
      else get_bmt_index_loop (i + 1) es)"

definition get_bmt_index :: "bbmt list \<Rightarrow> u16" where
  "get_bmt_index es = of_nat (get_bmt_index_loop 0 es)"

text \<open>\<open>upload_bmt(bbt, n)\<close> with the argument \<open>n + 1\<close>, so that 0 stands for a negative \<open>n\<close>.\<close>

fun upload_bmt_loop :: "'d nand_drv \<Rightarrow> nat \<Rightarrow> bbbt \<Rightarrow> 'd bmt_desc \<Rightarrow> u16 \<times> bbbt \<times> 'd bmt_desc" where
  "upload_bmt_loop drv 0 b s = (- 1, b, s)"
| "upload_bmt_loop drv (Suc n) b s =
     (if bb_mapped (bmt_at (bmt_tbl b) n) = NORMAL_MAPPED then (- 1, b, s)
      else let block = bb_block (bmt_at (bmt_tbl b) n);
               drop_n = (\<lambda>b. b\<lparr>bmt_tbl := (bmt_tbl b)[n := (bmt_at (bmt_tbl b) n)\<lparr>bb_block := 0\<rparr>]\<rparr>);
               (ret, s1) = bbt_nand_erase drv block s
           in if ret \<noteq> 0 then upload_bmt_loop drv n (drop_n b) s1
              else let b1 = b\<lparr>bb_signature := main_sig_v2, bb_version := BBMT_VERSION\<rparr>;
                       (wret, s2) = write_bmt drv oob_sig_v2 block (bbbt_bytes b1) s1
                   in if wret \<noteq> 0 then upload_bmt_loop drv n (drop_n b1) s2
                      else (of_nat n, b1, s2))"

definition upload_bmt :: "'d nand_drv \<Rightarrow> bbbt \<Rightarrow> int \<Rightarrow> 'd bmt_desc \<Rightarrow> u16 \<times> bbbt \<times> 'd bmt_desc" where
  "upload_bmt drv b n s = upload_bmt_loop drv (nat (n + 1)) b s"

text \<open>\<open>bmtd.bmt_blk_idx = upload_bmt(bmtd.bbt, bmtd.bmt_blk_idx)\<close>\<close>

definition upload_cur :: "'d nand_drv \<Rightarrow> bbbt \<Rightarrow> 'd bmt_desc \<Rightarrow> 'd bmt_desc" where
  "upload_cur drv b s =
     (let (n, b1, s1) = upload_bmt drv b (uint (bmt_blk_idx s)) s
      in s1\<lparr>bbt := Some b1, bmt_blk_idx := n\<rparr>)"

text \<open>The loop over the pool: the block found and the updated pool.\<close>

fun pool_take :: "nat \<Rightarrow> bbmt list \<Rightarrow> u16 \<times> bbmt list" where
  "pool_take 0 es = (0, es)"
| "pool_take (Suc k) [] = (0, [])"
| "pool_take (Suc k) (e # es) =
     (if bb_block e \<noteq> 0 \<and> bb_mapped e = NO_MAPPED
      then (bb_block e, e\<lparr>bb_mapped := NORMAL_MAPPED\<rparr> # es)
      else let (b, es') = pool_take k es in (b, e # es'))"

definition find_valid_block_in_pool :: "bbbt \<Rightarrow> 'd bmt_desc \<Rightarrow> u16 \<times> bbbt" where
  "find_valid_block_in_pool b s =
     (if bmt_blk_idx s = 0 then (0, b)
      else let (blk, es) = pool_take (unat (bmt_blk_idx s)) (bmt_tbl b)
           in (blk, b\<lparr>bmt_tbl := es\<rparr>))"

text \<open>The table pointer \<open>bmtd.bbt\<close>. A null pointer is not dereferenced by an attached backend
  (\<open>mtk_bmt_init_v2\<close> sets it); the model then uses an empty table.\<close>

definition cur_bbt :: "'d bmt_desc \<Rightarrow> bbbt" where
  "cur_bbt s = (case bbt s of Some b \<Rightarrow> b
                | None \<Rightarrow> \<lparr>bb_signature = [], bb_version = 0, bb_tbl = [], bmt_tbl = []\<rparr>)"

definition remap_block_v2 ::
  "'d nand_drv \<Rightarrow> u16 \<Rightarrow> u16 \<Rightarrow> int \<Rightarrow> 'd bmt_desc \<Rightarrow> (bool \<times> 'd bmt_desc) option"
where
  "remap_block_v2 drv block mapped_block copy_len s =
     (let (new_block, b) = find_valid_block_in_pool (cur_bbt s) s
      in if new_block = 0 then Some (False, s\<lparr>bbt := Some b\<rparr>)
         else let b1 = b\<lparr>bb_tbl := (bb_tbl b)[unat block := new_block]\<rparr>;
                  (_, s1) = bbt_nand_erase drv new_block (s\<lparr>bbt := Some b1\<rparr>);
                  (_, s2) = (if copy_len > 0 then bbt_nand_copy drv new_block mapped_block copy_len s1
                             else (0, s1))
              in Some (True, upload_cur drv b1 s2))"

definition get_mapping_block_index_v2 :: "'d bmt_desc \<Rightarrow> int \<Rightarrow> int" where
  "get_mapping_block_index_v2 s block =
     (if block \<ge> uint (pool_lba s) then block
      else case mapping_block_in_range s block of
             None \<Rightarrow> block
           | Some _ \<Rightarrow> uint (cell (bb_tbl (cur_bbt s)) (nat block)))"

definition unmap_block_v2 :: "'d nand_drv \<Rightarrow> u16 \<Rightarrow> 'd bmt_desc \<Rightarrow> 'd bmt_desc option" where
  "unmap_block_v2 drv block s =
     (let b = cur_bbt s;
          b1 = b\<lparr>bb_tbl := (bb_tbl b)[unat block := block]\<rparr>
      in Some (upload_cur drv b1 (s\<lparr>bbt := Some b1\<rparr>)))"

section \<open>Debug\<close>

text \<open>The first pool index below \<open>bmt_blk_idx\<close> that holds the block.\<close>

fun pool_index :: "nat \<Rightarrow> u16 \<Rightarrow> bbmt list \<Rightarrow> nat \<Rightarrow> nat option" where
  "pool_index i v es 0 = None"
| "pool_index i v es (Suc n) =
     (if bb_block (bmt_at es i) = v then Some i else pool_index (i + 1) v es n)"

definition main_blocks :: "'d bmt_desc \<Rightarrow> nat" where
  "main_blocks s = nat (sint (ucast (drop_bit (unat (blk_shift s)) (mtd_size (mtd s))) :: u32))"

text \<open>The bit set \<open>used\<close>; \<open>None\<close> is the failed allocation (\<open>mem\<close> false).\<close>

definition mtk_bmt_get_mapping_mask :: "bool \<Rightarrow> 'd bmt_desc \<Rightarrow> bool list option" where
  "mtk_bmt_get_mapping_mask mem s =
     (if \<not> mem then None
      else let b = cur_bbt s; idx = unat (bmt_blk_idx s)
           in Some (fold (\<lambda>i used.
                  if cell (bb_tbl b) i = of_nat i then used
                  else case pool_index 0 (cell (bb_tbl b) i) (bmt_tbl b) idx of
                         None \<Rightarrow> used
                       | Some k \<Rightarrow> used[k := True])
                [1..<main_blocks s] (replicate (Suc idx) False)))"

text \<open>Value 100 frees the pool blocks no table entry uses; the flag says whether any was freed.\<close>

fun pool_free_unused :: "bool list \<Rightarrow> bbmt list \<Rightarrow> bool \<times> bbmt list" where
  "pool_free_unused (u # us) (e # es) =
     (let (any, es') = pool_free_unused us es
      in if bb_mapped e = NORMAL_MAPPED \<and> \<not> u then (True, e\<lparr>bb_mapped := NO_MAPPED\<rparr> # es')
         else (any, e # es'))"
| "pool_free_unused _ es = (False, es)"

definition mtk_bmt_debug_v2 ::
  "'d nand_drv \<Rightarrow> bool \<Rightarrow> u64 \<Rightarrow> 'd bmt_desc \<Rightarrow> (int \<times> 'd bmt_desc) option"
where
  "mtk_bmt_debug_v2 drv mem val s =
     (case mtk_bmt_get_mapping_mask mem s of
        None \<Rightarrow> Some (- ENOMEM, s)
      | Some used \<Rightarrow>
          if val = 100 then
            let (any, es) = pool_free_unused used (bmt_tbl (cur_bbt s));
                b = (cur_bbt s)\<lparr>bmt_tbl := es\<rparr>;
                s1 = s\<lparr>bbt := Some b\<rparr>
            in Some (0, if any then upload_cur drv b s1 else s1)
          else Some (0, s))"

section \<open>Initialisation\<close>

text \<open>
  The search for a stored table, from the last block of the chip down to the pool. \<open>block\<close> is a
  \<open>u16\<close> and wraps below 0, so with \<open>pool_lba = 0\<close> and no table on the chip the loop never ends.
  The result has \<open>bbt\<close> set exactly when a table was found.
\<close>

partial_function (option) bmt_search_loop ::
  "'d nand_drv \<Rightarrow> u32 \<Rightarrow> u16 \<Rightarrow> 'd bmt_desc \<Rightarrow> 'd bmt_desc option"
where
  "bmt_search_loop drv bufsz block s =
     (if bbt s = None \<and> block \<ge> pool_lba s then
        let (ret, dat, ob, s1) = bbt_nand_read drv (blk_pg s block) (unat bufsz) 4 s;
            s2 = s1\<lparr>bbt_buf := memcpy_at (bbt_buf s1) 0 dat\<rparr>;
            n = unat (table_size s2);
            tab = bbbt_of n (bbt_buf s2);
            s3 = s2\<lparr>bmt_blk_idx := get_bmt_index (bmt_tbl tab)\<rparr>
        in if ret \<noteq> 0 then bmt_search_loop drv bufsz (block - 1) s2
           else if \<not> is_valid_bmt n (bbt_buf s2) (memcpy_at (replicate 4 0) 0 ob)
                then bmt_search_loop drv bufsz (block - 1) s2
           else if bmt_blk_idx s3 = 0 then Some s3
           else bmt_search_loop drv bufsz (block - 1) (s3\<lparr>bbt := Some tab\<rparr>)
      else Some s)"

text \<open>The buffer has \<open>bufsz\<close> bytes. The later \<open>memset\<close> of the pool covers \<open>table_size\<close> entries of
  four bytes; the model clears those that lie in the buffer.\<close>

definition v2_bufsz :: "u32 \<Rightarrow> u32 \<Rightarrow> u32" where
  "v2_bufsz tsize pgsz = round_up (4 + tsize * 4) pgsz"

text \<open>The geometry \<open>mtk_bmt_init_v2\<close> computes from the device tree. \<open>pmt_block << blk_shift\<close> is a shift
  of a C \<open>int\<close>, sign-extended to the 64-bit size.\<close>

definition v2_pool_size :: "bmt_env \<Rightarrow> u32" where
  "v2_pool_size np = (case dt_bmt_pool_size np of Some v \<Rightarrow> v | None \<Rightarrow> 80)"

definition v2_table_size :: "bmt_env \<Rightarrow> u32" where
  "v2_table_size np = (case dt_bmt_table_size np of Some v \<Rightarrow> v | None \<Rightarrow> 0x2000)"

definition v2_setup :: "bmt_env \<Rightarrow> 'd bmt_desc \<Rightarrow> 'd bmt_desc" where
  "v2_setup np s =
     (let pmt_block = (ucast ((ucast (total_blks s) :: u32) - v2_pool_size np - 2) :: u16)
      in s\<lparr>oob_offset := (case dt_bmt_oob_offset np of Some v \<Rightarrow> v | None \<Rightarrow> 0),
           table_size := v2_table_size np,
           mtd := (mtd s)\<lparr>mtd_size :=
             scast (push_bit (unat (blk_shift s)) (ucast pmt_block :: u32))\<rparr>,
           pool_lba := pmt_block + 2,
           bb_max := ucast ((ucast (total_blks s) :: u32) * 2 div 100),
           bmt_pgs := drop_bit (unat (pg_shift s)) (v2_bufsz (v2_table_size np) (pg_size s))\<rparr>)"

text \<open>The branch that builds a new table when none was found.\<close>

definition v2_build :: "'d nand_drv \<Rightarrow> 'd bmt_desc \<Rightarrow> int \<times> 'd bmt_desc" where
  "v2_build drv s =
     (if (ucast (total_blks s) :: u32) > table_size s + table_size s * 2 div 100 then (-1, s)
      else let tab = bbbt_of (unat (table_size s)) (bbt_buf s);
               z = \<lparr>bb_block = 0, bb_mapped = 0\<rparr>;
               b = tab\<lparr>bmt_tbl := replicate (min (unat (table_size s)) (length (bmt_tbl tab))) z
                        @ drop (unat (table_size s)) (bmt_tbl tab)\<rparr>;
               (ret, b1, s1) = scan_bad_blocks drv b (s\<lparr>bbt := Some b\<rparr>);
               s2 = s1\<lparr>bbt := Some b1\<rparr>
           in if ret \<noteq> 0 then (-1, s2)
              else let s3 = upload_cur drv b1 s2
                   in if bmt_blk_idx s3 \<noteq> 0 \<and> bmt_blk_idx s3 = - 1 then (-1, s3) else (0, s3))"

definition mtk_bmt_init_v2 ::
  "'d nand_drv \<Rightarrow> bmt_env \<Rightarrow> 'd bmt_desc \<Rightarrow> (int \<times> 'd bmt_desc) option"
where
  "mtk_bmt_init_v2 drv np s =
     (let s1 = v2_setup np s;
          bufsz = v2_bufsz (table_size s1) (pg_size s1)
      in if \<not> alloc_table_ok np then Some (- ENOMEM, s1\<lparr>bbt_buf := []\<rparr>)
         else do {
           s2 \<leftarrow> bmt_search_loop drv bufsz (total_blks s1 - 1)
                   (s1\<lparr>bbt_buf := replicate (unat bufsz) 0xff, bbt := None\<rparr>);
           Some (if bbt s2 \<noteq> None then (0, s2) else v2_build drv s2)
         })"

definition mtk_bmt_v2_ops :: "'d nand_drv \<Rightarrow> bool \<Rightarrow> 'd mtk_bmt_ops" where
  "mtk_bmt_v2_ops drv mem =
     \<lparr>op_sig = oob_sig_v2, op_init = mtk_bmt_init_v2 drv, op_remap_block = remap_block_v2 drv,
      op_unmap_block = unmap_block_v2 drv, op_get_mapping_block = get_mapping_block_index_v2,
      op_debug = mtk_bmt_debug_v2 drv mem\<rparr>"

section \<open>Encoding round trip\<close>

lemma u16s_of_bytes [byte_simps]: "u16s_of (length ws) (concat (map le16_bytes ws) @ rest) = ws"
  by (induction ws) auto

lemma bbmts_of_bytes [byte_simps]: "bbmts_of (length es) (concat (map bbmt_bytes es) @ rest) = es"
  by (induction es) (auto simp: bbmt_bytes_def)

lemma length_concat_le16 [simp]: "length (concat (map le16_bytes ws)) = 2 * length ws"
  by (induction ws) auto

lemma length_concat_bbmt [simp]: "length (concat (map bbmt_bytes es)) = 4 * length es"
  by (induction es) (auto simp: bbmt_bytes_def)

lemma bbbt_roundtrip:
  assumes "length (bb_signature b) = 3" and "length pad < 4" and "n = length (bb_tbl b)"
  shows "bbbt_of n (bbbt_bytes b @ pad) = b"
proof -
  let ?t = "concat (map le16_bytes (bb_tbl b))" and ?p = "concat (map bbmt_bytes (bmt_tbl b))"
  have sig: "take 3 (bbbt_bytes b @ pad) = bb_signature b" "cell (bbbt_bytes b @ pad) 3 = bb_version b"
    using assms(1) by (simp_all add: bbbt_bytes_def cell_def nth_append)
  have d: "drop 4 (bbbt_bytes b @ pad) = ?t @ ?p @ pad"
    using assms(1) by (simp add: bbbt_bytes_def)
  have "drop (2 * n) (drop 4 (bbbt_bytes b @ pad)) = ?p @ pad"
    unfolding d using assms(3) by simp
  then have dp: "drop (4 + 2 * n) (bbbt_bytes b @ pad) = ?p @ pad"
    by (simp only: drop_drop add.commute)
  have ln: "(length (bbbt_bytes b @ pad) - 4 - 2 * n) div 4 = length (bmt_tbl b)"
    using assms by (simp add: bbbt_bytes_def)
  show ?thesis
    by (simp only: bbbt_of_def sig d dp ln) (simp add: byte_simps assms(3))
qed

section \<open>The spare pool\<close>

text \<open>A pool entry that may still be handed out or may hold the stored table.\<close>

definition spare :: "bbmt \<Rightarrow> bool" where
  "spare e \<longleftrightarrow> bb_block e \<noteq> 0 \<and> bb_mapped e \<noteq> NORMAL_MAPPED"

text \<open>The spare blocks lie on the chip, outside the blocks in use, and are pairwise distinct.\<close>

definition pool_ok :: "u16 \<Rightarrow> int set \<Rightarrow> bbmt list \<Rightarrow> bool" where
  "pool_ok T img es \<longleftrightarrow> (\<forall>e \<in> set es. spare e \<longrightarrow> bb_block e < T \<and> uint (bb_block e) \<notin> img) \<and>
     distinct (map bb_block (filter spare es))"

lemma list_update_split:
  assumes "n < length xs"
  shows "xs[n := y] = take n xs @ y # drop (Suc n) xs" "xs = take n xs @ xs ! n # drop (Suc n) xs"
  by (rule upd_conv_take_nth_drop [OF assms], rule id_take_nth_drop [OF assms])

lemma pool_ok_drop:
  assumes ok: "pool_ok T img es" and "\<not> spare e"
  shows "pool_ok T img (es[n := e])"
proof (cases "n < length es")
  case False
  with ok show ?thesis by (simp add: list_update_beyond)
next
  case True
  define p q x where "p = take n es" and "q = drop (Suc n) es" and "x = es ! n"
  have "es[n := e] = p @ e # q" "es = p @ x # q"
    using list_update_split [OF True] by (simp_all add: p_def q_def x_def)
  with assms show ?thesis
    by (auto simp: pool_ok_def split: if_splits)
qed

lemma pool_ok_grow:
  assumes ok: "pool_ok T img es" and "n < length es" and "spare (es ! n)" and "\<not> spare e"
  shows "pool_ok T (insert (uint (bb_block (es ! n))) img) (es[n := e])"
proof -
  define p q x where "p = take n es" and "q = drop (Suc n) es" and "x = es ! n"
  have u: "es[n := e] = p @ e # q" and eq: "es = p @ x # q"
    using list_update_split [OF assms(2)] by (simp_all add: p_def q_def x_def)
  have "distinct (map bb_block (filter spare (p @ x # q)))"
    using ok eq by (simp add: pool_ok_def)
  moreover have "spare x" using assms(3) by (simp add: x_def)
  ultimately have "bb_block y \<noteq> bb_block x" if "y \<in> set p \<union> set q" "spare y" for y
    using that by (auto simp: image_iff)
  moreover have "pool_ok T img (p @ x # q)" using ok eq by simp
  ultimately show ?thesis
    using assms(4) unfolding u x_def [symmetric]
    by (auto simp: pool_ok_def dest: unsigned_word_eqI split: if_splits)
qed

lemma pool_ok_mono: "pool_ok T img es \<Longrightarrow> img' \<subseteq> img \<Longrightarrow> pool_ok T img' es"
  by (auto simp: pool_ok_def)

lemma pool_ok_spare:
  "pool_ok T img es \<Longrightarrow> n < length es \<Longrightarrow> spare (es ! n) \<Longrightarrow>
   bb_block (es ! n) < T \<and> uint (bb_block (es ! n)) \<notin> img"
  by (auto simp: pool_ok_def)

lemma pool_take_zero: "pool_take k es = (0, es') \<Longrightarrow> es' = es"
  by (induction k es arbitrary: es' rule: pool_take.induct) (auto split: if_splits prod.splits)

lemma pool_take_some:
  assumes "pool_take k es = (b, es')" and "b \<noteq> 0"
  shows "\<exists>n. n < length es \<and> n < k \<and> bb_mapped (es ! n) = NO_MAPPED \<and> bb_block (es ! n) = b \<and>
           es' = es[n := (es ! n)\<lparr>bb_mapped := NORMAL_MAPPED\<rparr>]"
  using assms
proof (induction k es arbitrary: es' rule: pool_take.induct)
  case (3 k e es)
  show ?case
  proof (cases "bb_block e \<noteq> 0 \<and> bb_mapped e = NO_MAPPED")
    case True
    with 3(2) show ?thesis by (intro exI [of _ 0]) auto
  next
    case False
    then obtain es1 where "pool_take k es = (b, es1)" and es': "es' = e # es1"
      using 3(2) by (auto split: prod.splits if_splits)
    with 3(1) False 3(3) obtain n where "n < length es" "n < k" "bb_mapped (es ! n) = NO_MAPPED"
      "bb_block (es ! n) = b" "es1 = es[n := (es ! n)\<lparr>bb_mapped := NORMAL_MAPPED\<rparr>]"
      by blast
    then show ?thesis
      by (intro exI [of _ "Suc n"]) (simp add: es')
  qed
qed auto

lemma upload_bmt_loop_keeps:
  assumes "upload_bmt_loop drv n b s = (r, b', t)"
  shows "io_upd s t" and "bb_tbl b' = bb_tbl b"
    and "pool_ok T img (bmt_tbl b) \<Longrightarrow> pool_ok T img (bmt_tbl b')"
  using assms
proof (atomize (full), induction n arbitrary: b s)
  case 0
  then show ?case by simp
next
  case (Suc n)
  let ?blk = "bb_block (bmt_at (bmt_tbl b) n)"
  obtain ret s1 where er: "bbt_nand_erase drv ?blk s = (ret, s1)" by fastforce
  let ?b1 = "b\<lparr>bb_signature := main_sig_v2, bb_version := BBMT_VERSION\<rparr>"
  obtain wret s2 where wr: "write_bmt drv oob_sig_v2 ?blk (bbbt_bytes ?b1) s1 = (wret, s2)" by fastforce
  have f1: "io_upd s s1" using er by (rule bbt_nand_erase_frame)
  have f2: "io_upd s s2" using f1 write_bmt_frame [OF wr] by (rule io_upd_trans)
  have sp: "\<not> spare (e\<lparr>bb_block := 0\<rparr>)" for e by (simp add: spare_def)
  note [simp] = er wr Let_def and [intro] = pool_ok_drop [OF _ sp] io_upd_trans [OF f1] io_upd_trans [OF f2]
  consider "bb_mapped (bmt_at (bmt_tbl b) n) = NORMAL_MAPPED"
    | "bb_mapped (bmt_at (bmt_tbl b) n) \<noteq> NORMAL_MAPPED" "ret \<noteq> 0"
    | "bb_mapped (bmt_at (bmt_tbl b) n) \<noteq> NORMAL_MAPPED" "ret = 0" "wret \<noteq> 0"
    | "bb_mapped (bmt_at (bmt_tbl b) n) \<noteq> NORMAL_MAPPED" "ret = 0" "wret = 0"
    by blast
  then show ?case
  proof cases
    case 2
    with Suc.prems show ?thesis by (auto dest!: Suc.IH)
  next
    case 3
    with Suc.prems show ?thesis by (auto dest!: Suc.IH)
  qed (use Suc.prems f2 in auto)
qed

section \<open>Invariant and contract\<close>

text \<open>The block a table sends a logical block to.\<close>

definition v2_tbl_map :: "'d bmt_desc \<Rightarrow> u16 list \<Rightarrow> nat \<Rightarrow> int" where
  "v2_tbl_map s tbl i = (case mapping_block_in_range s (int i) of
      None \<Rightarrow> int i | Some _ \<Rightarrow> uint (cell tbl i))"

text \<open>The table is injective into the chip, and the spare pool is disjoint from what it uses.\<close>

definition v2_ok :: "'d bmt_desc \<Rightarrow> bbbt \<Rightarrow> bool" where
  "v2_ok s b \<longleftrightarrow> geom_ok s \<and> pool_lba s \<le> total_blks s \<and> unat (pool_lba s) \<le> length (bb_tbl b) \<and>
     (\<forall>i < unat (pool_lba s). v2_tbl_map s (bb_tbl b) i < uint (total_blks s)) \<and>
     inj_on (v2_tbl_map s (bb_tbl b)) {..<unat (pool_lba s)} \<and>
     pool_ok (total_blks s) (v2_tbl_map s (bb_tbl b) ` {..<unat (pool_lba s)}) (bmt_tbl b)"

definition v2_inv :: "'d bmt_desc \<Rightarrow> bool" where
  "v2_inv s \<longleftrightarrow> bbt s \<noteq> None \<and> v2_ok s (cur_bbt s)"

definition v2_lblks :: "'d bmt_desc \<Rightarrow> nat" where
  "v2_lblks s = unat (pool_lba s)"

lemma get_mapping_v2_tbl:
  "i < unat (pool_lba s) \<Longrightarrow>
   get_mapping_block_index_v2 s (int i) = v2_tbl_map s (bb_tbl (cur_bbt s)) i"
  using uint_less_int by (auto simp: get_mapping_block_index_v2_def v2_tbl_map_def
      uint_nat simp del: of_nat_unat split: option.split)

lemma v2_tbl_map_cong: "same_geom s t \<Longrightarrow> v2_tbl_map t = v2_tbl_map s"
  by (simp add: v2_tbl_map_def same_geom_in_range fun_eq_iff)

lemma v2_ok_cong:
  assumes "same_geom s t" and "pool_lba t = pool_lba s"
  shows "v2_ok t b = v2_ok s b"
proof -
  have "geom_ok t = geom_ok s" "v2_tbl_map t = v2_tbl_map s" "total_blks t = total_blks s"
    using assms(1) same_geom_ok v2_tbl_map_cong by (auto simp: same_geom_def)
  with assms(2) show ?thesis by (simp add: v2_ok_def)
qed

lemma v2_tbl_map_nonneg: "0 \<le> v2_tbl_map s tbl i"
  by (simp add: v2_tbl_map_def split: option.split)

lemma v2_tbl_map_update:
  assumes "k < length tbl"
  shows "v2_tbl_map s (tbl[k := v]) =
     (if mapping_block_in_range s (int k) = None then v2_tbl_map s tbl
      else (v2_tbl_map s tbl)(k := uint v))"
  using assms by (auto simp: v2_tbl_map_def fun_eq_iff cell_update split: option.split)

lemma v2_ok_remap:
  assumes ok: "v2_ok s b" and k: "unat k < unat (pool_lba s)"
    and take: "pool_take m (bmt_tbl b) = (nb, es)" and nb: "nb \<noteq> 0"
  shows "v2_ok s (b\<lparr>bb_tbl := (bb_tbl b)[unat k := nb], bmt_tbl := es\<rparr>)"
proof -
  let ?f = "v2_tbl_map s (bb_tbl b)" and ?A = "{..<unat (pool_lba s)}"
  obtain n where n: "n < length (bmt_tbl b)" "bb_mapped (bmt_tbl b ! n) = NO_MAPPED"
      "bb_block (bmt_tbl b ! n) = nb"
      "es = (bmt_tbl b)[n := (bmt_tbl b ! n)\<lparr>bb_mapped := NORMAL_MAPPED\<rparr>]"
    using pool_take_some [OF take nb] by blast
  have sp: "spare (bmt_tbl b ! n)" "\<not> spare ((bmt_tbl b ! n)\<lparr>bb_mapped := NORMAL_MAPPED\<rparr>)"
    using n nb by (simp_all add: spare_def)
  have pok: "pool_ok (total_blks s) (?f ` ?A) (bmt_tbl b)" using ok by (simp add: v2_ok_def)
  have fresh: "nb < total_blks s" "uint nb \<notin> ?f ` ?A"
    using pool_ok_spare [OF pok n(1) sp(1)] n(3) by auto
  have pok': "pool_ok (total_blks s) (insert (uint nb) (?f ` ?A)) es"
    using pool_ok_grow [OF pok n(1) sp] n by simp
  have klen: "unat k < length (bb_tbl b)" using ok k by (simp add: v2_ok_def)
  show ?thesis
    using ok fresh pok' inj_on_fun_updI [of ?f ?A "uint nb" "unat k"]
    by (auto simp: v2_ok_def v2_tbl_map_update [OF klen] word_less_def
        elim!: pool_ok_mono split: if_splits)
qed

lemma upload_cur_keeps:
  "\<exists>b'. bbt (upload_cur drv b s) = Some b' \<and> bb_tbl b' = bb_tbl b \<and>
     (\<forall>T img. pool_ok T img (bmt_tbl b) \<longrightarrow> pool_ok T img (bmt_tbl b')) \<and>
     same_geom s (upload_cur drv b s) \<and> pool_lba (upload_cur drv b s) = pool_lba s"
proof -
  obtain n b1 s1 where u: "upload_bmt_loop drv (nat (uint (bmt_blk_idx s) + 1)) b s = (n, b1, s1)"
    by (metis prod_cases3)
  note k = upload_bmt_loop_keeps [OF u]
  have "upload_cur drv b s = s1\<lparr>bbt := Some b1, bmt_blk_idx := n\<rparr>"
    by (simp add: upload_cur_def upload_bmt_def u)
  then show ?thesis
    using k(2,3) io_upd_same_geom [OF k(1)] io_upd_fields(11) [OF k(1)]
    by (auto simp: same_geom_def)
qed

lemma upload_cur_inv:
  assumes "v2_ok s b"
  shows "v2_inv (upload_cur drv b s)" and "same_geom s (upload_cur drv b s)"
    and "pool_lba (upload_cur drv b s) = pool_lba s"
proof -
  let ?t = "upload_cur drv b s"
  obtain b' where b': "bbt ?t = Some b'" "bb_tbl b' = bb_tbl b"
      "\<And>T img. pool_ok T img (bmt_tbl b) \<Longrightarrow> pool_ok T img (bmt_tbl b')"
    and g: "same_geom s ?t" "pool_lba ?t = pool_lba s"
    using upload_cur_keeps [of drv b s] by blast
  have "v2_ok s b'" using assms b' by (simp add: v2_ok_def)
  with b'(1) v2_ok_cong [OF g] show "v2_inv ?t" by (simp add: v2_inv_def cur_bbt_def)
  show "same_geom s ?t" "pool_lba ?t = pool_lba s" using g by auto
qed

lemma remap_block_v2_step:
  assumes "pool_take (unat (bmt_blk_idx s)) (bmt_tbl (cur_bbt s)) = (nb, es)"
    and "nb \<noteq> 0" and "bmt_blk_idx s \<noteq> 0"
    and b1: "b1 = (cur_bbt s)\<lparr>bb_tbl := (bb_tbl (cur_bbt s))[unat block := nb], bmt_tbl := es\<rparr>"
    and er: "bbt_nand_erase drv nb (s\<lparr>bbt := Some b1\<rparr>) = (r1, s1)"
    and cp: "(if n > 0 then bbt_nand_copy drv nb m n s1 else (0, s1)) = (r2, s2)"
  shows "remap_block_v2 drv block m n s = Some (True, upload_cur drv b1 s2)"
    and "io_upd (s\<lparr>bbt := Some b1\<rparr>) s2"
proof -
  have "find_valid_block_in_pool (cur_bbt s) s = (nb, (cur_bbt s)\<lparr>bmt_tbl := es\<rparr>)"
    using assms by (simp add: find_valid_block_in_pool_def)
  moreover have "b1 = (cur_bbt s)\<lparr>bmt_tbl := es, bb_tbl := (bb_tbl (cur_bbt s))[unat block := nb]\<rparr>"
    using b1 by simp
  ultimately show "remap_block_v2 drv block m n s = Some (True, upload_cur drv b1 s2)"
    using assms(2) er cp by (simp add: remap_block_v2_def Let_def)
  have "io_upd s1 s2"
    using cp by (auto split: if_splits dest: bbt_nand_copy_frame)
  with bbt_nand_erase_frame [OF er] show "io_upd (s\<lparr>bbt := Some b1\<rparr>) s2"
    by (rule io_upd_trans)
qed

lemma find_valid_block_in_pool_none:
  assumes "find_valid_block_in_pool b s = (0, b')"
  shows "b' = b"
  using assms pool_take_zero
  by (auto simp: find_valid_block_in_pool_def split: if_splits prod.splits)

lemma remap_block_v2_cases:
  obtains (full) "remap_block_v2 drv block m n s = Some (False, s\<lparr>bbt := Some (cur_bbt s)\<rparr>)"
  | (moved) nb es b1 r1 s1 r2 s2 where
      "pool_take (unat (bmt_blk_idx s)) (bmt_tbl (cur_bbt s)) = (nb, es)" "nb \<noteq> 0"
      "b1 = (cur_bbt s)\<lparr>bb_tbl := (bb_tbl (cur_bbt s))[unat block := nb], bmt_tbl := es\<rparr>"
      "bbt_nand_erase drv nb (s\<lparr>bbt := Some b1\<rparr>) = (r1, s1)"
      "(if n > 0 then bbt_nand_copy drv nb m n s1 else (0, s1)) = (r2, s2)"
      "io_upd (s\<lparr>bbt := Some b1\<rparr>) s2"
      "remap_block_v2 drv block m n s = Some (True, upload_cur drv b1 s2)"
proof -
  obtain nb b where f: "find_valid_block_in_pool (cur_bbt s) s = (nb, b)" by fastforce
  show thesis
  proof (cases "nb = 0")
    case True
    with f have "b = cur_bbt s" by (simp add: find_valid_block_in_pool_none)
    with f True show thesis by (intro full) (simp add: remap_block_v2_def)
  next
    case False
    then have idx: "bmt_blk_idx s \<noteq> 0"
      using f by (auto simp: find_valid_block_in_pool_def)
    then obtain es where tk: "pool_take (unat (bmt_blk_idx s)) (bmt_tbl (cur_bbt s)) = (nb, es)"
      using f by (auto simp: find_valid_block_in_pool_def split: prod.splits)
    define b1 where "b1 = (cur_bbt s)\<lparr>bb_tbl := (bb_tbl (cur_bbt s))[unat block := nb], bmt_tbl := es\<rparr>"
    obtain r1 s1 where er: "bbt_nand_erase drv nb (s\<lparr>bbt := Some b1\<rparr>) = (r1, s1)" by fastforce
    obtain r2 s2 where cp: "(if n > 0 then bbt_nand_copy drv nb m n s1 else (0, s1)) = (r2, s2)"
      by fastforce
    show thesis
      using tk False b1_def er cp remap_block_v2_step [OF tk False idx b1_def er cp]
      by (intro moved) auto
  qed
qed

lemma cur_bbt_nand: "cur_bbt (s\<lparr>nand := d\<rparr>) = cur_bbt s"
  by (simp add: cur_bbt_def)

lemma v2_inv_io:
  assumes "v2_inv s" and "same_geom s t" and "pool_lba t = pool_lba s" and "bbt t = bbt s"
  shows "v2_inv t"
  using assms v2_ok_cong [OF assms(2,3)] by (simp add: v2_inv_def cur_bbt_def)

lemma remap_block_v2_keeps:
  assumes inv: "v2_inv s" and k: "unat block < v2_lblks s"
  shows "\<exists>ok t. remap_block_v2 drv block m n s = Some (ok, t) \<and> keeps v2_inv v2_lblks s t"
proof (cases rule: remap_block_v2_cases [of drv block m n s])
  case full
  moreover have "s\<lparr>bbt := Some (cur_bbt s)\<rparr> = s"
    using inv by (cases s) (auto simp: v2_inv_def cur_bbt_def)
  ultimately show ?thesis using inv by (intro exI [of _ False] exI [of _ s]) (simp add: keeps_def)
next
  case (moved nb es b1 r1 s1 r2 s2)
  have "v2_ok s b1"
    using v2_ok_remap [OF _ _ moved(1,2), of s block] inv k moved(3) by (simp add: v2_inv_def v2_lblks_def)
  moreover have g: "same_geom s s2" "pool_lba s2 = pool_lba s"
    using moved(6) by (auto simp: same_geom_def elim!: io_updE)
  ultimately have "v2_ok s2 b1" by (simp add: v2_ok_cong)
  then have "keeps v2_inv v2_lblks s (upload_cur drv b1 s2)"
    using upload_cur_inv [of s2 b1 drv] g same_geom_trans
    by (auto simp: keeps_def v2_lblks_def)
  with moved(7) show ?thesis by blast
qed

interpretation v2: bmt_remapping "mtk_bmt_v2_ops drv mem" v2_inv v2_lblks
proof unfold_locales
  show "geom_ok s" if "v2_inv s" for s
    using that by (simp add: v2_inv_def v2_ok_def)
  show "v2_lblks s \<le> unat (total_blks s)" if "v2_inv s" for s
    using that by (simp add: v2_inv_def v2_ok_def v2_lblks_def word_le_nat_alt)
  show "0 \<le> op_get_mapping_block (mtk_bmt_v2_ops drv mem) s (int b) \<and>
      op_get_mapping_block (mtk_bmt_v2_ops drv mem) s (int b) < uint (total_blks s)"
    if "v2_inv s" and "b < v2_lblks s" for s b
    using that
    by (simp add: mtk_bmt_v2_ops_def v2_lblks_def get_mapping_v2_tbl v2_inv_def v2_ok_def v2_tbl_map_nonneg)
  show "v2_inv (s\<lparr>nand := d\<rparr>)" if "v2_inv s" for s d
    using that by (rule v2_inv_io) simp_all
  show "op_get_mapping_block (mtk_bmt_v2_ops drv mem) (s\<lparr>nand := d\<rparr>) i =
      op_get_mapping_block (mtk_bmt_v2_ops drv mem) s i" for s d i
    by (simp add: mtk_bmt_v2_ops_def get_mapping_block_index_v2_def cur_bbt_nand
        same_geom_in_range [of s "s\<lparr>nand := d\<rparr>"] split: option.split)
  show "\<exists>ok t. op_remap_block (mtk_bmt_v2_ops drv mem) b m n s = Some (ok, t) \<and> v2_inv t \<and>
      same_geom s t \<and> v2_lblks t = v2_lblks s" if "v2_inv s" and "unat b < v2_lblks s" for s b m n
    using remap_block_v2_keeps [OF that] by (auto simp: mtk_bmt_v2_ops_def keeps_def)
qed (simp add: v2_lblks_def)

interpretation v2: bmt_isolating "mtk_bmt_v2_ops drv mem" v2_inv v2_lblks
proof unfold_locales
  show "b = c" if "v2_inv s" and "b < v2_lblks s" and "c < v2_lblks s"
    and "op_get_mapping_block (mtk_bmt_v2_ops drv mem) s (int b) =
         op_get_mapping_block (mtk_bmt_v2_ops drv mem) s (int c)" for s b c
    using that
    by (auto simp: mtk_bmt_v2_ops_def v2_lblks_def get_mapping_v2_tbl v2_inv_def v2_ok_def
        dest: inj_onD)
qed

section \<open>What a remap does to the chip\<close>

definition spare_blks :: "bbmt list \<Rightarrow> nat set" where
  "spare_blks es = {unat (bb_block e) | e. e \<in> set es \<and> spare e}"

text \<open>The table can still be stored: the pool entries from the one that holds the table down to
  the first name real blocks.\<close>

definition v2_store_ok :: "'d bmt_desc \<Rightarrow> bool" where
  "v2_store_ok s \<longleftrightarrow> unat (bmt_blk_idx s) < length (bmt_tbl (cur_bbt s)) \<and>
     (\<forall>k \<le> unat (bmt_blk_idx s). bb_block (bmt_tbl (cur_bbt s) ! k) \<noteq> 0)"

lemma spare_blks_drop: "\<not> spare e \<Longrightarrow> spare_blks (es[n := e]) \<subseteq> spare_blks es"
proof
  fix v assume e: "\<not> spare e" and "v \<in> spare_blks (es[n := e])"
  then obtain f where f: "f \<in> set (es[n := e])" "spare f" "v = unat (bb_block f)"
    by (auto simp: spare_blks_def)
  from f(1) have "f \<in> insert e (set es)" by (rule subsetD [OF set_update_subset_insert])
  with e f show "v \<in> spare_blks es" by (auto simp: spare_blks_def)
qed

lemma upload_outside:
  assumes loc: "local_drv drv peek" and "pages_ok s" and "table_fits s"
    and "n \<le> length (bmt_tbl b)" and "\<forall>k < n. bb_block (bmt_tbl b ! k) \<noteq> 0"
    and "upload_bmt_loop drv n b s = (r, b', t)"
  shows "same_outside peek (spare_blks (bmt_tbl b)) s t"
  using assms(2-6)
proof (induction n arbitrary: b s)
  case 0
  then show ?case by simp
next
  case (Suc n)
  let ?e = "bmt_tbl b ! n"
  have e: "bmt_at (bmt_tbl b) n = ?e" using Suc.prems(3) by (simp add: bmt_at_def)
  obtain ret s1 where er: "bbt_nand_erase drv (bb_block ?e) s = (ret, s1)" by fastforce
  let ?b1 = "b\<lparr>bb_signature := main_sig_v2, bb_version := BBMT_VERSION\<rparr>"
  obtain wret s2 where wr: "write_bmt drv oob_sig_v2 (bb_block ?e) (bbbt_bytes ?b1) s1 = (wret, s2)"
    by fastforce
  have io1: "io_upd s s1" by (rule bbt_nand_erase_frame [OF er])
  have io2: "io_upd s s2" by (rule io_upd_trans [OF io1 write_bmt_frame [OF wr]])
  have ok: "pages_ok u" "table_fits u" if "io_upd s u" for u
    using Suc.prems(1,2) same_geom_ok [OF io_upd_same_geom [OF that]] that
    by (auto simp: pages_ok_def table_fits_def io_upd_fields)
  show ?case
  proof (cases "spare ?e")
    case False
    then have "bb_mapped ?e = NORMAL_MAPPED" using Suc.prems(4) by (auto simp: spare_def)
    with Suc.prems(5) e show ?thesis by simp
  next
    case True
    then have nn: "bb_mapped ?e \<noteq> NORMAL_MAPPED" by (simp add: spare_def)
    let ?S = "spare_blks (bmt_tbl b)"
    have mem: "{unat (bb_block ?e)} \<subseteq> ?S"
      using True Suc.prems(3) by (auto simp: spare_blks_def)
    have g1: "geom_ok s" using Suc.prems(1) by (simp add: pages_ok_def)
    have o1: "same_outside peek ?S s s1"
      using erase_outside [OF loc g1 er] mem by (rule same_outside_mono)
    have o2: "same_outside peek ?S s s2"
      using same_outside_trans [OF o1 same_outside_mono [OF write_bmt_outside [OF loc ok(2) [OF io1] wr] mem]]
      by simp
    have IH: "same_outside peek ?S s t"
      if "io_upd s u" and "same_outside peek ?S s u"
        and "bmt_tbl c = (bmt_tbl b)[n := ?e\<lparr>bb_block := 0\<rparr>]"
        and "upload_bmt_loop drv n c u = (r, b', t)" for u c
    proof -
      have "same_outside peek (spare_blks (bmt_tbl c)) u t"
        using Suc.prems(3,4) that ok by (intro Suc.IH) auto
      moreover have "spare_blks (bmt_tbl c) \<subseteq> ?S"
        unfolding that(3) by (rule spare_blks_drop) (simp add: spare_def)
      ultimately have "same_outside peek ?S u t" by (rule same_outside_mono)
      from same_outside_trans [OF that(2) this] show ?thesis by simp
    qed
    consider "ret \<noteq> 0" | "ret = 0" "wret \<noteq> 0" | "ret = 0" "wret = 0" by blast
    then show ?thesis
    proof cases
      case 1
      with Suc.prems(5) nn show ?thesis by (intro IH [OF io1 o1]) (simp_all add: e er Let_def)
    next
      case 2
      with Suc.prems(5) nn show ?thesis by (intro IH [OF io2 o2]) (simp_all add: e er wr Let_def)
    next
      case 3
      with Suc.prems(5) nn o2 show ?thesis by (simp add: e er wr Let_def)
    qed
  qed
qed

lemma pool_take_blocks:
  "pool_take k es = (b, es') \<Longrightarrow> map bb_block es' = map bb_block es"
  by (induction k es arbitrary: es' rule: pool_take.induct) (auto split: if_splits prod.splits)

lemma remap_v2_outside:
  assumes loc: "local_drv drv peek" and inv: "v2_inv s" and pg: "pages_ok s" and tf: "table_fits s"
    and st: "v2_store_ok s"
    and tk: "pool_take (unat (bmt_blk_idx s)) (bmt_tbl (cur_bbt s)) = (nb, es)"
    and b1: "b1 = (cur_bbt s)\<lparr>bb_tbl := (bb_tbl (cur_bbt s))[unat block := nb], bmt_tbl := es\<rparr>"
    and io: "io_upd (s\<lparr>bbt := Some b1\<rparr>) s2"
  shows "same_outside peek (spare_blks es) s2 (upload_cur drv b1 s2)"
proof -
  have bl: "map bb_block es = map bb_block (bmt_tbl (cur_bbt s))" using tk by (rule pool_take_blocks)
  then have len: "length es = length (bmt_tbl (cur_bbt s))" by (metis length_map)
  have bk: "bb_block (es ! k) = bb_block (bmt_tbl (cur_bbt s) ! k)" if "k < length es" for k
    using bl len that by (metis nth_map)
  have idx: "bmt_blk_idx s2 = bmt_blk_idx s" using io by (auto elim!: io_updE)
  have ok: "pages_ok s2" "table_fits s2"
    using pg tf same_geom_ok [OF io_upd_same_geom [OF io]] io
    by (auto simp: pages_ok_def table_fits_def io_upd_fields geom_ok_def chip_fits_def)
  obtain n b' t where u: "upload_bmt_loop drv (nat (uint (bmt_blk_idx s2) + 1)) b1 s2 = (n, b', t)"
    by (metis prod_cases3)
  have nat: "nat (uint (bmt_blk_idx s2) + 1) = Suc (unat (bmt_blk_idx s))"
    by (simp add: idx nat_add_distrib)
  have "same_outside peek (spare_blks (bmt_tbl b1)) s2 t"
    using st b1 len bk by (intro upload_outside [OF loc ok _ _ u]) (auto simp: nat v2_store_ok_def)
  moreover have "upload_cur drv b1 s2 = t\<lparr>bbt := Some b', bmt_blk_idx := n\<rparr>"
    by (simp add: upload_cur_def upload_bmt_def u)
  ultimately show ?thesis by (simp add: same_outside_def same_geom_def b1)
qed

text \<open>The block of the chip behind a logical block is neither a spare block nor a fresh one.\<close>

lemma v2_used_block:
  assumes ok: "v2_ok s b" and c: "c < unat (pool_lba s)"
  shows "nat (v2_tbl_map s (bb_tbl b) c) \<notin> spare_blks (bmt_tbl b)"
proof
  assume "nat (v2_tbl_map s (bb_tbl b) c) \<in> spare_blks (bmt_tbl b)"
  then obtain e where e: "e \<in> set (bmt_tbl b)" "spare e"
      "nat (v2_tbl_map s (bb_tbl b) c) = unat (bb_block e)"
    by (auto simp: spare_blks_def)
  then have "v2_tbl_map s (bb_tbl b) c = uint (bb_block e)"
    using v2_tbl_map_nonneg [of s "bb_tbl b" c] by (metis int_nat_eq uint_nat)
  moreover have "v2_tbl_map s (bb_tbl b) c \<in> v2_tbl_map s (bb_tbl b) ` {..<unat (pool_lba s)}"
    using c by simp
  ultimately show False
    using e ok by (simp add: v2_ok_def pool_ok_def)
qed

lemma v2_fresh_block:
  assumes ok: "v2_ok s b" and "pool_take k (bmt_tbl b) = (nb, es)" and "nb \<noteq> 0"
    and c: "c < unat (pool_lba s)"
  shows "nat (v2_tbl_map s (bb_tbl b) c) \<noteq> unat nb"
proof -
  obtain n where "n < length (bmt_tbl b)" "bb_mapped (bmt_tbl b ! n) = NO_MAPPED" "bb_block (bmt_tbl b ! n) = nb"
    using pool_take_some [OF assms(2,3)] by blast
  with assms(3) have "unat nb \<in> spare_blks (bmt_tbl b)"
    by (auto simp: spare_blks_def spare_def intro!: exI [of _ "bmt_tbl b ! n"])
  then show ?thesis using v2_used_block [OF ok c] by metis
qed

lemma xlate_div:
  "xlate ops s x div 2 ^ unat (blk_shift s) = nat (op_get_mapping_block ops s (int (x div 2 ^ unat (blk_shift s))))"
  by (simp add: xlate_def)

lemma get_mapping_upload_cur:
  assumes "same_geom s u" and "pool_lba u = pool_lba s" and "c < unat (pool_lba s)"
  shows "get_mapping_block_index_v2 (upload_cur drv b u) (int c) = v2_tbl_map s (bb_tbl b) c"
proof -
  obtain b' where b': "bbt (upload_cur drv b u) = Some b'" "bb_tbl b' = bb_tbl b"
    and g: "same_geom u (upload_cur drv b u)" "pool_lba (upload_cur drv b u) = pool_lba u"
    using upload_cur_keeps [of drv b u] by blast
  have "c < unat (pool_lba (upload_cur drv b u))" using g assms by simp
  then have "get_mapping_block_index_v2 (upload_cur drv b u) (int c) =
      v2_tbl_map (upload_cur drv b u) (bb_tbl b') c"
    using b' by (simp add: get_mapping_v2_tbl cur_bbt_def)
  then show ?thesis
    using v2_tbl_map_cong [OF same_geom_trans [OF assms(1) g(1)]] b'(2) by simp
qed

lemma remap_v2_isolates:
  assumes loc: "local_drv drv peek" and inv: "v2_inv s" and pg: "pages_ok s" and tf: "table_fits s"
    and st: "v2_store_ok s" and k: "unat block < v2_lblks s"
    and rm: "remap_block_v2 drv block m n s = Some (ok, t)"
    and x: "x < v2_lblks s * 2 ^ unat (blk_shift s)" and ne: "x div 2 ^ unat (blk_shift s) \<noteq> unat block"
  shows "xlate (mtk_bmt_v2_ops drv mem) t x = xlate (mtk_bmt_v2_ops drv mem) s x \<and>
         peek (nand t) (xlate (mtk_bmt_v2_ops drv mem) t x) = peek (nand s) (xlate (mtk_bmt_v2_ops drv mem) s x)"
proof (cases rule: remap_block_v2_cases [of drv block m n s])
  case full
  moreover have "s\<lparr>bbt := Some (cur_bbt s)\<rparr> = s"
    using inv by (cases s) (auto simp: v2_inv_def cur_bbt_def)
  ultimately show ?thesis using rm by simp
next
  case (moved nb es b1 r1 s1 r2 s2)
  let ?c = "x div 2 ^ unat (blk_shift s)" and ?ops = "mtk_bmt_v2_ops drv mem"
  let ?s' = "s\<lparr>bbt := Some b1\<rparr>"
  have c: "?c < unat (pool_lba s)" using x by (simp add: less_mult_imp_div_less v2_lblks_def)
  have t: "t = upload_cur drv b1 s2" using rm moved(7) by simp
  have ok: "v2_ok s (cur_bbt s)" using inv by (simp add: v2_inv_def)
  have ok1: "v2_ok s b1"
    using v2_ok_remap [OF ok _ moved(1,2), of block] k moved(3) by (simp add: v2_lblks_def)
  have g2: "same_geom s s2" "pool_lba s2 = pool_lba s"
    using moved(6) by (auto simp: same_geom_def elim!: io_updE)
  have klen: "unat block < length (bb_tbl (cur_bbt s))"
    using ok k by (simp add: v2_ok_def v2_lblks_def)
  have same: "v2_tbl_map s (bb_tbl b1) ?c = v2_tbl_map s (bb_tbl (cur_bbt s)) ?c"
    using ne by (simp add: moved(3) v2_tbl_map_update [OF klen])
  have map: "get_mapping_block_index_v2 t (int ?c) = get_mapping_block_index_v2 s (int ?c)"
    using get_mapping_upload_cur [OF g2 c] same by (simp add: t get_mapping_v2_tbl [OF c])
  have gt: "same_geom s t"
    using same_geom_trans [OF g2(1)] upload_cur_keeps [of drv b1 s2] t by blast
  then have xl: "xlate ?ops t x = xlate ?ops s x"
    using map by (simp add: xlate_def same_geom_def mtk_bmt_v2_ops_def)
  let ?p = "nat (v2_tbl_map s (bb_tbl (cur_bbt s)) ?c)"
  have p: "xlate ?ops s x div 2 ^ unat (blk_shift s) = ?p"
    by (simp add: xlate_div mtk_bmt_v2_ops_def get_mapping_v2_tbl [OF c])
  have "pages_ok ?s'" "geom_ok ?s'" using pg by (simp_all add: pages_ok_def geom_ok_def chip_fits_def)
  then have o1: "same_outside peek {unat nb} ?s' s1" using erase_outside [OF loc _ moved(4)] by simp
  have "pages_ok s1"
    using \<open>pages_ok ?s'\<close> same_geom_ok [OF io_upd_same_geom [OF bbt_nand_erase_frame [OF moved(4)]]]
      bbt_nand_erase_frame [OF moved(4)] by (auto simp: pages_ok_def io_upd_fields)
  then have o2: "same_outside peek {unat nb} s1 s2"
    using moved(5) copy_outside [OF loc] by (auto split: if_splits)
  have o3: "same_outside peek (spare_blks es) s2 t"
    unfolding t using remap_v2_outside [OF loc inv pg tf st moved(1,3,6)] .
  have "?p \<noteq> unat nb" using v2_fresh_block [OF ok moved(1,2) c] .
  moreover have "?p \<notin> spare_blks es"
    using v2_used_block [OF ok1 c] unfolding same by (simp add: moved(3))
  ultimately have "\<forall>b \<in> {unat nb} \<union> {unat nb} \<union> spare_blks es. \<not> in_blk ?s' b (xlate ?ops s x)"
    using p by (auto simp: in_blk_eq)
  then have "peek (nand t) (xlate ?ops s x) = peek (nand ?s') (xlate ?ops s x)"
    using same_outside_trans [OF same_outside_trans [OF o1 o2] o3]
    unfolding same_outside_def by blast
  with xl show ?thesis by simp
qed

section \<open>The initial scan\<close>

lemma sorted_wrt_snoc:
  "sorted_wrt (<) xs \<Longrightarrow> xs \<noteq> [] \<Longrightarrow> last xs < (y :: 'a::linorder) \<Longrightarrow> sorted_wrt (<) (xs @ [y])"
  by (induction xs) (auto split: if_splits intro: less_trans)

lemma scan_bb_tbl_loop_sorted:
  assumes "scan_bb_tbl_loop drv k i tbl s = (True, tbl', t)"
    and "1 \<le> i" and "i + k \<le> length tbl"
    and "sorted_wrt (<) (take i tbl)" and "\<forall>v \<in> set (take i tbl). v < total_blks s"
  shows "io_upd s t \<and> length tbl' = length tbl \<and> sorted_wrt (<) (take (i + k) tbl') \<and>
         (\<forall>v \<in> set (take (i + k) tbl'). v < total_blks s)"
  using assms
proof (induction k arbitrary: i tbl s)
  case 0
  then show ?case by simp
next
  case (Suc k)
  obtain b s1 where f: "find_valid_block drv (cell tbl (i - 1) + 1) s = (b, s1)" by fastforce
  with Suc.prems(1) have b0: "b \<noteq> 0"
    and rest: "scan_bb_tbl_loop drv k (Suc i) (tbl[i := b]) s1 = (True, tbl', t)"
    by (auto simp: Let_def split: if_splits)
  have io: "io_upd s s1" using f by (rule find_valid_block_frame)
  then have T: "total_blks s1 = total_blks s" by (simp add: io_upd_fields)
  have ne: "take i tbl \<noteq> []" and ilen: "i < length tbl" using Suc.prems(2,3) by auto
  have lst: "last (take i tbl) = tbl ! (i - 1)"
    using ne ilen Suc.prems(2) by (subst last_conv_nth) (auto simp: min_def)
  have "tbl ! (i - 1) \<in> set (take i tbl)" using ne lst by (metis last_in_set)
  then have "tbl ! (i - 1) < total_blks s" using Suc.prems(5) by blast
  moreover from this have "tbl ! (i - 1) + 1 \<le> b" "b < total_blks s"
    using find_valid_block_bounds [OF f b0] Suc.prems(2) ilen by auto
  ultimately have lt: "last (take i tbl) < b" "b < total_blks s"
    unfolding lst by (auto simp: word_less_nat_alt word_le_nat_alt unat_Suc_less)
  have tk: "take (Suc i) (tbl[i := b]) = take i tbl @ [b]"
    using ilen by (simp add: take_Suc_conv_app_nth)
  have "io_upd s1 t \<and> length tbl' = length (tbl[i := b]) \<and> sorted_wrt (<) (take (Suc i + k) tbl') \<and>
         (\<forall>v \<in> set (take (Suc i + k) tbl'). v < total_blks s1)"
    using Suc.prems lt sorted_wrt_snoc [OF Suc.prems(4) ne lt(1)]
    by (intro Suc.IH [OF rest]) (auto simp: tk T)
  with io T show ?case by (auto intro: io_upd_trans)
qed

text \<open>The pool while it is filled: index \<open>i\<close> is next, and the next block is at least \<open>blk\<close>.\<close>

definition pool_filling :: "u16 \<Rightarrow> u16 \<Rightarrow> nat \<Rightarrow> u16 \<Rightarrow> bbmt list \<Rightarrow> bool" where
  "pool_filling lo T i blk es \<longleftrightarrow>
     (\<forall>j < length es. i \<le> j \<longrightarrow> bb_block (es ! j) = 0) \<and>
     (\<forall>e \<in> set es. bb_block e \<noteq> 0 \<longrightarrow>
        lo \<le> bb_block e \<and> bb_block e < blk \<and> bb_block e < T \<and> bb_mapped e = NO_MAPPED) \<and>
     distinct (map bb_block (filter spare es))"

lemma pool_filling_step:
  assumes fl: "pool_filling lo T i blk es" and "blk \<le> b" and "b < T" and "lo \<le> b" and "b \<noteq> 0"
  shows "pool_filling lo T (i + 1) (b + 1) (es[i := \<lparr>bb_block = b, bb_mapped = NO_MAPPED\<rparr>])"
proof -
  have b1: "b < b + 1" using assms(3) by unat_arith
  have mono: "v < blk \<Longrightarrow> v < b + 1" for v
    using assms(2) b1 by (meson less_trans order.strict_trans2)
  show ?thesis
  proof (cases "i < length es")
    case False
    then show ?thesis using fl mono by (auto simp: pool_filling_def list_update_beyond)
  next
    case True
    define p q x where "p = take i es" and "q = drop (Suc i) es" and "x = es ! i"
    have u: "es[i := \<lparr>bb_block = b, bb_mapped = NO_MAPPED\<rparr>] = p @ \<lparr>bb_block = b, bb_mapped = NO_MAPPED\<rparr> # q"
      and eq: "es = p @ x # q"
      using list_update_split [OF True] by (simp_all add: p_def q_def x_def)
    have x0: "bb_block x = 0" using fl True by (simp add: pool_filling_def x_def)
    have nb: "bb_block e \<noteq> b" if "e \<in> set p \<union> set q" for e
    proof
      assume "bb_block e = b"
      then have "b < blk" using fl that assms(5) by (auto simp: pool_filling_def eq)
      with assms(2) show False by simp
    qed
    have "distinct (map bb_block (filter spare (p @ x # q)))"
      using fl eq by (simp add: pool_filling_def)
    then have "distinct (map bb_block (filter spare (p @ \<lparr>bb_block = b, bb_mapped = NO_MAPPED\<rparr> # q)))"
      using nb x0 by (auto simp: spare_def image_iff)
    moreover have "bb_block (es[i := \<lparr>bb_block = b, bb_mapped = NO_MAPPED\<rparr>] ! j) = 0"
      if "j < length es" "i + 1 \<le> j" for j
      using fl that by (simp add: pool_filling_def)
    moreover have "e = \<lparr>bb_block = b, bb_mapped = NO_MAPPED\<rparr> \<or> e \<in> set es"
      if "e \<in> set (es[i := \<lparr>bb_block = b, bb_mapped = NO_MAPPED\<rparr>])" for e
      using that set_update_subset_insert by fast
    then have "lo \<le> bb_block e \<and> bb_block e < b + 1 \<and> bb_block e < T \<and> bb_mapped e = NO_MAPPED"
      if "e \<in> set (es[i := \<lparr>bb_block = b, bb_mapped = NO_MAPPED\<rparr>])" "bb_block e \<noteq> 0" for e
      using that fl mono b1 assms(3,4) unfolding pool_filling_def by fastforce
    ultimately show ?thesis
      unfolding pool_filling_def u [symmetric] by auto
  qed
qed

lemma scan_pool_loop_fills:
  assumes "scan_pool_loop drv i blk es s = (n, es', t)"
    and "pool_filling lo (total_blks s) i blk es" and "lo \<le> blk"
  shows "io_upd s t \<and> (\<exists>blk'. pool_filling lo (total_blks s) n blk' es') \<and> length es' = length es"
  using assms
proof (induction drv i blk es s rule: scan_pool_loop.induct)
  case (1 drv i blk es s)
  obtain b s1 where f: "find_valid_block drv blk s = (b, s1)" by fastforce
  have io: "io_upd s s1" using f by (rule find_valid_block_frame)
  then have T: "total_blks s1 = total_blks s" by (simp add: io_upd_fields)
  show ?case
  proof (cases "b = 0")
    case True
    with 1(2-3) f io show ?thesis by (subst (asm) scan_pool_loop.simps) auto
  next
    case False
    have bb: "blk \<le> b" "b < total_blks s" using find_valid_block_bounds [OF f False] by auto
    then have "b \<le> b + 1" by unat_arith
    then have "lo \<le> b + 1" using 1(4) bb(1) by (meson order_trans)
    moreover have "lo \<le> b" using 1(4) bb(1) by (rule order_trans)
    moreover have "scan_pool_loop drv (i + 1) (b + 1) (es[i := \<lparr>bb_block = b, bb_mapped = NO_MAPPED\<rparr>]) s1 = (n, es', t)"
      using 1(2) f False by (subst (asm) scan_pool_loop.simps) simp
    ultimately show ?thesis
      using 1(1) [OF f [symmetric] False] pool_filling_step [OF 1(3) bb _ False] io T
      by (auto intro: io_upd_trans)
  qed
qed

lemma pool_ok_retag:
  assumes "pool_ok T img es"
    and "n < length es \<Longrightarrow> bb_block (es ! n) \<noteq> 0 \<Longrightarrow> bb_mapped (es ! n) \<noteq> NORMAL_MAPPED"
    and "v \<noteq> NORMAL_MAPPED"
  shows "pool_ok T img (es[n := (bmt_at es n)\<lparr>bb_mapped := v\<rparr>])"
proof (cases "n < length es")
  case True
  define p q x where "p = take n es" and "q = drop (Suc n) es" and "x = es ! n"
  have u: "es[n := x\<lparr>bb_mapped := v\<rparr>] = p @ x\<lparr>bb_mapped := v\<rparr> # q" and eq: "es = p @ x # q"
    using list_update_split [OF True] by (simp_all add: p_def q_def x_def)
  have "spare (x\<lparr>bb_mapped := v\<rparr>) = spare x"
    using assms(2,3) True by (auto simp: spare_def x_def)
  then have "pool_ok T img (es[n := x\<lparr>bb_mapped := v\<rparr>]) = pool_ok T img (p @ x # q)"
    unfolding u by (auto simp: pool_ok_def)
  then show ?thesis
    using assms(1) True unfolding eq [symmetric] by (simp add: bmt_at_def x_def)
next
  case False
  with assms(1) show ?thesis by (simp add: list_update_beyond)
qed

text \<open>
  A successful scan leaves a strictly increasing table of valid blocks and a pool of fresh blocks
  behind it, so the invariant holds initially (with no remap ranges).
\<close>

lemma v2_tbl_map_no_range:
  "bbt_ranges s = [] \<Longrightarrow> v2_tbl_map s tbl i = uint (cell tbl i)"
  by (simp add: v2_tbl_map_def in_range_ranges)

lemma sorted_tbl_inj:
  assumes "sorted_wrt (<) (take n tbl)" and "n \<le> length (tbl :: u16 list)"
  shows "inj_on (\<lambda>i. uint (cell tbl i)) {..<n}"
proof (rule inj_onI)
  fix i j assume ij: "i \<in> {..<n}" "j \<in> {..<n}" "uint (cell tbl i) = uint (cell tbl j)"
  then have "take n tbl ! i = take n tbl ! j"
    using assms(2) unsigned_word_eqI by fastforce
  moreover have "distinct (take n tbl)"
    using assms(1) by (simp add: strict_sorted_iff)
  ultimately show "i = j"
    using ij(1,2) assms(2) nth_eq_iff_index_eq [of "take n tbl" i j] by simp
qed

lemma sorted_tbl_last:
  assumes "sorted_wrt (<) (take n tbl)" and "n \<le> length (tbl :: u16 list)" and "i < n"
  shows "tbl ! i \<le> tbl ! (n - 1)"
proof (cases "i = n - 1")
  case False
  then have "take n tbl ! i < take n tbl ! (n - 1)"
    using assms sorted_wrt_nth_less [OF assms(1), of i "n - 1"] by simp
  with assms show ?thesis by simp
qed simp

lemma scan_bad_blocks_ok:
  assumes sc: "scan_bad_blocks drv b s = (0, b', t)" and g: "geom_ok s" and nr: "bbt_ranges s = []"
    and lba: "pool_lba s \<le> total_blks s" "unat (pool_lba s) \<le> length (bb_tbl b)"
      "0 < length (bb_tbl b)" and T: "0 < total_blks s"
    and fresh: "\<forall>e \<in> set (bmt_tbl b). bb_block e = 0"
  shows "v2_ok t b' \<and> sorted_wrt (<) (take (unat (pool_lba s)) (bb_tbl b')) \<and> same_geom s t \<and>
         pool_lba t = pool_lba s"
proof -
  let ?n = "max 1 (unat (pool_lba s))"
  obtain ok tbl s1 where l: "scan_bb_tbl_loop drv (unat (pool_lba s) - 1) 1 ((bb_tbl b)[0 := 0]) s = (ok, tbl, s1)"
    by (metis prod_cases3)
  have ok by (rule ccontr) (use sc l in \<open>simp add: scan_bad_blocks_def\<close>)
  have n: "1 + (unat (pool_lba s) - 1) = ?n" by simp
  have t1: "take 1 ((bb_tbl b)[0 := 0]) = [0]"
    using lba(3) by (cases "bb_tbl b") auto
  have "unat (pool_lba s) - 1 < length (bb_tbl b)" using lba(2,3) by linarith
  then have "io_upd s s1 \<and> length tbl = length ((bb_tbl b)[0 := 0]) \<and> sorted_wrt (<) (take ?n tbl) \<and>
         (\<forall>v \<in> set (take ?n tbl). v < total_blks s)"
    using l \<open>ok\<close> lba T t1 n unfolding n [symmetric]
    by (intro scan_bb_tbl_loop_sorted) (auto simp: Suc_le_eq)
  then have io1: "io_upd s s1" and len: "length tbl = length (bb_tbl b)"
    and srt: "sorted_wrt (<) (take ?n tbl)" and lt: "\<And>v. v \<in> set (take ?n tbl) \<Longrightarrow> v < total_blks s"
    by auto
  have nl: "?n \<le> length tbl" using lba(2,3) unfolding len by linarith
  define pba where "pba = tbl ! (?n - 1) + 1"
  define s2 where "s2 = s1\<lparr>pool_pba := pba\<rparr>"
  have p1: "pool_lba s1 = pool_lba s" "total_blks s1 = total_blks s"
    using io1 by (simp_all add: io_upd_fields)
  have s2c: "s1\<lparr>pool_pba := cell tbl (max 1 (unat (pool_lba s1)) - 1) + 1\<rparr> = s2"
    unfolding p1 s2_def pba_def using nl by (subst cell_in) (linarith, simp)
  obtain i es s3 where pl: "scan_pool_loop drv 0 pba (bmt_tbl b) s2 = (i, es, s3)"
    by (metis prod_cases3)
  have "pool_filling pba (total_blks s2) 0 pba (bmt_tbl b)"
    using fresh by (auto simp: pool_filling_def spare_def filter_False)
  then obtain blk' where io3: "io_upd s2 s3" and fl: "pool_filling pba (total_blks s) i blk' es"
    using scan_pool_loop_fills [OF pl] by (auto simp: s2_def p1)
  have res: "t = s3\<lparr>bmt_blk_idx := of_nat i - 1\<rparr>"
      "b' = b\<lparr>bb_tbl := tbl, bmt_tbl := es[unat (of_nat i - 1 :: u16) :=
         (bmt_at es (unat (of_nat i - 1 :: u16)))\<lparr>bb_mapped := BMT_MAPPED\<rparr>]\<rparr>"
    using sc \<open>ok\<close> pl unfolding scan_bad_blocks_def l prod.case Let_def s2c
    by (auto simp: s2_def split: if_splits)
  have sg: "same_geom s t" "pool_lba t = pool_lba s"
    using io1 io3 by (auto simp: res s2_def same_geom_def elim!: io_updE)
  have last: "tbl ! (?n - 1) < total_blks s"
    using nl by (intro lt) (auto simp: in_set_conv_nth intro!: exI [of _ "?n - 1"])
  have below: "tbl ! j < pba" if "j < unat (pool_lba s)" for j
    using sorted_tbl_last [OF srt nl, of j] that last unfolding pba_def
    by (auto simp: word_less_nat_alt word_le_nat_alt unat_Suc_less)
  have img: "v2_tbl_map s tbl ` {..<unat (pool_lba s)} \<subseteq> {..<uint pba}"
    using below nl by (auto simp: v2_tbl_map_no_range [OF nr] word_less_def)
  have "bb_block e < total_blks s \<and> uint (bb_block e) \<notin> v2_tbl_map s tbl ` {..<unat (pool_lba s)}"
    if "e \<in> set es" "spare e" for e
  proof -
    have "pba \<le> bb_block e" "bb_block e < total_blks s"
      using fl that by (auto simp: pool_filling_def spare_def)
    then show ?thesis using subsetD [OF img, of "uint (bb_block e)"] by (auto simp: word_le_def)
  qed
  with fl have "pool_ok (total_blks s) (v2_tbl_map s tbl ` {..<unat (pool_lba s)}) es"
    by (simp add: pool_ok_def pool_filling_def)
  moreover have "bb_mapped (es ! j) \<noteq> NORMAL_MAPPED" if "j < length es" "bb_block (es ! j) \<noteq> 0" for j
    using fl that by (auto simp: pool_filling_def)
  ultimately have pool: "pool_ok (total_blks s) (v2_tbl_map s tbl ` {..<unat (pool_lba s)}) (bmt_tbl b')"
    by (simp add: res pool_ok_retag)
  have srt': "sorted_wrt (<) (take (unat (pool_lba s)) tbl)"
    using srt by (cases "unat (pool_lba s)") (auto simp: max_def split: if_splits)
  have lt': "v2_tbl_map s tbl j < uint (total_blks s)" if "j < unat (pool_lba s)" for j
  proof -
    have "take ?n tbl ! j \<in> set (take ?n tbl)" using that nl by (intro nth_mem) auto
    with lt have "tbl ! j < total_blks s" using that by simp
    then show ?thesis using that nl by (simp add: v2_tbl_map_no_range [OF nr] word_less_def)
  qed
  have "inj_on (v2_tbl_map s tbl) {..<unat (pool_lba s)}"
    using sorted_tbl_inj [OF srt'] lba(2) len by (simp add: v2_tbl_map_no_range [OF nr] inj_on_def)
  then have ok: "v2_ok s b'"
    using g lba pool lt' len by (simp add: v2_ok_def res)
  show ?thesis using v2_ok_cong [OF sg] ok sg srt' by (simp add: res)
qed

section \<open>Storing the table\<close>

lemma get_bmt_index_loop_zero:
  "n < length es \<Longrightarrow> bb_block (es ! n) = 0 \<Longrightarrow> \<forall>k < n. bb_mapped (es ! k) \<noteq> BMT_MAPPED \<Longrightarrow>
   get_bmt_index_loop i es = 0"
proof (induction i es arbitrary: n rule: get_bmt_index_loop.induct)
  case (2 i e es)
  show ?case
  proof (cases n)
    case 0
    with 2 show ?thesis by simp
  next
    case (Suc m)
    then have "bb_mapped e \<noteq> BMT_MAPPED" "\<forall>k < m. bb_mapped (es ! k) \<noteq> BMT_MAPPED"
      using 2(4) by force+
    with 2 Suc show ?thesis by auto
  qed
qed simp

lemma upload_bmt_loop_tags:
  "upload_bmt_loop drv n b s = (r, b', t) \<Longrightarrow>
   map bb_mapped (bmt_tbl b') = map bb_mapped (bmt_tbl b) \<and>
   (\<forall>k \<ge> n. k < length (bmt_tbl b) \<longrightarrow> bmt_tbl b' ! k = bmt_tbl b ! k)"
proof (induction n arbitrary: b s)
  case 0
  then show ?case by simp
next
  case (Suc n)
  let ?blk = "bb_block (bmt_at (bmt_tbl b) n)"
  obtain ret s1 where er: "bbt_nand_erase drv ?blk s = (ret, s1)" by fastforce
  let ?b1 = "b\<lparr>bb_signature := main_sig_v2, bb_version := BBMT_VERSION\<rparr>"
  obtain wret s2 where wr: "write_bmt drv oob_sig_v2 ?blk (bbbt_bytes ?b1) s1 = (wret, s2)" by fastforce
  have mp: "map bb_mapped ((bmt_tbl b)[n := (bmt_at (bmt_tbl b) n)\<lparr>bb_block := 0\<rparr>]) = map bb_mapped (bmt_tbl b)"
    by (cases "n < length (bmt_tbl b)") (simp_all add: map_update bmt_at_def list_update_beyond list_update_same_conv)
  have drop: "map bb_mapped (bmt_tbl b') = map bb_mapped (bmt_tbl b) \<and>
      (\<forall>k \<ge> Suc n. k < length (bmt_tbl b) \<longrightarrow> bmt_tbl b' ! k = bmt_tbl b ! k)"
    if "upload_bmt_loop drv n c u = (r, b', t)"
      "bmt_tbl c = (bmt_tbl b)[n := (bmt_at (bmt_tbl b) n)\<lparr>bb_block := 0\<rparr>]" for c u
    using Suc.IH [OF that(1)] mp by (auto simp: that(2))
  consider "bb_mapped (bmt_at (bmt_tbl b) n) = NORMAL_MAPPED \<or> (ret = 0 \<and> wret = 0)"
    | "bb_mapped (bmt_at (bmt_tbl b) n) \<noteq> NORMAL_MAPPED" "ret \<noteq> 0"
    | "bb_mapped (bmt_at (bmt_tbl b) n) \<noteq> NORMAL_MAPPED" "ret = 0" "wret \<noteq> 0"
    by blast
  then show ?case
  proof cases
    case 1
    with Suc.prems show ?thesis by (auto simp: er wr Let_def split: if_splits)
  next
    case 2
    with Suc.prems show ?thesis by (intro drop) (auto simp: er Let_def)
  next
    case 3
    with Suc.prems show ?thesis by (intro drop) (auto simp: er wr Let_def)
  qed
qed

text \<open>When the upload settles below the entry it started from, that entry has lost its block.\<close>

lemma upload_bmt_loop_dropped:
  assumes u: "upload_bmt_loop drv (Suc n) b s = (r, b', t)" and "n < length (bmt_tbl b)"
    and "r \<noteq> of_nat n" and "bb_mapped (bmt_tbl b ! n) \<noteq> NORMAL_MAPPED"
  shows "bb_block (bmt_tbl b' ! n) = 0"
proof -
  have e: "bmt_at (bmt_tbl b) n = bmt_tbl b ! n" using assms(2) by (simp add: bmt_at_def)
  obtain ret s1 where er: "bbt_nand_erase drv (bb_block (bmt_tbl b ! n)) s = (ret, s1)" by fastforce
  let ?b1 = "b\<lparr>bb_signature := main_sig_v2, bb_version := BBMT_VERSION\<rparr>"
  obtain wret s2 where wr: "write_bmt drv oob_sig_v2 (bb_block (bmt_tbl b ! n)) (bbbt_bytes ?b1) s1 = (wret, s2)"
    by fastforce
  obtain c v where c: "upload_bmt_loop drv n c v = (r, b', t)"
      "bmt_tbl c = (bmt_tbl b)[n := (bmt_tbl b ! n)\<lparr>bb_block := 0\<rparr>]"
  proof (cases "ret = 0")
    case True
    with u assms(3,4) have "upload_bmt_loop drv n (?b1\<lparr>bmt_tbl := (bmt_tbl ?b1)[n := (bmt_at (bmt_tbl ?b1) n)\<lparr>bb_block := 0\<rparr>]\<rparr>) s2
        = (r, b', t)"
      by (auto simp: e er wr Let_def split: if_splits)
    then show thesis by (rule that) (simp add: e)
  next
    case False
    with u assms(4) have "upload_bmt_loop drv n (b\<lparr>bmt_tbl := (bmt_tbl b)[n := (bmt_at (bmt_tbl b) n)\<lparr>bb_block := 0\<rparr>]\<rparr>) s1
        = (r, b', t)"
      by (auto simp: e er Let_def split: if_splits)
    then show thesis by (rule that) (simp add: e)
  qed
  then show ?thesis using upload_bmt_loop_tags [OF c(1)] assms(2) by auto
qed

section \<open>Searching for the table\<close>

lemma bmt_search_returns:
  assumes "0 < pool_lba s"
  shows "\<exists>t. bmt_search_loop drv bufsz block s = Some t \<and> pool_lba t = pool_lba s"
  using assms
proof (induction "unat block" arbitrary: block s rule: less_induct)
  case less
  show ?case
  proof (cases "bbt s = None \<and> block \<ge> pool_lba s")
    case False
    then show ?thesis by (subst bmt_search_loop.simps) auto
  next
    case True
    then have b: "unat (block - 1) < unat block"
      using less.prems by unat_arith
    obtain ret dat ob s1 where rd: "bbt_nand_read drv (blk_pg s block) (unat bufsz) 4 s = (ret, dat, ob, s1)"
      by (metis prod_cases4)
    have p: "pool_lba s1 = pool_lba s" using bbt_nand_read_frame [OF rd] by (simp add: io_upd_fields)
    have IH: "\<exists>t. bmt_search_loop drv bufsz (block - 1) u = Some t \<and> pool_lba t = pool_lba s"
      if "pool_lba u = pool_lba s" for u
      using less.hyps [OF b, of u] less.prems that by auto
    show ?thesis
      using True IH p by (subst bmt_search_loop.simps) (auto simp: rd Let_def)
  qed
qed

section \<open>Properties\<close>

text \<open>The example chip without remap ranges, an empty table for it, and what the initial scan makes
  of both when block 1 carries the factory marker.\<close>

definition ex_v2_chip :: "(nat \<Rightarrow> byte) bmt_desc" where
  "ex_v2_chip = ex_desc\<lparr>remap_range := None\<rparr>"

definition ex_v2_blank :: bbbt where
  "ex_v2_blank = \<lparr>bb_signature = [0xff, 0xff, 0xff], bb_version = 0xff, bb_tbl = replicate 8 0xffff,
     bmt_tbl = replicate 5 \<lparr>bb_block = 0, bb_mapped = 0\<rparr>\<rparr>"

definition ex_v2_table :: bbbt where
  "ex_v2_table = \<lparr>bb_signature = [0xff, 0xff, 0xff], bb_version = 0xff,
     bb_tbl = [0, 2, 3, 4, 0xffff, 0xffff, 0xffff, 0xffff],
     bmt_tbl = [\<lparr>bb_block = 5, bb_mapped = 0\<rparr>, \<lparr>bb_block = 6, bb_mapped = 0\<rparr>,
       \<lparr>bb_block = 7, bb_mapped = 2\<rparr>, \<lparr>bb_block = 0, bb_mapped = 0\<rparr>, \<lparr>bb_block = 0, bb_mapped = 0\<rparr>]\<rparr>"

definition ex_v2 :: "(nat \<Rightarrow> byte) bmt_desc" where
  "ex_v2 = (case scan_bad_blocks (ram_drv 4 [1]) ex_v2_blank ex_v2_chip of
     (r, b, t) \<Rightarrow> t\<lparr>bbt := Some b\<rparr>)"

lemma ex_v2_chip_ok:
  "geom_ok ex_v2_chip" "bbt_ranges ex_v2_chip = []" "pool_lba ex_v2_chip = 4" "total_blks ex_v2_chip = 8"
  "length (bb_tbl ex_v2_blank) = 8" "\<forall>e \<in> set (bmt_tbl ex_v2_blank). bb_block e = 0"
  by (simp_all add: ex_v2_chip_def ex_desc_def ex_mtd_def geom_ok_def chip_fits_def bbt_ranges_def ex_v2_blank_def)

lemma ex_v2_scan:
  "scan_bad_blocks (ram_drv 4 [1]) ex_v2_blank ex_v2_chip =
     (0, ex_v2_table, snd (snd (scan_bad_blocks (ram_drv 4 [1]) ex_v2_blank ex_v2_chip)))"
proof -
  have "fst (scan_bad_blocks (ram_drv 4 [1]) ex_v2_blank ex_v2_chip) = 0"
    and "fst (snd (scan_bad_blocks (ram_drv 4 [1]) ex_v2_blank ex_v2_chip)) = ex_v2_table"
    by code_simp+
  then show ?thesis by (metis prod.collapse)
qed

lemma ex_v2_fields: "cur_bbt ex_v2 = ex_v2_table" "bmt_blk_idx ex_v2 = 2" "pool_lba ex_v2 = 4"
  "blk_shift ex_v2 = 2" "pg_shift ex_v2 = 1" "bmt_pgs ex_v2 = 2" "pg_size ex_v2 = 2"
  "total_blks ex_v2 = 8" "remap_range ex_v2 = None" "erasesize (mtd ex_v2) = 4"
  by code_simp+

lemma ex_v2_nand: "nand ex_v2 x = 0xff"
  by code_simp

lemma ex_v2_ok: "v2_inv ex_v2" "pages_ok ex_v2" "table_fits ex_v2" "v2_store_ok ex_v2" "v2_lblks ex_v2 = 4"
proof -
  let ?t = "snd (snd (scan_bad_blocks (ram_drv 4 [1]) ex_v2_blank ex_v2_chip))"
  have x: "ex_v2 = ?t\<lparr>bbt := Some ex_v2_table\<rparr>"
    unfolding ex_v2_def by (subst ex_v2_scan) simp
  have "v2_ok ?t ex_v2_table"
    using scan_bad_blocks_ok [OF ex_v2_scan ex_v2_chip_ok(1,2)] ex_v2_chip_ok by simp
  then have "v2_ok ex_v2 ex_v2_table"
    unfolding x by (subst v2_ok_cong [of ?t]) (simp_all add: same_geom_def)
  then show "v2_inv ex_v2" by (simp add: v2_inv_def ex_v2_fields) (simp add: x)
  then show "pages_ok ex_v2" by (simp add: pages_ok_def v2_inv_def v2_ok_def ex_v2_fields)
  show "table_fits ex_v2" "v2_lblks ex_v2 = 4" by (simp_all add: table_fits_def v2_lblks_def ex_v2_fields)
  show "v2_store_ok ex_v2" unfolding v2_store_ok_def ex_v2_fields by code_simp
qed

text \<open>a successful initial scan establishes the invariant: \<open>bb_tbl\<close> is a strictly increasing list
  of blocks of the chip, so no two logical blocks share one, and the spare pool holds distinct
  blocks outside it.\<close>

theorem v2_scan_establishes:
  assumes "scan_bad_blocks drv b s = (0, b', t)" and "geom_ok s" and "bbt_ranges s = []"
    and "pool_lba s \<le> total_blks s" and "unat (pool_lba s) \<le> length (bb_tbl b)"
    and "0 < length (bb_tbl b)" and "0 < total_blks s" and "\<forall>e \<in> set (bmt_tbl b). bb_block e = 0"
  shows "v2_inv (t\<lparr>bbt := Some b'\<rparr>) \<and> sorted_wrt (<) (take (unat (pool_lba s)) (bb_tbl b'))"
proof -
  have ok: "v2_ok t b'" and s: "sorted_wrt (<) (take (unat (pool_lba s)) (bb_tbl b'))"
    using scan_bad_blocks_ok [OF assms(1-5,6-8)] by auto
  have "v2_ok (t\<lparr>bbt := Some b'\<rparr>) b'"
    using ok by (subst v2_ok_cong [of t]) (simp_all add: same_geom_def)
  with s show ?thesis by (simp add: v2_inv_def cur_bbt_def)
qed

theorem v2_scan_establishes_witness:
  "scan_bad_blocks (ram_drv 4 [1]) ex_v2_blank ex_v2_chip =
     (0, ex_v2_table, snd (snd (scan_bad_blocks (ram_drv 4 [1]) ex_v2_blank ex_v2_chip))) \<and>
   v2_inv ((snd (snd (scan_bad_blocks (ram_drv 4 [1]) ex_v2_blank ex_v2_chip)))\<lparr>bbt := Some ex_v2_table\<rparr>)"
  using v2_scan_establishes [OF ex_v2_scan ex_v2_chip_ok(1,2)] ex_v2_scan ex_v2_chip_ok by simp







text \<open>C38: when storing the table fails on its block and the upload falls back to an earlier pool block,
  the stored table can no longer be identified: no entry before the dropped one is tagged as the
  table's block, so \<open>get_bmt_index\<close> of it is 0, which the next start takes for a corrupt table.\<close>

theorem v2_fallback_table_rejected:
  assumes "upload_bmt drv b (int n) s = (r, b', t)" and "n < length (bmt_tbl b)"
    and "bb_mapped (bmt_tbl b ! n) = BMT_MAPPED" and "\<forall>k < n. bb_mapped (bmt_tbl b ! k) \<noteq> BMT_MAPPED"
    and "r \<noteq> of_nat n"
  shows "get_bmt_index (bmt_tbl b') = 0"
proof -
  have u: "upload_bmt_loop drv (Suc n) b s = (r, b', t)"
    using assms(1) by (simp add: upload_bmt_def nat_add_distrib)
  have tags: "map bb_mapped (bmt_tbl b') = map bb_mapped (bmt_tbl b)"
    using upload_bmt_loop_tags [OF u] by blast
  then have len: "length (bmt_tbl b') = length (bmt_tbl b)" by (metis length_map)
  have "bb_mapped (bmt_tbl b' ! k) = bb_mapped (bmt_tbl b ! k)" if "k < length (bmt_tbl b)" for k
    using tags len that by (metis nth_map)
  moreover have "bb_block (bmt_tbl b' ! n) = 0"
    using upload_bmt_loop_dropped [OF u assms(2,5)] assms(3) by simp
  ultimately show ?thesis
    using get_bmt_index_loop_zero [of n "bmt_tbl b'" 0] assms(2,4) len by (simp add: get_bmt_index_def)
qed

text \<open>A driver whose block 7 can no longer be erased.\<close>

definition worn_drv :: "(nat \<Rightarrow> byte) nand_drv" where
  "worn_drv = (ram_drv 4 [1])\<lparr>drv_erase := (\<lambda>a n d. if a = 28 then (- 5, d)
     else (0, (\<lambda>x. if a \<le> x \<and> x < a + n then 0xff else d x)))\<rparr>"

theorem v2_fallback_table_rejected_witness:
  "fst (upload_bmt worn_drv ex_v2_table 2 ex_v2) = 1 \<and>
   get_bmt_index (bmt_tbl (fst (snd (upload_bmt worn_drv ex_v2_table 2 ex_v2)))) = 0"
proof -
  obtain r b' t where u: "upload_bmt worn_drv ex_v2_table 2 ex_v2 = (r, b', t)" by (metis prod_cases3)
  have "fst (upload_bmt worn_drv ex_v2_table 2 ex_v2) = 1" by code_simp
  then have r: "r = 1" by (simp add: u)
  have "get_bmt_index (bmt_tbl b') = 0"
    by (rule v2_fallback_table_rejected [of worn_drv ex_v2_table 2 ex_v2 r b' t])
      (use u r in \<open>auto simp: ex_v2_table_def less_Suc_eq numeral_2_eq_2\<close>)
  then show ?thesis by (simp add: u r)
qed

lemma ucast_sub_add: "ucast (x - 2 :: u32) + 2 = (ucast x :: u16)"
proof -
  have "take_bit 16 (take_bit 32 (k - 2) + 2) = take_bit 16 k" for k :: int
  proof -
    have "take_bit 16 (take_bit 32 (k - 2) + 2) =
        take_bit 16 (take_bit 16 (take_bit 32 (k - 2)) + take_bit 16 2)"
      by (simp only: take_bit_add)
    also have "take_bit 16 (take_bit 32 (k - 2)) = take_bit 16 (k - 2)"
      by (subst take_bit_take_bit) (simp add: min_def)
    also have "take_bit 16 (take_bit 16 (k - 2) + take_bit 16 2) = take_bit 16 (k - 2 + 2)"
      by (simp only: take_bit_add)
    finally show ?thesis by simp
  qed
  then show ?thesis by transfer (simp add: take_bit_add)
qed

lemma v2_pool_lba_pos:
  assumes "v2_pool_size np < ucast (total_blks s)"
  shows "0 < pool_lba (v2_setup np s)"
proof -
  let ?p = "(ucast (total_blks s) :: u32) - v2_pool_size np"
  have lt: "unat (v2_pool_size np) < unat (total_blks s)"
    using assms by (simp add: word_less_nat_alt)
  have "unat ?p = unat (total_blks s) - unat (v2_pool_size np)"
    using assms by (subst unat_sub) simp_all
  then have "0 < unat ?p" "unat ?p < 2 ^ 16"
    using lt unat_bound [of "total_blks s"] by simp_all
  then have "unat (ucast ?p :: u16) \<noteq> 0"
    by (simp only: unsigned_ucast_eq) (simp add: take_bit_nat_eq_self)
  then have "0 < (ucast (?p - 2) + 2 :: u16)"
    unfolding ucast_sub_add by (auto simp: word_gt_0)
  then show ?thesis by (simp add: v2_setup_def Let_def)
qed

text \<open>initialising the v2 backend always returns when the spare pool is smaller than the chip (the
  search for a stored table then stops at the start of the pool).\<close>

theorem v2_init_returns:
  assumes "v2_pool_size np < ucast (total_blks s)"
  shows "\<exists>ret t. mtk_bmt_init_v2 drv np s = Some (ret, t)"
proof -
  have "0 < pool_lba (v2_setup np s)" using v2_pool_lba_pos [OF assms] .
  then have "\<exists>t. bmt_search_loop drv bufsz blk ((v2_setup np s)\<lparr>bbt_buf := buf, bbt := None\<rparr>) = Some t"
    for bufsz blk buf
    using bmt_search_returns [of "(v2_setup np s)\<lparr>bbt_buf := buf, bbt := None\<rparr>" drv bufsz blk] by auto
  then obtain t where "bmt_search_loop drv (v2_bufsz (table_size (v2_setup np s)) (pg_size (v2_setup np s)))
      (total_blks (v2_setup np s) - 1) ((v2_setup np s)\<lparr>bbt_buf := replicate (unat (v2_bufsz
        (table_size (v2_setup np s)) (pg_size (v2_setup np s)))) 0xff, bbt := None\<rparr>) = Some t" by blast
  then show ?thesis
    by (cases "v2_build drv t") (auto simp: mtk_bmt_init_v2_def Let_def)
qed

theorem v2_init_returns_witness:
  "\<exists>ret t. mtk_bmt_init_v2 (ram_drv 4 [1]) \<lparr>dt_node = True, dt_bmt_v2 = True, dt_nmbm = False, dt_bbt = False,
     dt_remap_range = None, dt_overridden_oobsize = None, dt_bmt_pool_size = Some 2, dt_bmt_oob_offset = None,
     dt_bmt_table_size = Some 8, dt_bmt_max_ratio = None, dt_bmt_max_reserved_blocks = None,
     dt_empty_page_ecc_protected = False, dt_bmt_force_create = False, alloc_data_buf_ok = True,
     alloc_table_ok = True, debugfs_ok = True\<rparr> ex_v2_chip = Some (ret, t)"
  by (rule v2_init_returns) (simp add: ex_v2_chip_ok v2_pool_size_def)

end
