(* ===== verification/Nmbm_Base.thy ===== *)
theory Nmbm_Base
  imports Bmt_Local
begin

text \<open>
  The passive half of the \<open>mediatek,nmbm\<close> backend (\<open>mtk_bmt_nmbm.c\<close>): the on-flash structures and
  their checksums, the block-state bitmap, the walks over good blocks and the initial mapping
  table. Nothing here touches the chip except the scan for factory bad blocks.

  The instance \<open>struct nmbm_instance\<close> is passed and returned explicitly as \<open>n\<close>. Structures are
  stored in the byte order of a little-endian CPU. The kernel's \<open>crc32_le\<close> is the parameter
  \<open>crc\<close>.
\<close>

section \<open>Constants\<close>

abbreviation (input) NMBM_MAGIC_SIGNATURE :: u32 where "NMBM_MAGIC_SIGNATURE \<equiv> 0x304d4d4e"
abbreviation (input) NMBM_MAGIC_INFO_TABLE :: u32 where "NMBM_MAGIC_INFO_TABLE \<equiv> 0x314d4d4e"
abbreviation (input) BLOCK_ST_BAD :: u32 where "BLOCK_ST_BAD \<equiv> 0"
abbreviation (input) BLOCK_ST_NEED_REMAP :: u32 where "BLOCK_ST_NEED_REMAP \<equiv> 2"
abbreviation (input) BLOCK_ST_GOOD :: u32 where "BLOCK_ST_GOOD \<equiv> 3"
abbreviation (input) BLOCK_ST_MASK :: u32 where "BLOCK_ST_MASK \<equiv> 3"
abbreviation (input) NMBM_MGMT_DIV :: u32 where "NMBM_MGMT_DIV \<equiv> 16"
abbreviation (input) NMBM_TRY_COUNT :: nat where "NMBM_TRY_COUNT \<equiv> 3"

definition NMBM_VERSION_MAKE :: "u32 \<Rightarrow> u32 \<Rightarrow> u32" where
  "NMBM_VERSION_MAKE major minor = (major AND 0xffff) OR push_bit 16 (minor AND 0xffff)"

definition NMBM_VER :: u32 where
  "NMBM_VER = NMBM_VERSION_MAKE 1 0"

section \<open>Checksums\<close>

type_synonym crc_fn = "u32 \<Rightarrow> byte list \<Rightarrow> u32"

text \<open>\<open>crc32_le\<close> is called on chunks of at most \<open>UINT_MAX\<close> bytes.\<close>

function nmbm_crc32 :: "crc_fn \<Rightarrow> u32 \<Rightarrow> byte list \<Rightarrow> u32" where
  "nmbm_crc32 crc crcval buf =
     (if buf = [] then crcval
      else let chksz = (if length buf > 4294967295 then 4294967295 else length buf)
           in nmbm_crc32 crc (crc crcval (take chksz buf)) (drop chksz buf))"
  by pat_completeness auto
termination
  by (relation "measure (\<lambda>(crc, c, buf). length buf)") auto

declare nmbm_crc32.simps [simp del]

section \<open>Structures and their bytes\<close>

definition header_bytes :: "nmbm_header \<Rightarrow> byte list" where
  "header_bytes h = le32_bytes (hdr_magic h) @ le32_bytes (hdr_version h) @ le32_bytes (hdr_size h) @
     le32_bytes (hdr_checksum h)"

definition header_of :: "byte list \<Rightarrow> nmbm_header" where
  "header_of bs = \<lparr>hdr_magic = le32_of bs, hdr_version = le32_of (drop 4 bs),
     hdr_size = le32_of (drop 8 bs), hdr_checksum = le32_of (drop 12 bs)\<rparr>"

text \<open>\<open>sizeof(struct nmbm_signature)\<close> is 48: the last eight bytes are \<open>max_try_count\<close>, the
  declared padding and the compiler's tail padding, kept together in \<open>sig_padding\<close>.\<close>

definition sig_bytes :: "nmbm_signature \<Rightarrow> byte list" where
  "sig_bytes g = header_bytes (sig_header g) @ le64_bytes (sig_nand_size g) @
     le32_bytes (sig_block_size g) @ le32_bytes (sig_page_size g) @ le32_bytes (sig_spare_size g) @
     le32_bytes (sig_mgmt_start_pb g) @ [sig_max_try_count g] @ sig_padding g"

definition sig_of :: "byte list \<Rightarrow> nmbm_signature" where
  "sig_of bs = \<lparr>sig_header = header_of bs, sig_nand_size = le64_of (drop 16 bs),
     sig_block_size = le32_of (drop 24 bs), sig_page_size = le32_of (drop 28 bs),
     sig_spare_size = le32_of (drop 32 bs), sig_mgmt_start_pb = le32_of (drop 36 bs),
     sig_max_try_count = cell bs 40, sig_padding = take 7 (drop 41 bs)\<rparr>"

definition ift_bytes :: "nmbm_info_table_header \<Rightarrow> byte list" where
  "ift_bytes h = header_bytes (ift_header h) @ le32_bytes (ift_write_count h) @
     le32_bytes (ift_state_table_off h) @ le32_bytes (ift_mapping_table_off h) @
     le32_bytes (ift_padding h)"

definition ift_of :: "byte list \<Rightarrow> nmbm_info_table_header" where
  "ift_of bs = \<lparr>ift_header = header_of bs, ift_write_count = le32_of (drop 16 bs),
     ift_state_table_off = le32_of (drop 20 bs), ift_mapping_table_off = le32_of (drop 24 bs),
     ift_padding = le32_of (drop 28 bs)\<rparr>"

text \<open>The arrays \<open>block_state\<close> and \<open>block_mapping\<close> as bytes.\<close>

definition u32s_bytes :: "u32 list \<Rightarrow> byte list" where
  "u32s_bytes ws = concat (map le32_bytes ws)"

fun u32s_of :: "nat \<Rightarrow> byte list \<Rightarrow> u32 list" where
  "u32s_of 0 bs = []"
| "u32s_of (Suc n) bs = le32_of bs # u32s_of n (drop 4 bs)"

definition nmbm_check_header :: "crc_fn \<Rightarrow> byte list \<Rightarrow> u32 \<Rightarrow> bool" where
  "nmbm_check_header crc dat sz =
     (let hdr = header_of dat
      in if hdr_size hdr > sz then False
         else let c0 = nmbm_crc32 crc 0 (header_bytes (hdr\<lparr>hdr_checksum := 0\<rparr>));
                  c1 = (if unat (hdr_size hdr) > 16
                        then nmbm_crc32 crc c0 (take (unat (hdr_size hdr) - 16) (drop 16 dat))
                        else c0)
              in hdr_checksum hdr = c1)"

definition nmbm_update_checksum :: "crc_fn \<Rightarrow> byte list \<Rightarrow> byte list" where
  "nmbm_update_checksum crc dat =
     (let dat0 = memcpy_at dat 12 (le32_bytes 0);
          c = nmbm_crc32 crc 0 (take (unat (hdr_size (header_of dat0))) dat0)
      in memcpy_at dat0 12 (le32_bytes c))"

section \<open>Address conversion and spare blocks\<close>

definition ba2addr :: "'d bmt_desc \<Rightarrow> u32 \<Rightarrow> loff" where
  "ba2addr s ba = blk_addr s (unat ba)"

definition size2blk :: "'d bmt_desc \<Rightarrow> nat \<Rightarrow> u32" where
  "size2blk s sz = of_nat ((sz + unat (blk_size s) - 1) div 2 ^ unat (blk_shift s))"

definition nmbm_get_spare_block_count :: "u32 \<Rightarrow> u32" where
  "nmbm_get_spare_block_count blocks =
     (let val = (blocks + 1) div 2 * 1 in if val < 2 then 2 else val)"

section \<open>The block-state bitmap\<close>

definition st_shift :: "u32 \<Rightarrow> nat" where
  "st_shift ba = unat (ba mod 16) * 2"

definition nmbm_get_block_state_raw :: "u32 list \<Rightarrow> u32 \<Rightarrow> u32" where
  "nmbm_get_block_state_raw st ba =
     drop_bit (st_shift ba) (cell st (unat (ba div 16))) AND BLOCK_ST_MASK"

definition nmbm_get_block_state :: "nmbm_instance \<Rightarrow> u32 \<Rightarrow> u32" where
  "nmbm_get_block_state n ba = nmbm_get_block_state_raw (block_state n) ba"

definition nmbm_set_block_state :: "nmbm_instance \<Rightarrow> u32 \<Rightarrow> u32 \<Rightarrow> bool \<times> nmbm_instance" where
  "nmbm_set_block_state n ba state =
     (let i = unat (ba div 16);
          orig = drop_bit (st_shift ba) (cell (block_state n) i) AND BLOCK_ST_MASK;
          st = state AND BLOCK_ST_MASK;
          uv = (cell (block_state n) i AND NOT (push_bit (st_shift ba) BLOCK_ST_MASK))
               OR push_bit (st_shift ba) st;
          n1 = n\<lparr>block_state := (block_state n)[i := uv]\<rparr>
      in if orig \<noteq> st then (True, n1\<lparr>block_state_changed := block_state_changed n1 + 1\<rparr>)
         else (False, n1))"

abbreviation set_state :: "nmbm_instance \<Rightarrow> u32 \<Rightarrow> u32 \<Rightarrow> nmbm_instance" where
  "set_state n ba state \<equiv> snd (nmbm_set_block_state n ba state)"

section \<open>Walks over good blocks\<close>

text \<open>The result is the block stored through \<open>*nba\<close>, or \<open>None\<close> for \<open>false\<close>. \<open>nblock\<close> is the
  signed counter of the source.\<close>

function walk_asc_loop :: "nmbm_instance \<Rightarrow> u32 \<Rightarrow> int \<Rightarrow> u32 \<Rightarrow> u32 option" where
  "walk_asc_loop n ba nblock limit =
     (if ba < limit then
        let nb = (if nmbm_get_block_state n ba = BLOCK_ST_GOOD then nblock - 1 else nblock)
        in if nb < 0 then Some ba else walk_asc_loop n (ba + 1) nb limit
      else None)"
  by pat_completeness auto
termination
  by (relation "measure (\<lambda>(n, ba, nb, limit). unat limit - unat ba)") (auto intro: word_Suc_measure)

declare walk_asc_loop.simps [simp del]

definition nmbm_block_walk_asc :: "nmbm_instance \<Rightarrow> u32 \<Rightarrow> u32 \<Rightarrow> u32 \<Rightarrow> u32 option" where
  "nmbm_block_walk_asc n ba count limit =
     walk_asc_loop n ba (sint count) (if limit \<ge> block_count n then block_count n - 1 else limit)"

function walk_desc_loop :: "nmbm_instance \<Rightarrow> u32 \<Rightarrow> int \<Rightarrow> u32 \<Rightarrow> u32 option" where
  "walk_desc_loop n ba nblock limit =
     (if ba > limit then
        let nb = (if nmbm_get_block_state n ba = BLOCK_ST_GOOD then nblock - 1 else nblock)
        in if nb < 0 then Some ba else walk_desc_loop n (ba - 1) nb limit
      else None)"
  by pat_completeness auto
termination
  by (relation "measure (\<lambda>(n, ba, nb, limit). unat ba)")
    (auto simp: unat_pred_greater word_less_nat_alt)

declare walk_desc_loop.simps [simp del]

definition nmbm_block_walk_desc :: "nmbm_instance \<Rightarrow> u32 \<Rightarrow> u32 \<Rightarrow> u32 \<Rightarrow> u32 option" where
  "nmbm_block_walk_desc n ba count limit =
     walk_desc_loop n ba (sint count) (if limit \<ge> block_count n then block_count n - 1 else limit)"

definition nmbm_block_walk :: "nmbm_instance \<Rightarrow> bool \<Rightarrow> u32 \<Rightarrow> u32 \<Rightarrow> u32 \<Rightarrow> u32 option" where
  "nmbm_block_walk n ascending ba count limit =
     (if ascending then nmbm_block_walk_asc n ba count limit
      else nmbm_block_walk_desc n ba count limit)"

section \<open>Bad-block scan and initial mapping\<close>

text \<open>\<open>bool\<close> return of \<open>_block_isbad\<close>: any non-zero value, negative ones included.\<close>

definition nmbm_check_bad_phys_block ::
  "'d nand_drv \<Rightarrow> u32 \<Rightarrow> 'd bmt_desc \<Rightarrow> bool \<times> 'd bmt_desc"
where
  "nmbm_check_bad_phys_block drv ba s =
     (let (ret, d) = drv_block_isbad drv (ba2addr s ba) (nand s) in (ret \<noteq> 0, s\<lparr>nand := d\<rparr>))"

definition nmbm_mark_phys_bad_block :: "'d nand_drv \<Rightarrow> u32 \<Rightarrow> 'd bmt_desc \<Rightarrow> int \<times> 'd bmt_desc" where
  "nmbm_mark_phys_bad_block drv ba s =
     (let (ret, d) = drv_block_markbad drv (ba2addr s ba) (nand s) in (ret, s\<lparr>nand := d\<rparr>))"

fun scan_badblocks_loop ::
  "'d nand_drv \<Rightarrow> nat list \<Rightarrow> nmbm_instance \<Rightarrow> 'd bmt_desc \<Rightarrow> nmbm_instance \<times> 'd bmt_desc"
where
  "scan_badblocks_loop drv [] n s = (n, s)"
| "scan_badblocks_loop drv (ba # bas) n s =
     (let (bad, s1) = nmbm_check_bad_phys_block drv (of_nat ba) s;
          n1 = (if bad then set_state n (of_nat ba) BLOCK_ST_BAD else n)
      in scan_badblocks_loop drv bas n1 s1)"

definition nmbm_scan_badblocks ::
  "'d nand_drv \<Rightarrow> nmbm_instance \<Rightarrow> 'd bmt_desc \<Rightarrow> nmbm_instance \<times> 'd bmt_desc"
where
  "nmbm_scan_badblocks drv n s = scan_badblocks_loop drv [0..<unat (block_count n)] n s"

fun build_map_loop :: "nmbm_instance \<Rightarrow> nat list \<Rightarrow> nat \<Rightarrow> u32 list \<Rightarrow> nat \<times> u32 list" where
  "build_map_loop n [] lb m = (lb, m)"
| "build_map_loop n (pb # pbs) lb m =
     (if nmbm_get_block_state n (of_nat pb) = BLOCK_ST_BAD then build_map_loop n pbs lb m
      else build_map_loop n pbs (Suc lb) (m[lb := of_nat pb]))"

definition nmbm_build_mapping_table :: "nmbm_instance \<Rightarrow> nmbm_instance" where
  "nmbm_build_mapping_table n =
     (let (lb, m) = build_map_loop n [0..<unat (mgmt_start_ba n)] 0 (block_mapping n)
      in n\<lparr>data_block_count := of_nat lb,
           block_mapping := fold (\<lambda>pb m. m[pb := - 1]) [lb..<unat (block_count n)] m\<rparr>)"

section \<open>Round trips of the structures\<close>

lemma le64_of_bytes [simp, byte_simps]: "le64_of (le64_bytes w @ rest) = w"
proof -
  have d: "drop 4 (le64_bytes w @ rest) = le32_bytes (ucast (drop_bit 32 w)) @ rest"
    by (simp add: le64_bytes_def)
  have "le32_of (le64_bytes w @ rest) = ucast w"
    by (simp add: le64_bytes_def)
  then have "le64_of (le64_bytes w @ rest) = (ucast (ucast w :: u32) :: u64) OR push_bit 32 (ucast (ucast (drop_bit 32 w) :: u32))"
    unfolding le64_of_def d by simp
  also have "\<dots> = w"
  proof (rule bit_word_eqI)
    fix k assume "k < LENGTH(64)"
    then show "bit ((ucast (ucast w :: u32) :: u64) OR push_bit 32 (ucast (ucast (drop_bit 32 w) :: u32))) k = bit w k"
      by (cases "k < 32") (auto simp: bit_simps)
  qed
  finally show ?thesis .
qed

lemma drop_le32 [simp]: "drop 4 (le32_bytes w @ r) = r"
  by simp

lemma length_structs [simp]:
  "length (header_bytes h) = 16" "length (ift_bytes i) = 32"
  "length (sig_padding g) = 7 \<Longrightarrow> length (sig_bytes g) = 48"
  by (simp_all add: header_bytes_def ift_bytes_def sig_bytes_def)

lemma header_roundtrip [simp, byte_simps]: "header_of (header_bytes h @ r) = h"
proof -
  have "drop 8 (header_bytes h @ r) = le32_bytes (hdr_size h) @ le32_bytes (hdr_checksum h) @ r"
    "drop 12 (header_bytes h @ r) = le32_bytes (hdr_checksum h) @ r"
    "drop 4 (header_bytes h @ r) = le32_bytes (hdr_version h) @ le32_bytes (hdr_size h) @ le32_bytes (hdr_checksum h) @ r"
    by (simp_all add: header_bytes_def)
  moreover have "le32_of (header_bytes h @ r) = hdr_magic h" by (simp add: header_bytes_def)
  ultimately show ?thesis by (simp add: header_of_def)
qed

lemma ift_roundtrip [simp, byte_simps]: "ift_of (ift_bytes h @ r) = h"
proof -
  have "drop 16 (ift_bytes h @ r) = le32_bytes (ift_write_count h) @ le32_bytes (ift_state_table_off h) @
        le32_bytes (ift_mapping_table_off h) @ le32_bytes (ift_padding h) @ r"
    "drop 20 (ift_bytes h @ r) = le32_bytes (ift_state_table_off h) @
        le32_bytes (ift_mapping_table_off h) @ le32_bytes (ift_padding h) @ r"
    "drop 24 (ift_bytes h @ r) = le32_bytes (ift_mapping_table_off h) @ le32_bytes (ift_padding h) @ r"
    "drop 28 (ift_bytes h @ r) = le32_bytes (ift_padding h) @ r"
    by (simp_all add: ift_bytes_def)
  moreover have "header_of (ift_bytes h @ r) = ift_header h" by (simp add: ift_bytes_def)
  ultimately show ?thesis by (simp add: ift_of_def)
qed

lemma sig_roundtrip [byte_simps]:
  assumes "length (sig_padding g) = 7"
  shows "sig_of (sig_bytes g @ r) = g"
proof -
  have d: "drop 16 (sig_bytes g @ r) = le64_bytes (sig_nand_size g) @ le32_bytes (sig_block_size g) @
      le32_bytes (sig_page_size g) @ le32_bytes (sig_spare_size g) @ le32_bytes (sig_mgmt_start_pb g) @
      [sig_max_try_count g] @ sig_padding g @ r"
    "drop 24 (sig_bytes g @ r) = le32_bytes (sig_block_size g) @
      le32_bytes (sig_page_size g) @ le32_bytes (sig_spare_size g) @ le32_bytes (sig_mgmt_start_pb g) @
      [sig_max_try_count g] @ sig_padding g @ r"
    "drop 28 (sig_bytes g @ r) = le32_bytes (sig_page_size g) @ le32_bytes (sig_spare_size g) @
      le32_bytes (sig_mgmt_start_pb g) @ [sig_max_try_count g] @ sig_padding g @ r"
    "drop 32 (sig_bytes g @ r) = le32_bytes (sig_spare_size g) @ le32_bytes (sig_mgmt_start_pb g) @
      [sig_max_try_count g] @ sig_padding g @ r"
    "drop 36 (sig_bytes g @ r) = le32_bytes (sig_mgmt_start_pb g) @ [sig_max_try_count g] @ sig_padding g @ r"
    "drop 41 (sig_bytes g @ r) = sig_padding g @ r"
    by (simp_all add: sig_bytes_def)
  have "cell (sig_bytes g @ r) 40 = sig_max_try_count g"
    by (simp add: sig_bytes_def cell_def nth_append)
  moreover have "header_of (sig_bytes g @ r) = sig_header g" by (simp add: sig_bytes_def)
  ultimately show ?thesis
    using assms by (simp only: sig_of_def d le32_of_bytes le64_of_bytes) simp
qed

lemma u32s_of_bytes [simp, byte_simps]: "u32s_of (length ws) (u32s_bytes ws @ r) = ws"
  by (induction ws) (auto simp: u32s_bytes_def)

lemma length_u32s_bytes [simp]: "length (u32s_bytes ws) = 4 * length ws"
  by (induction ws) (auto simp: u32s_bytes_def)

lemma length_u32s_of [simp]: "length (u32s_of k bs) = k"
  by (induction k arbitrary: bs) auto

section \<open>Checksums\<close>

text \<open>What the stack relies on of \<open>crc32_le\<close>: the checksum of a buffer can be computed piecewise.\<close>

definition crc_incremental :: "crc_fn \<Rightarrow> bool" where
  "crc_incremental crc \<longleftrightarrow> (\<forall>c xs ys. crc (crc c xs) ys = crc c (xs @ ys))"

lemma nmbm_crc32_eq:
  assumes "crc_incremental crc"
  shows "nmbm_crc32 crc c buf = (if buf = [] then c else crc c buf)"
  using assms
proof (induction crc c buf rule: nmbm_crc32.induct)
  case (1 crc c buf)
  show ?case
  proof (cases "buf = []")
    case True
    then show ?thesis by (simp add: nmbm_crc32.simps)
  next
    case False
    define k where "k = (if length buf > 4294967295 then 4294967295 else length buf)"
    have "nmbm_crc32 crc c buf = nmbm_crc32 crc (crc c (take k buf)) (drop k buf)"
      using False by (subst nmbm_crc32.simps) (simp add: k_def Let_def)
    also have "\<dots> = (if drop k buf = [] then crc c (take k buf) else crc (crc c (take k buf)) (drop k buf))"
      using 1(1) [OF False k_def 1(2)] .
    also have "\<dots> = crc c buf"
      using 1(2) append_take_drop_id [of k buf] unfolding crc_incremental_def
      by (metis append_Nil2)
    finally show ?thesis using False by simp
  qed
qed

lemma nmbm_crc32_append:
  assumes "crc_incremental crc"
  shows "nmbm_crc32 crc (nmbm_crc32 crc c xs) ys = nmbm_crc32 crc c (xs @ ys)"
  using assms unfolding nmbm_crc32_eq [OF assms] by (simp add: crc_incremental_def)

lemma header_bytes_of:
  assumes "16 \<le> length dat"
  shows "header_bytes (header_of dat) = take 16 dat"
proof -
  have le: "le32_bytes (le32_of (a # b # c # d # r)) = [a, b, c, d]" for a b c d r
  proof -
    have "ucast (le32_of (a # b # c # d # r)) = a"
      "ucast (drop_bit 8 (le32_of (a # b # c # d # r))) = b"
      "ucast (drop_bit 16 (le32_of (a # b # c # d # r))) = c"
      "ucast (drop_bit 24 (le32_of (a # b # c # d # r))) = d"
      by (rule bit_word_eqI, auto simp: bit_simps dest: bit_imp_le_length)+
    then show ?thesis by (simp add: le32_bytes_def)
  qed
  have four: "\<exists>a b c d r. xs = a # b # c # d # r" if "4 \<le> length xs" for xs :: "byte list"
    using that by (auto simp: numeral_eq_Suc Suc_le_length_iff)
  have w: "le32_bytes (le32_of xs) = take 4 xs" if "4 \<le> length xs" for xs
    using four [OF that] le by auto
  have "take 16 dat = take 4 dat @ take 4 (drop 4 dat) @ take 4 (drop 8 dat) @ take 4 (drop 12 dat)"
    using take_add [of 4 12 dat] take_add [of 4 8 "drop 4 dat"] take_add [of 4 4 "drop 8 dat"] by simp
  then show ?thesis
    using assms by (simp add: header_bytes_def header_of_def w)
qed

lemma update_checksum_shape:
  assumes "16 \<le> length dat" and h_def: "h = header_of dat"
    and c_def: "c = nmbm_crc32 crc 0 (take (unat (hdr_size h)) (header_bytes (h\<lparr>hdr_checksum := 0\<rparr>) @ drop 16 dat))"
  shows "nmbm_update_checksum crc dat = header_bytes (h\<lparr>hdr_checksum := c\<rparr>) @ drop 16 dat"
proof -
  have hb: "header_bytes (h\<lparr>hdr_checksum := v\<rparr>) = take 12 (header_bytes h) @ le32_bytes v" for v
    by (simp add: header_bytes_def)
  have t12: "take 12 (header_bytes h) = take 12 dat"
    using assms(1) by (simp add: h_def header_bytes_of)
  have m: "memcpy_at dat 12 (le32_bytes 0) = header_bytes (h\<lparr>hdr_checksum := 0\<rparr>) @ drop 16 dat"
    by (simp add: memcpy_at_def hb t12)
  have m2: "memcpy_at (header_bytes (h\<lparr>hdr_checksum := 0\<rparr>) @ drop 16 dat) 12 (le32_bytes v) =
      header_bytes (h\<lparr>hdr_checksum := v\<rparr>) @ drop 16 dat" for v
    using assms(1) unfolding hb t12 by (simp add: memcpy_at_def)
  show ?thesis
    unfolding nmbm_update_checksum_def Let_def m by (simp add: m2 c_def)
qed

text \<open>A structure whose checksum was just updated passes the check, in a buffer of any size that
  holds it.\<close>

lemma check_updated_checksum:
  assumes crc: "crc_incremental crc" and "16 \<le> unat (hdr_size (header_of dat))"
    and "unat (hdr_size (header_of dat)) \<le> length dat" and "hdr_size (header_of dat) \<le> sz"
  shows "nmbm_check_header crc (nmbm_update_checksum crc dat) sz"
proof -
  have l: "16 \<le> length dat" using assms(2,3) by simp
  define h where "h = header_of dat"
  define c where "c = nmbm_crc32 crc 0 (take (unat (hdr_size h)) (header_bytes (h\<lparr>hdr_checksum := 0\<rparr>) @ drop 16 dat))"
  have u: "nmbm_update_checksum crc dat = header_bytes (h\<lparr>hdr_checksum := c\<rparr>) @ drop 16 dat"
    using update_checksum_shape [OF l h_def c_def] .
  have "c = nmbm_crc32 crc (nmbm_crc32 crc 0 (header_bytes (h\<lparr>hdr_checksum := 0\<rparr>))) (take (unat (hdr_size h) - 16) (drop 16 dat))"
    using assms(2) by (simp add: c_def nmbm_crc32_append [OF crc] h_def)
  moreover have "nmbm_crc32 crc (nmbm_crc32 crc 0 (header_bytes (h\<lparr>hdr_checksum := 0\<rparr>))) (take (unat (hdr_size h) - 16) (drop 16 dat))
     = nmbm_crc32 crc 0 (header_bytes (h\<lparr>hdr_checksum := 0\<rparr>))" if "\<not> 16 < unat (hdr_size h)"
    using that by (simp add: nmbm_crc32.simps)
  ultimately show ?thesis
    using assms(4) unfolding nmbm_check_header_def Let_def u by (auto simp: h_def not_less)
qed

section \<open>The block-state bitmap\<close>

text \<open>Writing a two-bit field of a word and reading it back.\<close>

definition put_field :: "nat \<Rightarrow> u32 \<Rightarrow> u32 \<Rightarrow> u32" where
  "put_field i v w = (w AND NOT (push_bit (i * 2) 3)) OR push_bit (i * 2) (v AND 3)"

definition get_field :: "nat \<Rightarrow> u32 \<Rightarrow> u32" where
  "get_field i w = drop_bit (i * 2) w AND 3"

lemma get_put_same:
  assumes "i < 16"
  shows "get_field i (put_field i v w) = v AND 3"
proof (rule bit_word_eqI)
  fix m assume "m < LENGTH(32)"
  show "bit (get_field i (put_field i v w)) m = bit (v AND 3) m"
    using assms unfolding get_field_def put_field_def three_eq_mask by (auto simp: bit_simps)
qed

lemma get_put_other:
  assumes "i \<noteq> j"
  shows "get_field j (put_field i v w) = get_field j w"
proof (rule bit_word_eqI)
  fix m assume "m < LENGTH(32)"
  have "\<not> (i * 2 \<le> j * 2 + m \<and> j * 2 + m - i * 2 < 2)" if "m < 2"
  proof
    assume "i * 2 \<le> j * 2 + m \<and> j * 2 + m - i * 2 < 2"
    with that show False using assms by presburger
  qed
  then show "bit (get_field j (put_field i v w)) m = bit (get_field j w) m"
    unfolding get_field_def put_field_def three_eq_mask
    by (auto simp: bit_simps dest: bit_imp_le_length)
qed

lemma get_state_raw_eq:
  "nmbm_get_block_state_raw st ba = get_field (unat ba mod 16) (cell st (unat ba div 16))"
  by (simp add: nmbm_get_block_state_raw_def st_shift_def get_field_def unat_mod unat_div)

lemma set_block_state_table:
  "block_state (set_state n ba v) = (block_state n)[unat ba div 16 :=
     put_field (unat ba mod 16) v (cell (block_state n) (unat ba div 16))]"
  by (simp add: nmbm_set_block_state_def Let_def st_shift_def put_field_def unat_mod unat_div)

lemma get_set_state:
  assumes "unat ba div 16 < length (block_state n)"
  shows "nmbm_get_block_state (set_state n ba v) c = (if c = ba then v AND 3 else nmbm_get_block_state n c)"
proof (cases "unat c div 16 = unat ba div 16")
  case False
  then have "c \<noteq> ba" by auto
  with False assms show ?thesis
    by (simp add: nmbm_get_block_state_def get_state_raw_eq set_block_state_table cell_update)
next
  case True
  then have "c = ba \<longleftrightarrow> unat c mod 16 = unat ba mod 16"
    by (metis div_mult_mod_eq unat_inj)
  then show ?thesis
    using True assms
    by (auto simp: nmbm_get_block_state_def get_state_raw_eq set_block_state_table cell_update
        get_put_same get_put_other)
qed

lemma get_set_bad:
  "unat ba div 16 < length (block_state n) \<Longrightarrow>
   nmbm_get_block_state (set_state n ba BLOCK_ST_BAD) c =
     (if c = ba then BLOCK_ST_BAD else nmbm_get_block_state n c)"
  by (simp add: get_set_state)

lemma set_state_fields [simp, frame_simps]:
  "block_mapping (set_state n ba v) = block_mapping n" "block_count (set_state n ba v) = block_count n"
  "length (block_state (set_state n ba v)) = length (block_state n)"
  "mgmt_start_ba (set_state n ba v) = mgmt_start_ba n" "data_block_count (set_state n ba v) = data_block_count n"
  "info_table_cache (set_state n ba v) = info_table_cache n" "info_table_size (set_state n ba v) = info_table_size n"
  "signature_ba (set_state n ba v) = signature_ba n" "mapping_blocks_ba (set_state n ba v) = mapping_blocks_ba n"
  "mapping_blocks_top_ba (set_state n ba v) = mapping_blocks_top_ba n"
  "main_table_ba (set_state n ba v) = main_table_ba n" "backup_table_ba (set_state n ba v) = backup_table_ba n"
  "rawpage_size (set_state n ba v) = rawpage_size n" "protected (set_state n ba v) = protected n"
  "block_mapping_changed (set_state n ba v) = block_mapping_changed n"
  "info_table (set_state n ba v) = info_table n" "signature (set_state n ba v) = signature n"
  "state_table_size (set_state n ba v) = state_table_size n"
  "mapping_table_size (set_state n ba v) = mapping_table_size n"
  "info_table_spare_blocks (set_state n ba v) = info_table_spare_blocks n"
  by (simp_all add: nmbm_set_block_state_def Let_def)

lemma set_state_changed:
  "block_state_changed (set_state n ba v) = block_state_changed n +
     (if nmbm_get_block_state n ba \<noteq> v AND 3 then 1 else 0)"
  by (simp add: nmbm_set_block_state_def Let_def nmbm_get_block_state_def nmbm_get_block_state_raw_def)

section \<open>Walks\<close>

text \<open>The good blocks of an interval, ascending.\<close>

definition good_blks :: "nmbm_instance \<Rightarrow> nat \<Rightarrow> nat \<Rightarrow> nat list" where
  "good_blks n a b = filter (\<lambda>x. nmbm_get_block_state n (of_nat x) = BLOCK_ST_GOOD) [a..<b]"

lemma good_blks_Cons:
  "a < b \<Longrightarrow> good_blks n a b = (if nmbm_get_block_state n (of_nat a) = BLOCK_ST_GOOD
     then a # good_blks n (Suc a) b else good_blks n (Suc a) b)"
  by (simp add: good_blks_def upt_conv_Cons)

lemma good_blks_snoc:
  "a \<le> b \<Longrightarrow> good_blks n a (Suc b) = (if nmbm_get_block_state n (of_nat b) = BLOCK_ST_GOOD
     then good_blks n a b @ [b] else good_blks n a b)"
  by (simp add: good_blks_def)

lemma good_blks_Nil [simp]: "b \<le> a \<Longrightarrow> good_blks n a b = []"
  by (simp add: good_blks_def)

lemma walk_asc_loop_eq:
  assumes "0 \<le> k"
  shows "walk_asc_loop n ba k limit =
     (if nat k < length (good_blks n (unat ba) (unat limit))
      then Some (of_nat (good_blks n (unat ba) (unat limit) ! nat k)) else None)"
  using assms
proof (induction n ba k limit rule: walk_asc_loop.induct)
  case (1 n ba k limit)
  show ?case
  proof (cases "ba < limit")
    case False
    then show ?thesis by (simp add: walk_asc_loop.simps word_less_nat_alt)
  next
    case True
    then have lt: "unat ba < unat limit" by (simp add: word_less_nat_alt)
    have s: "unat (ba + 1) = Suc (unat ba)" using True by (rule unat_Suc_less)
    show ?thesis
    proof (cases "nmbm_get_block_state n ba = BLOCK_ST_GOOD")
      case good: True
      show ?thesis
      proof (cases "k = 0")
        case True
        with good \<open>ba < limit\<close> lt show ?thesis
          by (subst walk_asc_loop.simps) (simp add: good_blks_Cons)
      next
        case False
        with 1 good True have "walk_asc_loop n (ba + 1) (k - 1) limit =
            (if nat (k - 1) < length (good_blks n (unat (ba + 1)) (unat limit))
             then Some (of_nat (good_blks n (unat (ba + 1)) (unat limit) ! nat (k - 1))) else None)"
          by simp
        moreover have "nat k = Suc (nat (k - 1))" using False 1(2) by simp
        ultimately show ?thesis
          using good True False 1(2) lt s by (subst walk_asc_loop.simps) (simp add: good_blks_Cons)
      qed
    next
      case False
      with 1 True have "walk_asc_loop n (ba + 1) k limit =
            (if nat k < length (good_blks n (unat (ba + 1)) (unat limit))
             then Some (of_nat (good_blks n (unat (ba + 1)) (unat limit) ! nat k)) else None)"
        by simp
      then show ?thesis
        using False True 1(2) lt s by (subst walk_asc_loop.simps) (simp add: good_blks_Cons)
    qed
  qed
qed

lemma walk_desc_loop_eq:
  assumes "0 \<le> k"
  shows "walk_desc_loop n ba k limit =
     (if nat k < length (good_blks n (Suc (unat limit)) (Suc (unat ba)))
      then Some (of_nat (rev (good_blks n (Suc (unat limit)) (Suc (unat ba))) ! nat k)) else None)"
  using assms
proof (induction n ba k limit rule: walk_desc_loop.induct)
  case (1 n ba k limit)
  show ?case
  proof (cases "ba > limit")
    case False
    then show ?thesis by (simp add: walk_desc_loop.simps word_less_nat_alt)
  next
    case True
    then have lt: "unat limit < unat ba" by (simp add: word_less_nat_alt)
    have s: "Suc (unat (ba - 1)) = unat ba" using True lt by (simp add: unat_pred_greater)
    note step = good_blks_snoc [of "Suc (unat limit)" "unat ba" n]
    show ?thesis
    proof (cases "nmbm_get_block_state n ba = BLOCK_ST_GOOD")
      case good: True
      show ?thesis
      proof (cases "k = 0")
        case True
        with good \<open>ba > limit\<close> lt show ?thesis
          by (subst walk_desc_loop.simps) (simp add: step)
      next
        case False
        with 1 good True have "walk_desc_loop n (ba - 1) (k - 1) limit =
            (if nat (k - 1) < length (good_blks n (Suc (unat limit)) (unat ba))
             then Some (of_nat (rev (good_blks n (Suc (unat limit)) (unat ba)) ! nat (k - 1))) else None)"
          using s by simp
        moreover have "nat k = Suc (nat (k - 1))" using False 1(2) by simp
        ultimately show ?thesis
          using good True False 1(2) lt by (subst walk_desc_loop.simps) (simp add: step)
      qed
    next
      case False
      with 1 True have "walk_desc_loop n (ba - 1) k limit =
            (if nat k < length (good_blks n (Suc (unat limit)) (unat ba))
             then Some (of_nat (rev (good_blks n (Suc (unat limit)) (unat ba)) ! nat k)) else None)"
        using s by simp
      then show ?thesis
        using False True 1(2) lt by (subst walk_desc_loop.simps) (simp add: step)
    qed
  qed
qed

section \<open>The initial mapping\<close>

text \<open>The blocks of an interval that are not known to be bad.\<close>

definition usable_blks :: "nmbm_instance \<Rightarrow> nat \<Rightarrow> nat list" where
  "usable_blks n k = filter (\<lambda>pb. nmbm_get_block_state n (of_nat pb) \<noteq> BLOCK_ST_BAD) [0..<k]"

lemma memcpy_at_step:
  "lb < length m \<Longrightarrow> lb + 1 + length xs \<le> length m \<Longrightarrow>
   memcpy_at (m[lb := x]) (Suc lb) xs = memcpy_at m lb (x # xs)"
  by (simp add: memcpy_at_def take_Suc_conv_app_nth)

lemma build_map_loop_eq:
  assumes "lb + length (filter (\<lambda>pb. nmbm_get_block_state n (of_nat pb) \<noteq> BLOCK_ST_BAD) pbs) \<le> length m"
  shows "build_map_loop n pbs lb m =
     (lb + length (filter (\<lambda>pb. nmbm_get_block_state n (of_nat pb) \<noteq> BLOCK_ST_BAD) pbs),
      memcpy_at m lb (map of_nat (filter (\<lambda>pb. nmbm_get_block_state n (of_nat pb) \<noteq> BLOCK_ST_BAD) pbs)))"
  using assms by (induction n pbs lb m rule: build_map_loop.induct) (auto simp: memcpy_at_step)

lemma fold_unmapped:
  "a \<le> b \<Longrightarrow> b \<le> length m \<Longrightarrow>
   fold (\<lambda>pb m. m[pb := (v :: 'a)]) [a..<b] m = take a m @ replicate (b - a) v @ drop b m"
proof (induction b arbitrary: m)
  case 0
  then show ?case by simp
next
  case (Suc b)
  show ?case
  proof (cases "a = Suc b")
    case True
    then show ?thesis by simp
  next
    case False
    with Suc.prems have ab: "a \<le> b" by simp
    have "fold (\<lambda>pb m. m[pb := v]) [a..<Suc b] m = (take a m @ replicate (b - a) v @ drop b m)[b := v]"
      using ab Suc by (simp add: upt_Suc_append)
    also have "\<dots> = take a m @ replicate (b - a) v @ v # drop (Suc b) m"
      using ab Suc.prems by (simp add: list_update_append Cons_nth_drop_Suc [symmetric])
    finally show ?thesis
      using ab by (simp add: Suc_diff_le replicate_append_same [symmetric])
  qed
qed

lemma build_mapping_table_eq:
  assumes "length (block_mapping n) = unat (block_count n)" and "unat (mgmt_start_ba n) \<le> unat (block_count n)"
  shows "nmbm_build_mapping_table n =
     n\<lparr>data_block_count := of_nat (length (usable_blks n (unat (mgmt_start_ba n)))),
       block_mapping := map of_nat (usable_blks n (unat (mgmt_start_ba n))) @
         replicate (unat (block_count n) - length (usable_blks n (unat (mgmt_start_ba n)))) (- 1)\<rparr>"
proof -
  let ?u = "usable_blks n (unat (mgmt_start_ba n))"
  have le: "length ?u \<le> unat (block_count n)"
    using length_filter_le [of "\<lambda>pb. nmbm_get_block_state n (of_nat pb) \<noteq> BLOCK_ST_BAD" "[0..<unat (mgmt_start_ba n)]"] assms(2)
    by (simp add: usable_blks_def)
  then have b: "build_map_loop n [0..<unat (mgmt_start_ba n)] 0 (block_mapping n) =
      (length ?u, memcpy_at (block_mapping n) 0 (map of_nat ?u))"
    using build_map_loop_eq [of 0 n "[0..<unat (mgmt_start_ba n)]" "block_mapping n"] assms(1)
    by (simp add: usable_blks_def)
  have "fold (\<lambda>pb m. m[pb := - 1]) [length ?u..<unat (block_count n)] (memcpy_at (block_mapping n) 0 (map of_nat ?u)) =
     map of_nat ?u @ replicate (unat (block_count n) - length ?u) (- 1)"
    using le assms(1) by (subst fold_unmapped) (auto simp: memcpy_at_def)
  then show ?thesis by (simp add: nmbm_build_mapping_table_def b)
qed

section \<open>The scan for factory bad blocks\<close>

text \<open>A driver whose bad-block query depends on the address only.\<close>

definition reports_bad :: "'d nand_drv \<Rightarrow> (loff \<Rightarrow> bool) \<Rightarrow> bool" where
  "reports_bad drv bad \<longleftrightarrow> (\<forall>a d. fst (drv_block_isbad drv a d) \<noteq> 0 \<longleftrightarrow> bad a)"

lemma check_bad_frame: "nmbm_check_bad_phys_block drv ba s = (b, t) \<Longrightarrow> io_upd s t"
  by (auto simp: nmbm_check_bad_phys_block_def split: prod.splits)

lemma mark_bad_frame: "nmbm_mark_phys_bad_block drv ba s = (b, t) \<Longrightarrow> io_upd s t"
  by (auto simp: nmbm_mark_phys_bad_block_def split: prod.splits)

lemma check_bad_reports:
  "reports_bad drv bad \<Longrightarrow> fst (nmbm_check_bad_phys_block drv ba s) = bad (ba2addr s ba)"
  by (auto simp: nmbm_check_bad_phys_block_def reports_bad_def split: prod.splits) (metis fst_conv)+

lemma scan_badblocks_loop_frame:
  "scan_badblocks_loop drv bas n s = (n', t) \<Longrightarrow> io_upd s t \<and> block_mapping n' = block_mapping n \<and>
     block_count n' = block_count n \<and> mgmt_start_ba n' = mgmt_start_ba n \<and>
     length (block_state n') = length (block_state n)"
proof (induction bas arbitrary: n s)
  case (Cons ba bas)
  obtain b s1 where c: "nmbm_check_bad_phys_block drv (of_nat ba) s = (b, s1)" by fastforce
  with Cons show ?case
    by (cases b) (auto dest!: check_bad_frame intro: io_upd_trans)
qed simp

lemma scan_badblocks_loop_states:
  assumes "reports_bad drv bad" and "\<forall>ba \<in> set bas. ba < 2 ^ 32 \<and> ba div 16 < length (block_state n)"
    and "scan_badblocks_loop drv bas n s = (n', t)"
  shows "nmbm_get_block_state n' c =
     (if unat c \<in> set bas \<and> bad (ba2addr s c) then BLOCK_ST_BAD else nmbm_get_block_state n c)"
  using assms(2,3)
proof (induction bas arbitrary: n s)
  case (Cons ba bas)
  obtain b s1 where c1: "nmbm_check_bad_phys_block drv (of_nat ba) s = (b, s1)" by fastforce
  have b: "b = bad (ba2addr s (of_nat ba))" using check_bad_reports [OF assms(1), of "of_nat ba" s] c1 by simp
  have adr: "ba2addr s1 x = ba2addr s x" for x
    using check_bad_frame [OF c1] by (simp add: ba2addr_def io_upd_blk_addr)
  have u: "unat (of_nat ba :: u32) = ba" using Cons.prems(1) by (simp add: unsigned_of_nat take_bit_nat_eq_self)
  let ?n1 = "if b then set_state n (of_nat ba) BLOCK_ST_BAD else n"
  have "nmbm_get_block_state n' c =
     (if unat c \<in> set bas \<and> bad (ba2addr s1 c) then BLOCK_ST_BAD else nmbm_get_block_state ?n1 c)"
    using Cons.prems c1 by (intro Cons.IH) (auto split: if_splits)
  moreover have "nmbm_get_block_state ?n1 c =
      (if b \<and> c = of_nat ba then BLOCK_ST_BAD else nmbm_get_block_state n c)"
    using Cons.prems(1) u by (auto simp: get_set_bad)
  moreover have "c = of_nat ba \<longleftrightarrow> unat c = ba" using u by (metis unat_inj)
  ultimately show ?case using adr b by auto
qed simp

section \<open>An example instance\<close>

text \<open>An instance for the example chip of eight blocks; block 3 is known to be bad. Blocks 0 to 3 hold
  data, so the three good ones serve three logical blocks.\<close>

definition ex_header :: nmbm_header where
  "ex_header = \<lparr>hdr_magic = NMBM_MAGIC_SIGNATURE, hdr_version = NMBM_VER, hdr_size = 48, hdr_checksum = 0\<rparr>"

definition ex_signature :: nmbm_signature where
  "ex_signature = \<lparr>sig_header = ex_header, sig_nand_size = 32, sig_block_size = 4, sig_page_size = 2,
     sig_spare_size = 4, sig_mgmt_start_pb = 4, sig_max_try_count = 3, sig_padding = replicate 7 0\<rparr>"

definition ex_nmbm :: nmbm_instance where
  "ex_nmbm = \<lparr>rawpage_size = 6, rawblock_size = 12, rawchip_size = 96, signature = ex_signature,
     info_table_cache = [1, 2, 3, 4, 5, 6], info_table_size = 6, info_table_spare_blocks = 2,
     info_table = \<lparr>ift_header = ex_header, ift_write_count = 1, ift_state_table_off = 0,
       ift_mapping_table_off = 0, ift_padding = 0\<rparr>,
     block_state = [0xffffff3f], block_state_changed = 0, state_table_size = 4,
     block_mapping = [0, 1, 2, - 1, - 1, - 1, - 1, - 1], block_mapping_changed = 0, mapping_table_size = 32,
     protected = False, block_count = 8, data_block_count = 3, mgmt_start_ba = 4, main_table_ba = 4,
     backup_table_ba = 0, mapping_blocks_ba = 5, mapping_blocks_top_ba = 6, signature_ba = 7,
     max_ratio = 1, max_reserved_blocks = 256, empty_page_ecc_ok = False, force_create = False\<rparr>"

section \<open>Properties\<close>

text \<open>C15: setting the state of a block changes exactly that block's two-bit field of the state bitmap,
  reports whether the state differs from the old one, and counts a change exactly then.\<close>

theorem nmbm_set_block_state_exact:
  assumes "unat ba div 16 < length (block_state n)" and "nmbm_set_block_state n ba v = (changed, n')"
  shows "nmbm_get_block_state n' c = (if c = ba then v AND 3 else nmbm_get_block_state n c) \<and>
     changed = (nmbm_get_block_state n ba \<noteq> v AND 3) \<and>
     block_state_changed n' = block_state_changed n + (if changed then 1 else 0)"
proof -
  have "changed = (nmbm_get_block_state n ba \<noteq> v AND 3)"
    using assms(2) by (auto simp: nmbm_set_block_state_def Let_def nmbm_get_block_state_def
        nmbm_get_block_state_raw_def split: if_splits)
  then show ?thesis
    using get_set_state [OF assms(1), of v c] set_state_changed [of n ba v] assms(2) by simp
qed

theorem nmbm_set_block_state_exact_witness:
  "\<exists>n'. nmbm_set_block_state ex_nmbm 5 0 = (True, n') \<and> nmbm_get_block_state n' 5 = 0 \<and>
     nmbm_get_block_state n' 4 = 3 \<and> nmbm_get_block_state n' 3 = 0 \<and> block_state_changed n' = 1"
proof -
  obtain ch n' where s: "nmbm_set_block_state ex_nmbm 5 0 = (ch, n')" by fastforce
  have g: "nmbm_get_block_state ex_nmbm 5 = 3" "nmbm_get_block_state ex_nmbm 4 = 3" "nmbm_get_block_state ex_nmbm 3 = 0"
    by code_simp+
  have "unat (5 :: u32) div 16 < length (block_state ex_nmbm)" by (simp add: ex_nmbm_def)
  from nmbm_set_block_state_exact [OF this s] have x: "nmbm_get_block_state n' c = (if c = 5 then 0 else nmbm_get_block_state ex_nmbm c)"
    "ch" "block_state_changed n' = block_state_changed ex_nmbm + 1" for c
    using g by simp_all
  then show ?thesis using s g by (simp add: ex_nmbm_def)
qed

text \<open>C27: the two directions of \<open>nmbm_block_walk\<close> compute the reference walk: skipping \<open>count\<close> good
  blocks upwards gives the next entry of the ascending list of good blocks from \<open>ba\<close> up to the
  limit, downwards that of the descending list from \<open>ba\<close> to above the limit, and failure when the
  list is too short. A limit outside the chip stands for the last block.\<close>

theorem nmbm_block_walk_reference:
  assumes "0 \<le> sint count" and "lim = (if limit \<ge> block_count n then block_count n - 1 else limit)"
    and "up = good_blks n (unat ba) (unat lim)" and "down = rev (good_blks n (Suc (unat lim)) (Suc (unat ba)))"
  shows "nmbm_block_walk n True ba count limit =
       (if nat (sint count) < length up then Some (of_nat (up ! nat (sint count))) else None) \<and>
     nmbm_block_walk n False ba count limit =
       (if nat (sint count) < length down then Some (of_nat (down ! nat (sint count))) else None)"
  using walk_asc_loop_eq [OF assms(1), of n ba lim] walk_desc_loop_eq [OF assms(1), of n ba lim]
  by (simp add: nmbm_block_walk_def nmbm_block_walk_asc_def nmbm_block_walk_desc_def assms(2-4))

theorem nmbm_block_walk_reference_witness:
  "nmbm_block_walk ex_nmbm True 2 1 7 = Some 4 \<and> nmbm_block_walk ex_nmbm False 4 1 0 = Some 2 \<and>
   nmbm_block_walk ex_nmbm True 5 2 9 = None"
proof -
  have g: "good_blks ex_nmbm 2 7 = [2, 4, 5, 6]" "good_blks ex_nmbm 1 5 = [1, 2, 4]" "good_blks ex_nmbm 5 7 = [5, 6]"
    by code_simp+
  have b: "block_count ex_nmbm = 8" by (simp add: ex_nmbm_def)
  show ?thesis
    using nmbm_block_walk_reference [where n = ex_nmbm and count = 1 and lim = 7 and limit = 7 and ba = 2, OF _ _ refl refl]
      nmbm_block_walk_reference [where n = ex_nmbm and count = 1 and lim = 0 and limit = 0 and ba = 4, OF _ _ refl refl]
      nmbm_block_walk_reference [where n = ex_nmbm and count = 2 and lim = 7 and limit = 9 and ba = 5, OF _ _ refl refl] g b
    by simp
qed

text \<open>on a new chip the scan and the initial table serve the data area without its factory bad
  blocks: after \<open>nmbm_scan_badblocks\<close> and \<open>nmbm_build_mapping_table\<close> logical block \<open>i\<close> is the
  \<open>i\<close>-th block below the management area that the driver does not report bad, every other entry is
  unmapped, and the number of logical blocks is the number of such blocks.\<close>

theorem nmbm_initial_mapping:
  assumes drv: "reports_bad drv bad" and fresh: "\<forall>c. unat c < unat (block_count n) \<longrightarrow> nmbm_get_block_state n c = BLOCK_ST_GOOD"
    and len: "length (block_mapping n) = unat (block_count n)" "unat (block_count n) \<le> 16 * length (block_state n)"
    and mgmt: "mgmt_start_ba n \<le> block_count n"
    and scan: "nmbm_scan_badblocks drv n s = (n1, t)"
    and us: "us = filter (\<lambda>b. \<not> bad (blk_addr s b)) [0..<unat (mgmt_start_ba n)]"
  shows "block_mapping (nmbm_build_mapping_table n1) =
       map of_nat us @ replicate (unat (block_count n) - length us) (- 1) \<and>
     data_block_count (nmbm_build_mapping_table n1) = of_nat (length us)"
proof -
  have K: "unat (block_count n) < 2 ^ 32" using unat_bound [of "block_count n"] by simp
  have fr: "block_mapping n1 = block_mapping n" "block_count n1 = block_count n" "mgmt_start_ba n1 = mgmt_start_ba n"
    using scan_badblocks_loop_frame [OF scan [unfolded nmbm_scan_badblocks_def]] by auto
  have st: "nmbm_get_block_state n1 c = (if unat c < unat (block_count n) \<and> bad (ba2addr s c) then BLOCK_ST_BAD
      else nmbm_get_block_state n c)" for c
    using scan_badblocks_loop_states [OF drv _ scan [unfolded nmbm_scan_badblocks_def], of c] len(2) K by fastforce
  have "usable_blks n1 (unat (mgmt_start_ba n)) = us"
    unfolding usable_blks_def us
  proof (rule filter_cong [OF refl])
    fix x assume "x \<in> set [0..<unat (mgmt_start_ba n)]"
    then have x: "x < unat (block_count n)" using mgmt by (simp add: word_le_nat_alt)
    then have "unat (of_nat x :: u32) = x" using K by (simp add: unsigned_of_nat take_bit_nat_eq_self)
    then show "(nmbm_get_block_state n1 (of_nat x) \<noteq> BLOCK_ST_BAD) = (\<not> bad (blk_addr s x))"
      using st [of "of_nat x"] fresh x by (simp add: ba2addr_def)
  qed
  then show ?thesis
    using build_mapping_table_eq [of n1] fr len(1) mgmt by (simp add: word_le_nat_alt)
qed

lemma ram_reports_bad: "reports_bad (ram_drv B bad) (\<lambda>a. a div B \<in> set bad)"
  by (simp add: reports_bad_def ram_drv_def)

theorem nmbm_initial_mapping_witness:
  "\<exists>n1 t. nmbm_scan_badblocks (ram_drv 4 [1, 6]) (ex_nmbm\<lparr>block_state := [0xffffffff]\<rparr>) ex_desc = (n1, t) \<and>
     block_mapping (nmbm_build_mapping_table n1) = [0, 2, 3, - 1, - 1, - 1, - 1, - 1] \<and>
     data_block_count (nmbm_build_mapping_table n1) = 3"
proof -
  let ?n = "ex_nmbm\<lparr>block_state := [0xffffffff]\<rparr>"
  obtain n1 t where s: "nmbm_scan_badblocks (ram_drv 4 [1, 6]) ?n ex_desc = (n1, t)" by fastforce
  have f: "\<forall>c. unat c < unat (block_count ?n) \<longrightarrow> nmbm_get_block_state ?n c = BLOCK_ST_GOOD"
  proof (intro allI impI)
    fix c :: u32 assume "unat c < unat (block_count ?n)"
    then have "unat c < 8" by (simp add: ex_nmbm_def)
    then have "c \<in> of_nat ` {0..<8}" by (intro image_eqI [of _ _ "unat c"]) auto
    then have "c \<in> set (map of_nat [0..<8])" by (simp only: set_map set_upt)
    moreover have "\<forall>c \<in> set (map of_nat [0..<8]). nmbm_get_block_state ?n c = 3" by code_simp
    ultimately show "nmbm_get_block_state ?n c = BLOCK_ST_GOOD" by blast
  qed
  have u: "[0, 2, 3] = filter (\<lambda>b. \<not> blk_addr ex_desc b div 4 \<in> set [1, 6]) [0..<unat (mgmt_start_ba ?n)]"
    by code_simp
  have "length (block_mapping ?n) = unat (block_count ?n)" "unat (block_count ?n) \<le> 16 * length (block_state ?n)"
    "mgmt_start_ba ?n \<le> block_count ?n" and k: "unat (block_count ?n) = 8"
    by (simp_all add: ex_nmbm_def)
  note m = nmbm_initial_mapping [OF ram_reports_bad f this(1-3) s u, unfolded k]
  have "replicate (8 - length [0 :: nat, 2, 3]) (- 1 :: u32) = [- 1, - 1, - 1, - 1, - 1]" by code_simp
  with m s show ?thesis by simp
qed


text \<open>A checksum that can be computed piecewise: the sum of the bytes.\<close>

definition sum_crc :: crc_fn where
  "sum_crc c bs = fold (\<lambda>b a. a + ucast b) bs c"

lemma sum_crc_incremental: "crc_incremental sum_crc"
  by (simp add: crc_incremental_def sum_crc_def)

end
