(* ===== verification/Nmbm_Phys.thy ===== *)
theory Nmbm_Phys
  imports Nmbm_Base
begin

text \<open>
  The chip operations of the \<open>mediatek,nmbm\<close> backend (\<open>mtk_bmt_nmbm.c\<close>): page reads and writes and
  block erases with retries, and on top of them the writes that verify what they stored and mark
  every block that fails as bad.

  \<open>ni->page_cache\<close> is \<open>bmtd.data_buf\<close>. A buffer argument is the list of its bytes, and a function
  that fills it returns the new list. The write size of a device is a non-zero power of two; for a
  page size of 0 the loops over pages would not make sense and the model runs them in one chunk.
\<close>

section \<open>Pages and blocks with retries\<close>

fun read_phys_loop ::
  "'d nand_drv \<Rightarrow> nat \<Rightarrow> loff \<Rightarrow> byte list option \<Rightarrow> byte list option \<Rightarrow> int \<Rightarrow> 'd bmt_desc \<Rightarrow>
   int \<times> byte list option \<times> byte list option \<times> 'd bmt_desc"
where
  "read_phys_loop drv 0 addr dat oob ret s = (ret, dat, oob, s)"
| "read_phys_loop drv (Suc k) addr dat oob ret s =
     (let (r, rd, ro, d) =
        drv_read_oob drv addr (if dat = None then 0 else unat (pg_size s)) 0
          (if oob = None then 0 else unat (oobsize (mtd s))) (nand s);
        dat1 = map_option (\<lambda>b. memcpy_at b 0 rd) dat;
        oob1 = map_option (\<lambda>b. memcpy_at b 0 ro) oob;
        s1 = s\<lparr>nand := d\<rparr>
      in if r = - EUCLEAN
         then (sint (min (bitflip_threshold (mtd s) + 1) (ecc_strength (mtd s))), dat1, oob1, s1)
         else if r \<ge> 0 then (0, dat1, oob1, s1)
         else read_phys_loop drv k addr dat1 oob1 r s1)"

definition nmbm_read_phys_page ::
  "'d nand_drv \<Rightarrow> loff \<Rightarrow> byte list option \<Rightarrow> byte list option \<Rightarrow> 'd bmt_desc \<Rightarrow>
   int \<times> byte list option \<times> byte list option \<times> 'd bmt_desc"
where
  "nmbm_read_phys_page drv addr dat oob s = read_phys_loop drv NMBM_TRY_COUNT addr dat oob 0 s"

text \<open>The two ways the backend calls it: into a buffer, and into the page cache.\<close>

definition read_page_to ::
  "'d nand_drv \<Rightarrow> loff \<Rightarrow> byte list \<Rightarrow> 'd bmt_desc \<Rightarrow> int \<times> byte list \<times> 'd bmt_desc"
where
  "read_page_to drv addr buf s =
     (let (ret, dat, _, s1) = nmbm_read_phys_page drv addr (Some buf) None s
      in (ret, case dat of None \<Rightarrow> buf | Some b \<Rightarrow> b, s1))"

definition read_page_cache :: "'d nand_drv \<Rightarrow> loff \<Rightarrow> 'd bmt_desc \<Rightarrow> int \<times> 'd bmt_desc" where
  "read_page_cache drv addr s =
     (let (ret, buf, s1) = read_page_to drv addr (data_buf s) s in (ret, s1\<lparr>data_buf := buf\<rparr>))"

fun write_phys_loop ::
  "'d nand_drv \<Rightarrow> nat \<Rightarrow> loff \<Rightarrow> byte list option \<Rightarrow> byte list option \<Rightarrow> 'd bmt_desc \<Rightarrow> bool \<times> 'd bmt_desc"
where
  "write_phys_loop drv 0 addr dat oob s = (False, s)"
| "write_phys_loop drv (Suc k) addr dat oob s =
     (let (r, _, _, d) =
        drv_write_oob drv addr (case dat of None \<Rightarrow> [] | Some b \<Rightarrow> take (unat (pg_size s)) b) 0
          (case oob of None \<Rightarrow> [] | Some b \<Rightarrow> take (unat (oobsize (mtd s))) b) (nand s);
        s1 = s\<lparr>nand := d\<rparr>
      in if r = 0 then (True, s1) else write_phys_loop drv k addr dat oob s1)"

definition nmbm_write_phys_page ::
  "'d nand_drv \<Rightarrow> loff \<Rightarrow> byte list option \<Rightarrow> byte list option \<Rightarrow> 'd bmt_desc \<Rightarrow> bool \<times> 'd bmt_desc"
where
  "nmbm_write_phys_page drv addr dat oob s = write_phys_loop drv NMBM_TRY_COUNT addr dat oob s"

fun erase_phys_loop :: "'d nand_drv \<Rightarrow> nat \<Rightarrow> loff \<Rightarrow> 'd bmt_desc \<Rightarrow> bool \<times> 'd bmt_desc" where
  "erase_phys_loop drv 0 addr s = (False, s)"
| "erase_phys_loop drv (Suc k) addr s =
     (let (r, d) = drv_erase drv addr (unat (erasesize (mtd s))) (nand s);
          s1 = s\<lparr>nand := d\<rparr>
      in if r = 0 then (True, s1) else erase_phys_loop drv k addr s1)"

definition nmbm_erase_phys_block :: "'d nand_drv \<Rightarrow> loff \<Rightarrow> 'd bmt_desc \<Rightarrow> bool \<times> 'd bmt_desc" where
  "nmbm_erase_phys_block drv addr s = erase_phys_loop drv NMBM_TRY_COUNT addr s"

text \<open>The values of \<open>off\<close> in \<open>for (off = 0; off < bmtd.blk_size; off += bmtd.pg_size)\<close>.\<close>

definition page_offs :: "'d bmt_desc \<Rightarrow> nat list" where
  "page_offs s = map (\<lambda>k. k * unat (pg_size s))
     [0..<(unat (blk_size s) + unat (pg_size s) - 1) div unat (pg_size s)]"

section \<open>Erasing\<close>

fun erase_check_loop :: "'d nand_drv \<Rightarrow> loff \<Rightarrow> nat list \<Rightarrow> 'd bmt_desc \<Rightarrow> bool \<times> 'd bmt_desc" where
  "erase_check_loop drv addr [] s = (True, s)"
| "erase_check_loop drv addr (off # offs) s =
     (let (ret, s1) = read_page_cache drv (addr + off) s
      in if ret = - EBADMSG then (False, s1) else erase_check_loop drv addr offs s1)"

definition nmbm_erase_block_and_check ::
  "'d nand_drv \<Rightarrow> nmbm_instance \<Rightarrow> u32 \<Rightarrow> 'd bmt_desc \<Rightarrow> bool \<times> 'd bmt_desc"
where
  "nmbm_erase_block_and_check drv n ba s =
     (let (success, s1) = nmbm_erase_phys_block drv (ba2addr s ba) s
      in if \<not> success then (False, s1)
         else if \<not> empty_page_ecc_ok n then (True, s1)
         else erase_check_loop drv (ba2addr s1 ba) (page_offs s1) s1)"

text \<open>\<open>nmbm_mark_phys_bad_block\<close> followed by \<open>nmbm_set_block_state(.., BLOCK_ST_BAD)\<close>, the code at the
  labels \<open>skip_bad_block\<close>.\<close>

definition retire_block ::
  "'d nand_drv \<Rightarrow> u32 \<Rightarrow> nmbm_instance \<Rightarrow> 'd bmt_desc \<Rightarrow> nmbm_instance \<times> 'd bmt_desc"
where
  "retire_block drv ba n s =
     (let (_, s1) = nmbm_mark_phys_bad_block drv ba s in (set_state n ba BLOCK_ST_BAD, s1))"

function nmbm_erase_range ::
  "'d nand_drv \<Rightarrow> u32 \<Rightarrow> u32 \<Rightarrow> nmbm_instance \<Rightarrow> 'd bmt_desc \<Rightarrow> nmbm_instance \<times> 'd bmt_desc"
where
  "nmbm_erase_range drv ba limit n s =
     (if ba < limit then
        if nmbm_get_block_state n ba \<noteq> BLOCK_ST_GOOD then nmbm_erase_range drv (ba + 1) limit n s
        else let (bad, s1) = nmbm_check_bad_phys_block drv ba s
        in if bad then nmbm_erase_range drv (ba + 1) limit (set_state n ba BLOCK_ST_BAD) s1
        else let (success, s2) = nmbm_erase_block_and_check drv n ba s1
        in if success then nmbm_erase_range drv (ba + 1) limit n s2
        else let (n1, s3) = retire_block drv ba n s2 in nmbm_erase_range drv (ba + 1) limit n1 s3
      else (n, s))"
  by pat_completeness auto
termination
  by (relation "measure (\<lambda>(drv, ba, limit, n, s). unat limit - unat ba)") (auto intro: word_Suc_measure)

declare nmbm_erase_range.simps [simp del]

section \<open>Verified writes\<close>

fun write_repeated_loop ::
  "'d nand_drv \<Rightarrow> nmbm_instance \<Rightarrow> loff \<Rightarrow> nat list \<Rightarrow> byte list \<Rightarrow> nat \<Rightarrow> 'd bmt_desc \<Rightarrow> bool \<times> 'd bmt_desc"
where
  "write_repeated_loop drv n addr [] dat sz s = (True, s)"
| "write_repeated_loop drv n addr (off # offs) dat sz s =
     (let s0 = s\<lparr>data_buf := memcpy_at (data_buf s) 0
                  (take sz dat @ replicate (unat (rawpage_size n) - sz) 0xff)\<rparr>;
          (success, s1) = nmbm_write_phys_page drv (addr + off) (Some (data_buf s0)) None s0
      in if \<not> success then (False, s1)
         else let (ret, s2) = read_page_cache drv (addr + off) s1
         in if ret < 0 then (False, s2)
            else if \<not> memcmp_eq (data_buf s2) dat sz then (False, s2)
            else write_repeated_loop drv n addr offs dat sz s2)"

definition nmbm_write_repeated_data ::
  "'d nand_drv \<Rightarrow> nmbm_instance \<Rightarrow> u32 \<Rightarrow> byte list \<Rightarrow> nat \<Rightarrow> 'd bmt_desc \<Rightarrow> bool \<times> 'd bmt_desc"
where
  "nmbm_write_repeated_data drv n ba dat sz s =
     (if sz > unat (pg_size s) then (False, s)
      else write_repeated_loop drv n (ba2addr s ba) (page_offs s) dat sz s)"

text \<open>The result is the block the signature was written to (\<open>*signature_ba\<close>), or \<open>None\<close> for \<open>false\<close>.\<close>

function write_signature_loop ::
  "'d nand_drv \<Rightarrow> u32 \<Rightarrow> u32 \<Rightarrow> byte list \<Rightarrow> nmbm_instance \<Rightarrow> 'd bmt_desc \<Rightarrow>
   u32 option \<times> nmbm_instance \<times> 'd bmt_desc"
where
  "write_signature_loop drv ba limit sig n s =
     (if ba > limit then
        if nmbm_get_block_state n ba \<noteq> BLOCK_ST_GOOD then write_signature_loop drv (ba - 1) limit sig n s
        else let (bad, s1) = nmbm_check_bad_phys_block drv ba s
        in if bad then write_signature_loop drv (ba - 1) limit sig (set_state n ba BLOCK_ST_BAD) s1
        else let (success, s2) = nmbm_erase_block_and_check drv n ba s1
        in if \<not> success then
             let (n1, s3) = retire_block drv ba n s2 in write_signature_loop drv (ba - 1) limit sig n1 s3
        else let (written, s3) = nmbm_write_repeated_data drv n ba sig (length sig) s2
        in if written then (Some ba, n, s3)
        else let (n1, s4) = retire_block drv ba n s3 in write_signature_loop drv (ba - 1) limit sig n1 s4
      else (None, n, s))"
  by pat_completeness auto
termination
  by (relation "measure (\<lambda>(drv, ba, limit, sig, n, s). unat ba)")
    (auto simp: unat_pred_greater word_less_nat_alt)

declare write_signature_loop.simps [simp del]

definition nmbm_write_signature ::
  "'d nand_drv \<Rightarrow> u32 \<Rightarrow> nmbm_signature \<Rightarrow> nmbm_instance \<Rightarrow> 'd bmt_desc \<Rightarrow>
   u32 option \<times> nmbm_instance \<times> 'd bmt_desc"
where
  "nmbm_write_signature drv limit sig n s =
     write_signature_loop drv (block_count n - 1) limit (sig_bytes sig) n s"

text \<open>\<open>leading = off & (bmtd.pg_size - 1)\<close> and the size of the next chunk.\<close>

definition pg_leading :: "'d bmt_desc \<Rightarrow> nat \<Rightarrow> nat" where
  "pg_leading s off = (if pg_size s = 0 then 0 else unat ((of_nat off :: u32) AND (pg_size s - 1)))"

definition pg_chunk :: "'d bmt_desc \<Rightarrow> nat \<Rightarrow> nat \<Rightarrow> nat" where
  "pg_chunk s off remain =
     (if pg_size s = 0 then remain else min (unat (pg_size s) - pg_leading s off) remain)"

lemma pg_leading_less: "pg_size s \<noteq> 0 \<Longrightarrow> pg_leading s off < unat (pg_size s)"
proof -
  assume p: "pg_size s \<noteq> 0"
  have "(of_nat off :: u32) AND (pg_size s - 1) \<le> pg_size s - 1" by (rule word_and_le1)
  moreover have "pg_size s - 1 < pg_size s" using p by unat_arith
  ultimately have "(of_nat off :: u32) AND (pg_size s - 1) < pg_size s" by (rule order.strict_trans1)
  with p show ?thesis by (simp add: pg_leading_def word_less_nat_alt)
qed

lemma pg_chunk_pos: "0 < remain \<Longrightarrow> 0 < pg_chunk s off remain"
  using pg_leading_less [of s off] by (auto simp: pg_chunk_def)

lemma pg_chunk_less: "0 < remain \<Longrightarrow> remain - pg_chunk s off remain < remain"
  using pg_chunk_pos [of remain s off] by simp

text \<open>\<open>pos\<close> is \<open>ptr - data\<close>.\<close>

function read_data_loop ::
  "'d nand_drv \<Rightarrow> nat \<Rightarrow> nat \<Rightarrow> nat \<Rightarrow> byte list \<Rightarrow> 'd bmt_desc \<Rightarrow> int \<times> byte list \<times> 'd bmt_desc"
where
  "read_data_loop drv off pos remain buf s =
     (if remain = 0 then (0, buf, s)
      else let leading = pg_leading s off;
               chunksize = pg_chunk s off remain
           in if chunksize = unat (pg_size s) then
                let (ret, b, s1) = read_page_to drv (off - leading) (drop pos buf) s
                in if ret < 0 then (ret, take pos buf @ b, s1)
                   else read_data_loop drv (off + chunksize) (pos + chunksize) (remain - chunksize)
                          (take pos buf @ b) s1
              else
                let (ret, s1) = read_page_cache drv (off - leading) s
                in if ret < 0 then (ret, buf, s1)
                   else read_data_loop drv (off + chunksize) (pos + chunksize) (remain - chunksize)
                          (memcpy_at buf pos (take chunksize (drop leading (data_buf s1)))) s1)"
  by pat_completeness auto
termination
  by (relation "measure (\<lambda>(drv, off, pos, remain, buf, s). remain)")
    (auto simp: pg_chunk_less)

declare read_data_loop.simps [simp del]

definition nmbn_read_data ::
  "'d nand_drv \<Rightarrow> loff \<Rightarrow> nat \<Rightarrow> byte list \<Rightarrow> 'd bmt_desc \<Rightarrow> int \<times> byte list \<times> 'd bmt_desc"
where
  "nmbn_read_data drv addr sz buf s = read_data_loop drv addr 0 sz buf s"

text \<open>\<open>dat\<close> is the data from \<open>ptr\<close> on.\<close>

function write_verify_loop ::
  "'d nand_drv \<Rightarrow> nmbm_instance \<Rightarrow> nat \<Rightarrow> nat \<Rightarrow> byte list \<Rightarrow> 'd bmt_desc \<Rightarrow> bool \<times> 'd bmt_desc"
where
  "write_verify_loop drv n off remain dat s =
     (if remain = 0 then (True, s)
      else let leading = pg_leading s off;
               chunksize = pg_chunk s off remain;
               s0 = s\<lparr>data_buf := memcpy_at (memcpy_at (data_buf s) 0 (replicate (unat (rawpage_size n)) 0xff))
                                    leading (take chunksize dat)\<rparr>;
               (success, s1) = nmbm_write_phys_page drv (off - leading) (Some (data_buf s0)) None s0
           in if \<not> success then (False, s1)
              else let (ret, s2) = read_page_cache drv (off - leading) s1
              in if ret < 0 then (False, s2)
                 else if \<not> memcmp_eq (drop leading (data_buf s2)) dat chunksize then (False, s2)
                 else write_verify_loop drv n (off + chunksize) (remain - chunksize)
                        (drop chunksize dat) s2)"
  by pat_completeness auto
termination
  by (relation "measure (\<lambda>(drv, n, off, remain, dat, s). remain)")
    (auto simp: pg_chunk_less)

declare write_verify_loop.simps [simp del]

definition nmbn_write_verify_data ::
  "'d nand_drv \<Rightarrow> nmbm_instance \<Rightarrow> loff \<Rightarrow> byte list \<Rightarrow> nat \<Rightarrow> 'd bmt_desc \<Rightarrow> bool \<times> 'd bmt_desc"
where
  "nmbn_write_verify_data drv n addr dat sz s = write_verify_loop drv n addr sz dat s"

text \<open>The result is the pair \<open>*actual_start_ba\<close>, \<open>*actual_end_ba\<close>, or \<open>None\<close> for \<open>false\<close>. \<open>start\<close> is the
  start recorded so far and \<open>dat\<close> the data still to write (\<open>remain\<close> bytes of \<open>sz\<close>).\<close>

function write_mgmt_loop ::
  "'d nand_drv \<Rightarrow> u32 \<Rightarrow> u32 \<Rightarrow> u32 \<Rightarrow> byte list \<Rightarrow> nat \<Rightarrow> nat \<Rightarrow> nmbm_instance \<Rightarrow> 'd bmt_desc \<Rightarrow>
   (u32 \<times> u32) option \<times> nmbm_instance \<times> 'd bmt_desc"
where
  "write_mgmt_loop drv ba limit start dat remain sz n s =
     (if remain \<noteq> 0 \<and> ba < limit then
        let chunksize = min remain (unat (blk_size s))
        in if nmbm_get_block_state n ba \<noteq> BLOCK_ST_GOOD
           then write_mgmt_loop drv (ba + 1) limit start dat remain sz n s
        else let (bad, s1) = nmbm_check_bad_phys_block drv ba s
        in if bad then write_mgmt_loop drv (ba + 1) limit start dat remain sz (set_state n ba BLOCK_ST_BAD) s1
        else let (success, s2) = nmbm_erase_block_and_check drv n ba s1
        in if \<not> success then
             let (n1, s3) = retire_block drv ba n s2
             in write_mgmt_loop drv (ba + 1) limit start dat remain sz n1 s3
        else let (written, s3) = nmbn_write_verify_data drv n (ba2addr s2 ba) dat chunksize s2
        in if \<not> written then
             let (n1, s4) = retire_block drv ba n s3
             in write_mgmt_loop drv (ba + 1) limit start dat remain sz n1 s4
        else write_mgmt_loop drv (ba + 1) limit (if remain = sz then ba else start)
               (drop chunksize dat) (remain - chunksize) sz n s3
      else if remain \<noteq> 0 then (None, n, s)
      else (Some (start, ba), n, s))"
  by pat_completeness auto
termination
  by (relation "measure (\<lambda>(drv, ba, limit, start, dat, remain, sz, n, s). unat limit - unat ba)")
    (auto intro: word_Suc_measure)

declare write_mgmt_loop.simps [simp del]

definition nmbm_write_mgmt_range ::
  "'d nand_drv \<Rightarrow> u32 \<Rightarrow> u32 \<Rightarrow> byte list \<Rightarrow> nat \<Rightarrow> nmbm_instance \<Rightarrow> 'd bmt_desc \<Rightarrow>
   (u32 \<times> u32) option \<times> nmbm_instance \<times> 'd bmt_desc"
where
  "nmbm_write_mgmt_range drv ba limit dat sz n s = write_mgmt_loop drv ba limit 0 dat sz sz n s"

section \<open>What the chip operations leave alone\<close>

lemma io_upd_nandD: "io_upd (s\<lparr>nand := d\<rparr>) t \<Longrightarrow> io_upd s t"
  by (rule io_upd_trans [of s "s\<lparr>nand := d\<rparr>"]) simp

lemma read_phys_loop_frame: "read_phys_loop drv k addr dat oob r s = (ret, dat', oob', t) \<Longrightarrow> io_upd s t"
proof (induction k arbitrary: dat oob r s)
  case (Suc k)
  obtain r1 rd ro d where rd: "drv_read_oob drv addr (if dat = None then 0 else unat (pg_size s)) 0
      (if oob = None then 0 else unat (oobsize (mtd s))) (nand s) = (r1, rd, ro, d)"
    by (metis prod_cases4)
  with Suc.prems show ?case
    by (auto simp: rd Let_def split: if_splits dest!: Suc.IH dest: io_upd_nandD)
qed simp

lemma read_page_to_frame: "read_page_to drv addr buf s = (ret, b, t) \<Longrightarrow> io_upd s t"
  by (auto simp: read_page_to_def nmbm_read_phys_page_def dest: read_phys_loop_frame split: prod.splits)

lemma read_page_cache_frame: "read_page_cache drv addr s = (ret, t) \<Longrightarrow> io_upd s t"
  by (auto simp: read_page_cache_def dest!: read_page_to_frame elim!: io_updE split: prod.splits)

lemma write_phys_loop_frame: "write_phys_loop drv k addr dat oob s = (ok, t) \<Longrightarrow> io_upd s t"
proof (induction k arbitrary: s)
  case (Suc k)
  obtain r l m d where wr: "drv_write_oob drv addr (case dat of None \<Rightarrow> [] | Some b \<Rightarrow> take (unat (pg_size s)) b) 0
      (case oob of None \<Rightarrow> [] | Some b \<Rightarrow> take (unat (oobsize (mtd s))) b) (nand s) = (r, l, m, d)"
    by (metis prod_cases4)
  with Suc show ?case
    by (auto simp: wr Let_def split: if_splits intro: io_upd_nandD)
qed simp

lemma write_phys_page_frame: "nmbm_write_phys_page drv addr dat oob s = (ok, t) \<Longrightarrow> io_upd s t"
  by (simp add: nmbm_write_phys_page_def write_phys_loop_frame)

lemma erase_phys_loop_frame: "erase_phys_loop drv k addr s = (ok, t) \<Longrightarrow> io_upd s t"
proof (induction k arbitrary: s)
  case (Suc k)
  obtain r d where er: "drv_erase drv addr (unat (erasesize (mtd s))) (nand s) = (r, d)" by fastforce
  with Suc show ?case
    by (auto simp: er Let_def split: if_splits intro: io_upd_nandD)
qed simp

lemma erase_check_loop_frame: "erase_check_loop drv addr offs s = (ok, t) \<Longrightarrow> io_upd s t"
  by (induction drv addr offs s rule: erase_check_loop.induct)
    (auto split: prod.splits if_splits dest: read_page_cache_frame intro: io_upd_trans)

lemma erase_block_and_check_frame: "nmbm_erase_block_and_check drv n ba s = (ok, t) \<Longrightarrow> io_upd s t"
  by (auto simp: nmbm_erase_block_and_check_def nmbm_erase_phys_block_def Let_def
      dest!: erase_phys_loop_frame erase_check_loop_frame intro: io_upd_trans split: prod.splits if_splits)

lemma io_upd_buf [simp]: "io_upd s (s\<lparr>data_buf := b\<rparr>)"
  by (simp add: io_upd_def)

lemma write_repeated_loop_frame: "write_repeated_loop drv n addr offs dat sz s = (ok, t) \<Longrightarrow> io_upd s t"
proof (induction drv n addr offs dat sz s rule: write_repeated_loop.induct)
  case (2 drv n addr off offs dat sz s)
  define s0 where "s0 = s\<lparr>data_buf := memcpy_at (data_buf s) 0
                  (take sz dat @ replicate (unat (rawpage_size n) - sz) 0xff)\<rparr>"
  obtain ok1 s1 where w: "nmbm_write_phys_page drv (addr + off) (Some (data_buf s0)) None s0 = (ok1, s1)" by fastforce
  obtain r s2 where rd: "read_page_cache drv (addr + off) s1 = (r, s2)" by fastforce
  have "io_upd s s1" using io_upd_trans [OF _ write_phys_page_frame [OF w]] by (simp add: s0_def)
  moreover from this have "io_upd s s2" using io_upd_trans read_page_cache_frame [OF rd] by blast
  moreover note 2(1) [OF s0_def w [symmetric] _ _ rd [symmetric]]
  moreover have "(ok, t) = (if \<not> ok1 then (False, s1) else if r < 0 then (False, s2)
      else if \<not> memcmp_eq (data_buf s2) dat sz then (False, s2) else write_repeated_loop drv n addr offs dat sz s2)"
    using 2(2) by (simp only: write_repeated_loop.simps Let_def s0_def [symmetric] w rd prod.case)
  ultimately show ?case
    by (auto split: if_splits intro: io_upd_trans)
qed simp

lemma write_repeated_frame: "nmbm_write_repeated_data drv n ba dat sz s = (ok, t) \<Longrightarrow> io_upd s t"
  by (auto simp: nmbm_write_repeated_data_def dest: write_repeated_loop_frame split: if_splits)

lemma read_data_loop_frame: "read_data_loop drv off pos remain buf s = (ret, b, t) \<Longrightarrow> io_upd s t"
proof (induction drv off pos remain buf s rule: read_data_loop.induct)
  case (1 drv off pos remain buf s)
  show ?case
  proof (cases "remain = 0")
    case True
    with 1(3) show ?thesis by (simp add: read_data_loop.simps)
  next
    case False
    let ?l = "pg_leading s off" and ?c = "pg_chunk s off remain"
    obtain r1 b1 s1 where p: "read_page_to drv (off - ?l) (drop pos buf) s = (r1, b1, s1)" by (metis prod_cases3)
    obtain r2 s2 where c: "read_page_cache drv (off - ?l) s = (r2, s2)" by fastforce
    have "io_upd s s1" "io_upd s s2"
      using read_page_to_frame [OF p] read_page_cache_frame [OF c] by auto
    moreover have "(ret, b, t) = (if ?c = unat (pg_size s) then if r1 < 0 then (r1, take pos buf @ b1, s1)
          else read_data_loop drv (off + ?c) (pos + ?c) (remain - ?c) (take pos buf @ b1) s1
        else if r2 < 0 then (r2, buf, s2) else read_data_loop drv (off + ?c) (pos + ?c) (remain - ?c)
               (memcpy_at buf pos (take ?c (drop ?l (data_buf s2)))) s2)"
      using 1(3) False by (simp only: read_data_loop.simps [of drv off pos remain] Let_def p c prod.case if_False)
    moreover note 1(1) [OF False refl refl _ p [symmetric] refl] 1(2) [OF False refl refl _ c [symmetric]]
    ultimately show ?thesis
      by (auto split: if_splits intro: io_upd_trans)
  qed
qed

lemma write_verify_loop_frame: "write_verify_loop drv n off remain dat s = (ok, t) \<Longrightarrow> io_upd s t"
proof (induction drv n off remain dat s rule: write_verify_loop.induct)
  case (1 drv n off remain dat s)
  define s0 where "s0 = s\<lparr>data_buf := memcpy_at (memcpy_at (data_buf s) 0 (replicate (unat (rawpage_size n)) 0xff))
      (pg_leading s off) (take (pg_chunk s off remain) dat)\<rparr>"
  obtain ok1 s1 where w: "nmbm_write_phys_page drv (off - pg_leading s off) (Some (data_buf s0)) None s0 = (ok1, s1)"
    by fastforce
  obtain r s2 where rd: "read_page_cache drv (off - pg_leading s off) s1 = (r, s2)" by fastforce
  have "io_upd s s1" using io_upd_trans [OF _ write_phys_page_frame [OF w]] by (simp add: s0_def)
  moreover from this have "io_upd s s2" using io_upd_trans read_page_cache_frame [OF rd] by blast
  moreover note 1(1) [OF _ refl refl s0_def w [symmetric] _ _ rd [symmetric]]
  moreover have "(ok, t) = (if remain = 0 then (True, s) else if \<not> ok1 then (False, s1) else if r < 0 then (False, s2)
      else if \<not> memcmp_eq (drop (pg_leading s off) (data_buf s2)) dat (pg_chunk s off remain) then (False, s2)
      else write_verify_loop drv n (off + pg_chunk s off remain) (remain - pg_chunk s off remain)
             (drop (pg_chunk s off remain) dat) s2)"
    using 1(2) by (simp only: write_verify_loop.simps [of drv n off remain] Let_def s0_def [symmetric] w rd prod.case)
  ultimately show ?case
    by (auto split: if_splits intro: io_upd_trans)
qed

section \<open>Blocks only ever go bad\<close>

text \<open>The good blocks of an instance. The chip operations change an instance only by marking good
  blocks bad; \<open>decay\<close> says so, and an instance that kept all its good blocks is unchanged.\<close>

definition good_set :: "nmbm_instance \<Rightarrow> u32 set" where
  "good_set n = {ba. nmbm_get_block_state n ba = BLOCK_ST_GOOD}"

definition decay :: "nmbm_instance \<Rightarrow> nmbm_instance \<Rightarrow> bool" where
  "decay n n' \<longleftrightarrow> n' = n\<lparr>block_state := block_state n', block_state_changed := block_state_changed n'\<rparr> \<and>
     length (block_state n') = length (block_state n) \<and> good_set n' \<subseteq> good_set n \<and>
     (good_set n' = good_set n \<longrightarrow> n' = n)"

lemma decay_refl [simp]: "decay n n"
  by (simp add: decay_def)

lemma decayE:
  assumes "decay n n'"
  obtains st c where "n' = n\<lparr>block_state := st, block_state_changed := c\<rparr>"
  using assms unfolding decay_def by metis

lemma decay_trans [trans]:
  assumes "decay n m" and "decay m k"
  shows "decay n k"
proof -
  have "k = n\<lparr>block_state := block_state k, block_state_changed := block_state_changed k\<rparr>"
    using assms by (auto elim!: decayE)
  with assms show ?thesis unfolding decay_def by auto
qed

lemma decay_fields [frame_simps]:
  assumes "decay n n'"
  shows "block_mapping n' = block_mapping n" "block_count n' = block_count n"
    "mgmt_start_ba n' = mgmt_start_ba n" "data_block_count n' = data_block_count n"
    "info_table_cache n' = info_table_cache n" "info_table_size n' = info_table_size n"
    "signature_ba n' = signature_ba n" "mapping_blocks_ba n' = mapping_blocks_ba n"
    "mapping_blocks_top_ba n' = mapping_blocks_top_ba n" "main_table_ba n' = main_table_ba n"
    "backup_table_ba n' = backup_table_ba n" "protected n' = protected n"
    "block_mapping_changed n' = block_mapping_changed n" "info_table n' = info_table n"
    "signature n' = signature n" "state_table_size n' = state_table_size n"
    "mapping_table_size n' = mapping_table_size n" "info_table_spare_blocks n' = info_table_spare_blocks n"
    "force_create n' = force_create n" "length (block_state n') = length (block_state n)"
    "max_ratio n' = max_ratio n" "max_reserved_blocks n' = max_reserved_blocks n" "rawpage_size n' = rawpage_size n"
proof -
  obtain st c where "n' = n\<lparr>block_state := st, block_state_changed := c\<rparr>"
    using assms by (rule decayE)
  then show "block_mapping n' = block_mapping n" "block_count n' = block_count n"
    "mgmt_start_ba n' = mgmt_start_ba n" "data_block_count n' = data_block_count n"
    "info_table_cache n' = info_table_cache n" "info_table_size n' = info_table_size n"
    "signature_ba n' = signature_ba n" "mapping_blocks_ba n' = mapping_blocks_ba n"
    "mapping_blocks_top_ba n' = mapping_blocks_top_ba n" "main_table_ba n' = main_table_ba n"
    "backup_table_ba n' = backup_table_ba n" "protected n' = protected n"
    "block_mapping_changed n' = block_mapping_changed n" "info_table n' = info_table n"
    "signature n' = signature n" "state_table_size n' = state_table_size n"
    "mapping_table_size n' = mapping_table_size n" "info_table_spare_blocks n' = info_table_spare_blocks n"
    "force_create n' = force_create n" "max_ratio n' = max_ratio n" "max_reserved_blocks n' = max_reserved_blocks n" "rawpage_size n' = rawpage_size n"
    by simp_all
  show "length (block_state n') = length (block_state n)" using assms by (simp add: decay_def)
qed

lemma good_in_range: "nmbm_get_block_state n ba = BLOCK_ST_GOOD \<Longrightarrow> unat ba div 16 < length (block_state n)"
  by (rule ccontr) (simp add: nmbm_get_block_state_def get_state_raw_eq get_field_def cell_def)

lemma good_set_bad:
  "nmbm_get_block_state n ba = BLOCK_ST_GOOD \<Longrightarrow> good_set (set_state n ba BLOCK_ST_BAD) = good_set n - {ba}"
  by (auto simp: good_set_def get_set_bad good_in_range)

lemma decay_set_bad:
  assumes "nmbm_get_block_state n ba = BLOCK_ST_GOOD"
  shows "decay n (set_state n ba BLOCK_ST_BAD)"
proof -
  have "ba \<in> good_set n" using assms by (simp add: good_set_def)
  moreover have "set_state n ba BLOCK_ST_BAD = n\<lparr>block_state := block_state (set_state n ba BLOCK_ST_BAD),
      block_state_changed := block_state_changed (set_state n ba BLOCK_ST_BAD)\<rparr>"
    by (simp add: nmbm_set_block_state_def Let_def)
  ultimately show ?thesis by (auto simp: decay_def good_set_bad [OF assms])
qed

lemma retire_block_decay:
  assumes "nmbm_get_block_state n ba = BLOCK_ST_GOOD" and "retire_block drv ba n s = (n', t)"
  shows "decay n n' \<and> ba \<notin> good_set n' \<and> io_upd s t"
  using assms mark_bad_frame [of drv ba s]
  by (auto simp: retire_block_def decay_set_bad good_set_bad split: prod.splits)

lemma erase_range_decay:
  "nmbm_erase_range drv ba limit n s = (n', t) \<Longrightarrow> decay n n' \<and> io_upd s t"
proof (induction drv ba limit n s rule: nmbm_erase_range.induct)
  case (1 drv ba limit n s)
  obtain bad s1 where c: "nmbm_check_bad_phys_block drv ba s = (bad, s1)" by fastforce
  obtain ok s2 where e: "nmbm_erase_block_and_check drv n ba s1 = (ok, s2)" by fastforce
  obtain n1 s3 where r: "retire_block drv ba n s2 = (n1, s3)" by fastforce
  have s1: "io_upd s s1" using check_bad_frame [OF c] .
  then have s2: "io_upd s s2" using io_upd_trans erase_block_and_check_frame [OF e] by blast
  have s3: "decay n n1 \<and> io_upd s s3" if "nmbm_get_block_state n ba = BLOCK_ST_GOOD"
    using retire_block_decay [OF that r] io_upd_trans [OF s2] by blast
  have eq: "(n', t) = (if ba < limit then if nmbm_get_block_state n ba \<noteq> BLOCK_ST_GOOD
        then nmbm_erase_range drv (ba + 1) limit n s
      else if bad then nmbm_erase_range drv (ba + 1) limit (set_state n ba BLOCK_ST_BAD) s1
      else if ok then nmbm_erase_range drv (ba + 1) limit n s2
      else nmbm_erase_range drv (ba + 1) limit n1 s3 else (n, s))"
    using 1(5) by (simp only: nmbm_erase_range.simps [of drv ba] Let_def c e r prod.case)
  note IH = 1(1) 1(2) [OF _ _ refl c [symmetric]] 1(3) [OF _ _ refl c [symmetric] _ refl e [symmetric]]
    1(4) [OF _ _ refl c [symmetric] _ refl e [symmetric] _ refl r [symmetric]]
  show ?case
    using eq IH s1 s2 s3 decay_set_bad [of n ba]
    by (auto split: if_splits intro: io_upd_trans decay_trans)
qed

text \<open>One round of \<open>write_mgmt_loop\<close>: whether the chunk was stored in the block.\<close>

definition try_block ::
  "'d nand_drv \<Rightarrow> u32 \<Rightarrow> byte list \<Rightarrow> nat \<Rightarrow> nmbm_instance \<Rightarrow> 'd bmt_desc \<Rightarrow> bool \<times> nmbm_instance \<times> 'd bmt_desc"
where
  "try_block drv ba dat k n s =
     (if nmbm_get_block_state n ba \<noteq> BLOCK_ST_GOOD then (False, n, s)
      else let (bad, s1) = nmbm_check_bad_phys_block drv ba s
      in if bad then (False, set_state n ba BLOCK_ST_BAD, s1)
      else let (success, s2) = nmbm_erase_block_and_check drv n ba s1
      in if \<not> success then (False, retire_block drv ba n s2)
      else let (written, s3) = nmbn_write_verify_data drv n (ba2addr s2 ba) dat k s2
      in if \<not> written then (False, retire_block drv ba n s3) else (True, n, s3))"

lemma write_mgmt_loop_step:
  "write_mgmt_loop drv ba limit start dat remain sz n s =
     (if remain \<noteq> 0 \<and> ba < limit then
        let k = min remain (unat (blk_size s)); (ok, n1, s1) = try_block drv ba dat k n s
        in if ok then write_mgmt_loop drv (ba + 1) limit (if remain = sz then ba else start)
                        (drop k dat) (remain - k) sz n1 s1
           else write_mgmt_loop drv (ba + 1) limit start dat remain sz n1 s1
      else if remain \<noteq> 0 then (None, n, s) else (Some (start, ba), n, s))"
  by (subst write_mgmt_loop.simps) (auto simp: try_block_def Let_def split: prod.splits)

lemma try_block_decay:
  assumes "try_block drv ba dat k n s = (ok, n', t)"
  shows "decay n n' \<and> io_upd s t \<and> (ok \<longrightarrow> n' = n \<and> ba \<in> good_set n)"
proof (cases "nmbm_get_block_state n ba = BLOCK_ST_GOOD")
  case False
  with assms show ?thesis by (simp add: try_block_def)
next
  case True
  obtain bad s1 where c: "nmbm_check_bad_phys_block drv ba s = (bad, s1)" by fastforce
  obtain er s2 where e: "nmbm_erase_block_and_check drv n ba s1 = (er, s2)" by fastforce
  obtain w s3 where w: "nmbn_write_verify_data drv n (ba2addr s2 ba) dat k s2 = (w, s3)" by fastforce
  have s1: "io_upd s s1" using check_bad_frame [OF c] .
  then have s2: "io_upd s s2" using io_upd_trans erase_block_and_check_frame [OF e] by blast
  then have s3: "io_upd s s3"
    using io_upd_trans write_verify_loop_frame w by (metis nmbn_write_verify_data_def)
  obtain n4 s4 where r4: "retire_block drv ba n s2 = (n4, s4)" by fastforce
  obtain n5 s5 where r5: "retire_block drv ba n s3 = (n5, s5)" by fastforce
  have "(ok, n', t) = (if bad then (False, set_state n ba BLOCK_ST_BAD, s1) else if \<not> er then (False, n4, s4)
      else if \<not> w then (False, n5, s5) else (True, n, s3))"
    using assms True by (simp only: try_block_def Let_def c e w r4 r5 prod.case) simp
  moreover have "decay n n4" "io_upd s s4" "decay n n5" "io_upd s s5"
    using retire_block_decay [OF True r4] retire_block_decay [OF True r5] s2 s3 by (auto intro: io_upd_trans)
  ultimately show ?thesis
    using s1 s3 decay_set_bad [OF True] True by (auto simp: good_set_def split: if_splits)
qed


lemma write_mgmt_loop_decay:
  "write_mgmt_loop drv ba limit start dat remain sz n s = (r, n', t) \<Longrightarrow> decay n n' \<and> io_upd s t"
proof (induction "unat limit - unat ba" arbitrary: ba start dat remain n s rule: less_induct)
  case less
  let ?k = "min remain (unat (blk_size s))"
  obtain ok n1 s1 where b: "try_block drv ba dat ?k n s = (ok, n1, s1)" by (metis prod_cases3)
  have d: "decay n n1 \<and> io_upd s s1" using try_block_decay [OF b] by blast
  show ?case
  proof (cases "remain \<noteq> 0 \<and> ba < limit")
    case True
    then have "unat limit - unat (ba + 1) < unat limit - unat ba" by (blast intro: word_Suc_measure)
    from less.hyps [OF this] less.prems show ?thesis
      using True d by (subst (asm) (2) write_mgmt_loop_step) (auto simp: b Let_def split: if_splits intro: decay_trans io_upd_trans)
  next
    case False
    then show ?thesis using less.prems by (subst (asm) write_mgmt_loop_step) (auto split: if_splits)
  qed
qed

text \<open>A successful write occupies blocks between the requested start and the limit.\<close>

lemma write_mgmt_loop_bounds:
  assumes "write_mgmt_loop drv ba limit start dat remain sz n s = (Some (st, en), n', t)"
    and "remain \<le> sz" and "remain < sz \<Longrightarrow> start < ba"
    and "remain < sz \<Longrightarrow> a \<le> start" and "a \<le> ba" and "remain = 0 \<Longrightarrow> ba \<le> limit" and "0 < sz"
  shows "a \<le> st \<and> st < en \<and> en \<le> limit"
  using assms
proof (induction "unat limit - unat ba" arbitrary: ba start dat remain n s rule: less_induct)
  case less
  let ?k = "min remain (unat (blk_size s))"
  obtain ok n1 s1 where b: "try_block drv ba dat ?k n s = (ok, n1, s1)" by (metis prod_cases3)
  show ?case
  proof (cases "remain \<noteq> 0 \<and> ba < limit")
    case True
    then have m: "unat limit - unat (ba + 1) < unat limit - unat ba" by (blast intro: word_Suc_measure)
    have lt: "ba < ba + 1" "ba + 1 \<le> limit"
      using True unat_Suc_less [of ba limit] by (auto simp: word_less_nat_alt word_le_nat_alt)
    show ?thesis
    proof (cases ok)
      case ok: True
      have w: "write_mgmt_loop drv (ba + 1) limit (if remain = sz then ba else start) (drop ?k dat) (remain - ?k) sz n1 s1
          = (Some (st, en), n', t)"
        using less.prems(1) True ok by (subst (asm) write_mgmt_loop_step) (simp add: b Let_def)
      have "(if remain = sz then ba else start) < ba + 1" "a \<le> (if remain = sz then ba else start)"
        using less.prems(2-5) lt(1) by auto
      moreover have "a \<le> ba + 1" using less.prems(5) lt(1) by simp
      ultimately show ?thesis
        using less.prems(2,7) lt(2) by (intro less.hyps [OF m w]) auto
    next
      case False
      have w: "write_mgmt_loop drv (ba + 1) limit start dat remain sz n1 s1 = (Some (st, en), n', t)"
        using less.prems(1) True False by (subst (asm) write_mgmt_loop_step) (simp add: b Let_def)
      have "remain < sz \<Longrightarrow> start < ba + 1" "a \<le> ba + 1" using less.prems(3,5) lt(1) by auto
      then show ?thesis
        using less.prems(2,4,7) lt(2) by (intro less.hyps [OF m w]) auto
    qed
  next
    case False
    with less.prems show ?thesis by (subst (asm) write_mgmt_loop_step) (auto split: if_splits)
  qed
qed

lemma write_mgmt_range_bounds:
  assumes "nmbm_write_mgmt_range drv ba limit dat sz n s = (Some (st, en), n', t)" and "0 < sz"
  shows "ba \<le> st \<and> st < en \<and> en \<le> limit"
  using write_mgmt_loop_bounds [of drv ba limit 0 dat sz sz n s st en n' t ba] assms
  by (simp add: nmbm_write_mgmt_range_def)

lemma write_signature_loop_decay:
  "write_signature_loop drv ba limit sig n s = (r, n', t) \<Longrightarrow>
   decay n n' \<and> io_upd s t \<and> (\<forall>x. r = Some x \<longrightarrow> limit < x \<and> x \<le> ba \<and> x \<in> good_set n')"
proof (induction drv ba limit sig n s rule: write_signature_loop.induct)
  case (1 drv ba limit sig n s)
  obtain bad s1 where c: "nmbm_check_bad_phys_block drv ba s = (bad, s1)" by fastforce
  obtain ok s2 where e: "nmbm_erase_block_and_check drv n ba s1 = (ok, s2)" by fastforce
  obtain w s3 where w: "nmbm_write_repeated_data drv n ba sig (length sig) s2 = (w, s3)" by fastforce
  obtain n4 s4 where r4: "retire_block drv ba n s2 = (n4, s4)" by fastforce
  obtain n5 s5 where r5: "retire_block drv ba n s3 = (n5, s5)" by fastforce
  have s1: "io_upd s s1" using check_bad_frame [OF c] .
  then have s2: "io_upd s s2" using io_upd_trans erase_block_and_check_frame [OF e] by blast
  then have s3: "io_upd s s3" using io_upd_trans write_repeated_frame [OF w] by blast
  have rt: "decay n n4 \<and> io_upd s s4" "decay n n5 \<and> io_upd s s5" if "nmbm_get_block_state n ba = BLOCK_ST_GOOD"
    using retire_block_decay [OF that r4] retire_block_decay [OF that r5] s2 s3 by (auto intro: io_upd_trans)
  have le: "x \<le> ba" if "limit < ba" "x \<le> ba - 1" for x
    using that unat_pred_greater [of limit ba] by (simp add: word_le_nat_alt)
  have eq: "(r, n', t) = (if ba > limit then if nmbm_get_block_state n ba \<noteq> BLOCK_ST_GOOD
        then write_signature_loop drv (ba - 1) limit sig n s
      else if bad then write_signature_loop drv (ba - 1) limit sig (set_state n ba BLOCK_ST_BAD) s1
      else if \<not> ok then write_signature_loop drv (ba - 1) limit sig n4 s4
      else if w then (Some ba, n, s3)
      else write_signature_loop drv (ba - 1) limit sig n5 s5 else (None, n, s))"
    using 1(5) by (simp only: write_signature_loop.simps [of drv ba] Let_def c e w r4 r5 prod.case)
  note IH = 1(1) 1(2) [OF _ _ refl c [symmetric]] 1(3) [OF _ _ refl c [symmetric] _ refl e [symmetric] _ refl r4 [symmetric]]
    1(4) [OF _ _ refl c [symmetric] _ refl e [symmetric] _ refl w [symmetric] _ refl r5 [symmetric]]
  show ?case
  proof (cases "limit < ba \<and> nmbm_get_block_state n ba = BLOCK_ST_GOOD")
    case False
    then show ?thesis using eq IH(1) le by (auto split: if_splits)
  next
    case True
    note rt' = rt [OF conjunct2 [OF True]] decay_set_bad [OF conjunct2 [OF True]]
    have "decay m n' \<and> io_upd u t \<and> (\<forall>x. r = Some x \<longrightarrow> limit < x \<and> x \<le> ba - 1 \<and> x \<in> good_set n')"
      if "\<not> (\<not> bad \<and> ok \<and> w)" "(m, u) = (if bad then (set_state n ba BLOCK_ST_BAD, s1) else if \<not> ok then (n4, s4) else (n5, s5))"
      for m u
      using that eq IH(2-4) True by (auto split: if_splits)
    then show ?thesis
      using eq True rt' s1 s3 le by (auto simp: good_set_def split: if_splits intro: decay_trans io_upd_trans)
  qed
qed

section \<open>Verified writes\<close>

text \<open>A driver whose successful reads (corrected bit flips included) deliver the bytes of the chip,
  and whose reads change nothing and never deliver more than asked for. Nothing is assumed about
  what a write does inside its range or what it reports.\<close>

definition honest_reads :: "'d nand_drv \<Rightarrow> ('d \<Rightarrow> nat \<Rightarrow> byte) \<Rightarrow> bool" where
  "honest_reads drv peek \<longleftrightarrow>
     (\<forall>a n ofs m d r dat oob d'. drv_read_oob drv a n ofs m d = (r, dat, oob, d') \<longrightarrow>
        length dat \<le> n \<and> peek d' = peek d \<and> (0 \<le> r \<or> r = - EUCLEAN \<longrightarrow> dat = map (peek d) [a..<a + n]))"

lemma honest_readsD:
  "honest_reads drv peek \<Longrightarrow> drv_read_oob drv a n ofs m d = (r, dat, oob, d') \<Longrightarrow>
   length dat \<le> n \<and> peek d' = peek d \<and> (0 \<le> r \<or> r = - EUCLEAN \<longrightarrow> dat = map (peek d) [a..<a + n])"
  unfolding honest_reads_def by metis

lemma read_phys_loop_honest:
  assumes "honest_reads drv peek"
    and "read_phys_loop drv k addr (Some buf) oob r s = (ret, dat', oob', t)"
    and "unat (pg_size s) \<le> length buf" and "r < 0 \<or> 0 < k"
  shows "peek (nand t) = peek (nand s) \<and> (\<exists>b. dat' = Some b \<and> length b = length buf \<and>
     (0 \<le> ret \<longrightarrow> take (unat (pg_size s)) b = map (peek (nand s)) [addr..<addr + unat (pg_size s)]))"
  using assms(2-4)
proof (induction k arbitrary: buf oob r s)
  case (Suc k)
  obtain r1 rd ro d where rd: "drv_read_oob drv addr (unat (pg_size s)) 0
      (if oob = None then 0 else unat (oobsize (mtd s))) (nand s) = (r1, rd, ro, d)"
    by (metis prod_cases4)
  note h = honest_readsD [OF assms(1) rd]
  define b where "b = memcpy_at buf 0 rd"
  define oob1 where "oob1 = map_option (\<lambda>b. memcpy_at b 0 ro) oob"
  have lb: "length b = length buf" using h Suc.prems(2) by (simp add: b_def)
  have got: "take (unat (pg_size s)) b = map (peek (nand s)) [addr..<addr + unat (pg_size s)]"
    if "0 \<le> r1 \<or> r1 = - EUCLEAN"
    using h that by (simp add: b_def memcpy_at_def)
  have eq: "(ret, dat', oob', t) = (if r1 = - EUCLEAN
         then (sint (min (bitflip_threshold (mtd s) + 1) (ecc_strength (mtd s))), Some b, oob1, s\<lparr>nand := d\<rparr>)
         else if r1 \<ge> 0 then (0, Some b, oob1, s\<lparr>nand := d\<rparr>)
         else read_phys_loop drv k addr (Some b) oob1 r1 (s\<lparr>nand := d\<rparr>))"
    unfolding Suc.prems(1) [symmetric] by (simp add: rd Let_def b_def oob1_def)
  show ?case
  proof (cases "0 \<le> r1 \<or> r1 = - EUCLEAN")
    case True
    with eq got lb h show ?thesis by (auto split: if_splits)
  next
    case False
    then show ?thesis
      using eq Suc.IH [of b oob1 r1 "s\<lparr>nand := d\<rparr>"] lb h Suc.prems(2) by (auto split: if_splits)
  qed
qed auto

lemma read_page_cache_honest:
  assumes "honest_reads drv peek" and "read_page_cache drv addr s = (ret, t)"
    and "unat (pg_size s) \<le> length (data_buf s)"
  shows "peek (nand t) = peek (nand s) \<and> length (data_buf t) = length (data_buf s) \<and>
     (0 \<le> ret \<longrightarrow> take (unat (pg_size s)) (data_buf t) = map (peek (nand s)) [addr..<addr + unat (pg_size s)])"
proof -
  obtain r dat ob s1 where rd: "read_phys_loop drv NMBM_TRY_COUNT addr (Some (data_buf s)) None 0 s = (r, dat, ob, s1)"
    by (metis prod_cases4)
  from read_phys_loop_honest [OF assms(1) rd assms(3)] assms(2) rd show ?thesis
    by (auto simp: read_page_cache_def read_page_to_def nmbm_read_phys_page_def)
qed

lemma write_phys_loop_buf: "write_phys_loop drv k addr dat oob s = (ok, t) \<Longrightarrow> data_buf t = data_buf s"
  by (induction k arbitrary: s) (auto simp: Let_def split: prod.splits if_splits)

lemma write_phys_loop_local:
  assumes "local_drv drv peek" and "write_phys_loop drv k addr (Some buf) None s = (ok, t)"
    and "\<not> (addr \<le> x \<and> x < addr + unat (pg_size s))"
  shows "peek (nand t) x = peek (nand s) x"
  using assms(2,3)
proof (induction k arbitrary: s)
  case (Suc k)
  obtain r l m d where wr: "drv_write_oob drv addr (take (unat (pg_size s)) buf) 0 [] (nand s) = (r, l, m, d)"
    by (metis prod_cases4)
  have "peek d x = peek (nand s) x"
    by (rule local_writeD [OF assms(1) wr]) (use Suc.prems(2) in auto)
  with Suc wr show ?case by (auto simp: Let_def split: if_splits)
qed simp


lemma pg_leading_mod:
  assumes "unat (pg_size s) = 2 ^ k" and "k < 32"
  shows "pg_leading s off = off mod 2 ^ k"
proof -
  have "of_nat (unat (pg_size s)) = (of_nat (2 ^ k) :: u32)" using assms(1) by simp
  then have p: "pg_size s = 2 ^ k" by simp
  have "(of_nat off :: u32) AND (pg_size s - 1) = take_bit k (of_nat off)"
    unfolding p by (simp add: take_bit_eq_mask mask_eq_exp_minus_1)
  then have "unat ((of_nat off :: u32) AND (pg_size s - 1)) = take_bit k (take_bit 32 off)"
    by (simp add: unsigned_take_bit_eq unsigned_of_nat)
  also have "\<dots> = off mod 2 ^ k"
    using assms(2) by (subst take_bit_take_bit) (simp add: min_absorb1 flip: take_bit_eq_mod)
  finally show ?thesis
    using assms(1) by (auto simp: pg_leading_def)
qed

text \<open>The chip holds the bytes \<open>bs\<close> at address \<open>a\<close>.\<close>

definition stored :: "('d \<Rightarrow> nat \<Rightarrow> byte) \<Rightarrow> 'd \<Rightarrow> nat \<Rightarrow> byte list \<Rightarrow> bool" where
  "stored peek d a bs \<longleftrightarrow> (\<forall>i < length bs. peek d (a + i) = bs ! i)"

lemma stored_append:
  "stored peek d a (xs @ ys) \<longleftrightarrow> stored peek d a xs \<and> stored peek d (a + length xs) ys"
proof
  assume h: "stored peek d a (xs @ ys)"
  have "peek d (a + length xs + i) = ys ! i" if "i < length ys" for i
    using h that unfolding stored_def by (metis add.assoc length_append nat_add_left_cancel_less nth_append_length_plus)
  moreover have "peek d (a + i) = xs ! i" if "i < length xs" for i
    using h that unfolding stored_def by (metis length_append nth_append trans_less_add1)
  ultimately show "stored peek d a xs \<and> stored peek d (a + length xs) ys" by (auto simp: stored_def)
next
  assume h: "stored peek d a xs \<and> stored peek d (a + length xs) ys"
  show "stored peek d a (xs @ ys)"
    unfolding stored_def
  proof (intro allI impI)
    fix i assume "i < length (xs @ ys)"
    then show "peek d (a + i) = (xs @ ys) ! i"
      using h unfolding stored_def
      by (cases "i < length xs") (auto simp: nth_append dest!: spec [of _ "i - length xs"])
  qed
qed


text \<open>The page buffer holds a page and a raw page.\<close>

definition cache_ok :: "nmbm_instance \<Rightarrow> 'd bmt_desc \<Rightarrow> bool" where
  "cache_ok n s \<longleftrightarrow> unat (pg_size s) \<le> length (data_buf s) \<and> unat (rawpage_size n) \<le> length (data_buf s)"

text \<open>One page of \<open>write_verify_loop\<close>: write, then read back into the page buffer.\<close>

lemma write_verify_page:
  assumes hr: "honest_reads drv peek" and ld: "local_drv drv peek"
    and pg: "unat (pg_size s) = 2 ^ k" "k < 32" and ok: "cache_ok n s" and "remain \<le> length dat"
    and l: "l = pg_leading s off" and c: "c = pg_chunk s off remain"
    and s0: "s0 = s\<lparr>data_buf := memcpy_at (memcpy_at (data_buf s) 0 (replicate (unat (rawpage_size n)) 0xff)) l (take c dat)\<rparr>"
    and wp: "nmbm_write_phys_page drv (off - l) (Some (data_buf s0)) None s0 = (ok1, s1)"
    and rd: "read_page_cache drv (off - l) s1 = (r, s2)"
  shows "l = off mod 2 ^ k" "c = min (2 ^ k - l) remain" "pg_size s2 = pg_size s"
    "length (data_buf s1) = length (data_buf s)" "length (data_buf s2) = length (data_buf s)"
    "peek (nand s2) = peek (nand s1)"
    "0 \<le> r \<Longrightarrow> take (2 ^ k) (data_buf s2) = map (peek (nand s1)) [off - l..<off - l + 2 ^ k]"
    "x < off - l \<Longrightarrow> peek (nand s1) x = peek (nand s) x"
proof -
  show ml: "l = off mod 2 ^ k" using pg_leading_mod [OF pg] by (simp add: l)
  show cm: "c = min (2 ^ k - l) remain" using pg by (auto simp: c pg_chunk_def l)
  have "l < 2 ^ k" by (simp add: ml)
  then have "l + c \<le> 2 ^ k" using cm by simp
  then have "l + c \<le> length (data_buf s)" using pg(1) ok by (simp add: cache_ok_def)
  moreover have "c \<le> length dat" using cm \<open>remain \<le> length dat\<close> by simp
  ultimately have "length (data_buf s0) = length (data_buf s)"
    using ok by (simp add: s0 cache_ok_def min_absorb2)
  moreover have "data_buf s1 = data_buf s0"
    using wp by (auto simp: nmbm_write_phys_page_def dest: write_phys_loop_buf)
  ultimately show lb: "length (data_buf s1) = length (data_buf s)" by simp
  have p1: "pg_size s1 = pg_size s"
    using write_phys_page_frame [OF wp] by (simp add: s0 io_upd_fields)
  then show "pg_size s2 = pg_size s"
    using read_page_cache_frame [OF rd] by (simp add: io_upd_fields)
  show "length (data_buf s2) = length (data_buf s)" "peek (nand s2) = peek (nand s1)"
    "0 \<le> r \<Longrightarrow> take (2 ^ k) (data_buf s2) = map (peek (nand s1)) [off - l..<off - l + 2 ^ k]"
    using read_page_cache_honest [OF hr rd] ok pg(1) lb by (simp_all add: p1 cache_ok_def)
  show "peek (nand s1) x = peek (nand s) x" if "x < off - l"
    using write_phys_loop_local [OF ld wp [unfolded nmbm_write_phys_page_def], of x] that by (simp add: s0)
qed

lemma write_verify_loop_unfold:
  assumes "write_verify_loop drv n off remain dat s = (ok, t)" and "remain \<noteq> 0"
    and "s0 = s\<lparr>data_buf := memcpy_at (memcpy_at (data_buf s) 0 (replicate (unat (rawpage_size n)) 0xff))
            (pg_leading s off) (take (pg_chunk s off remain) dat)\<rparr>"
    and "nmbm_write_phys_page drv (off - pg_leading s off) (Some (data_buf s0)) None s0 = (ok1, s1)"
    and "read_page_cache drv (off - pg_leading s off) s1 = (r, s2)"
  shows "(ok, t) = (if \<not> ok1 then (False, s1) else if r < 0 then (False, s2)
      else if \<not> memcmp_eq (drop (pg_leading s off) (data_buf s2)) dat (pg_chunk s off remain) then (False, s2)
      else write_verify_loop drv n (off + pg_chunk s off remain) (remain - pg_chunk s off remain)
             (drop (pg_chunk s off remain) dat) s2)"
  using assms(1,2)
  by (simp only: write_verify_loop.simps [of drv n off] Let_def assms(3) [symmetric] assms(4,5) prod.case if_False)

lemma chunk_align:
  "c = min (2 ^ k - off mod 2 ^ k) remain \<Longrightarrow> c \<noteq> remain \<Longrightarrow> (off + c) mod 2 ^ k = 0" for off :: nat
proof -
  assume "c = min (2 ^ k - off mod 2 ^ k) remain" "c \<noteq> remain"
  then have "off + c = (off - off mod 2 ^ k) + 2 ^ k" by simp
  then show ?thesis by (simp add: minus_mod_eq_mult_div)
qed

text \<open>Whatever its result, a verified write leaves the bytes before its first page alone.\<close>

lemma write_verify_loop_below:
  assumes hr: "honest_reads drv peek" and ld: "local_drv drv peek"
    and w: "write_verify_loop drv n off remain dat s = (ok, t)"
    and pg: "unat (pg_size s) = 2 ^ k" "k < 32" and cok: "cache_ok n s" and len: "remain \<le> length dat"
  shows "length (data_buf t) = length (data_buf s) \<and>
     (\<forall>x. x < off - off mod 2 ^ k \<longrightarrow> peek (nand t) x = peek (nand s) x)"
  using w pg(1) cok len
proof (induction remain arbitrary: off dat s rule: less_induct)
  case (less remain)
  show ?case
  proof (cases "remain = 0")
    case True
    with less.prems show ?thesis by (simp add: write_verify_loop.simps)
  next
    case False
    define l c where "l = pg_leading s off" and "c = pg_chunk s off remain"
    define s0 where "s0 = s\<lparr>data_buf := memcpy_at (memcpy_at (data_buf s) 0 (replicate (unat (rawpage_size n)) 0xff)) l (take c dat)\<rparr>"
    obtain ok1 s1 where wp: "nmbm_write_phys_page drv (off - l) (Some (data_buf s0)) None s0 = (ok1, s1)" by fastforce
    obtain r s2 where rd: "read_page_cache drv (off - l) s1 = (r, s2)" by fastforce
    note pgf = write_verify_page [OF hr ld less.prems(2) pg(2) less.prems(3,4) l_def c_def s0_def wp rd]
    note eq = write_verify_loop_unfold [OF less.prems(1) False s0_def [unfolded l_def c_def]
        wp [unfolded l_def] rd [unfolded l_def], folded l_def c_def]
    have c0: "0 < c" using pgf(1,2) False by simp
    have IH: "length (data_buf t) = length (data_buf s2) \<and>
        (\<forall>x. x < off + c - (off + c) mod 2 ^ k \<longrightarrow> peek (nand t) x = peek (nand s2) x)"
      if "write_verify_loop drv n (off + c) (remain - c) (drop c dat) s2 = (ok, t)"
      using less.prems(2,3,4) c0 False that
      by (intro less.IH [OF _ that]) (auto simp: pgf(3,5) cache_ok_def)
    have keep: "peek (nand t) x = peek (nand s2) x"
      if "write_verify_loop drv n (off + c) (remain - c) (drop c dat) s2 = (ok, t)" "x < off + c" for x
    proof (cases "c = remain")
      case True
      with that show ?thesis by (simp add: write_verify_loop.simps)
    next
      case False
      then show ?thesis using IH [OF that(1)] that(2) chunk_align [of c k off remain] pgf(1,2) by simp
    qed
    have "x < off + c" if "x < off - off mod 2 ^ k" for x using that by simp
    then show ?thesis
      using eq IH keep pgf(1,4,5,6,8) by (auto split: if_splits)
  qed
qed

text \<open>A verified write that succeeds has stored its data.\<close>

lemma write_verify_loop_sound:
  assumes hr: "honest_reads drv peek" and ld: "local_drv drv peek"
    and w: "write_verify_loop drv n off remain dat s = (True, t)"
    and pg: "unat (pg_size s) = 2 ^ k" "k < 32" and cok: "cache_ok n s" and len: "remain \<le> length dat"
  shows "stored peek (nand t) off (take remain dat)"
  using w pg(1) cok len
proof (induction remain arbitrary: off dat s rule: less_induct)
  case (less remain)
  show ?case
  proof (cases "remain = 0")
    case True
    then show ?thesis by (simp add: stored_def)
  next
    case False
    define l c where "l = pg_leading s off" and "c = pg_chunk s off remain"
    define s0 where "s0 = s\<lparr>data_buf := memcpy_at (memcpy_at (data_buf s) 0 (replicate (unat (rawpage_size n)) 0xff)) l (take c dat)\<rparr>"
    obtain ok1 s1 where wp: "nmbm_write_phys_page drv (off - l) (Some (data_buf s0)) None s0 = (ok1, s1)" by fastforce
    obtain r s2 where rd: "read_page_cache drv (off - l) s1 = (r, s2)" by fastforce
    note pgf = write_verify_page [OF hr ld less.prems(2) pg(2) less.prems(3,4) l_def c_def s0_def wp rd]
    note eq = write_verify_loop_unfold [OF less.prems(1) False s0_def [unfolded l_def c_def]
        wp [unfolded l_def] rd [unfolded l_def], folded l_def c_def]
    have c0: "0 < c" and cl: "c \<le> length dat" using pgf(1,2) False less.prems(4) by simp_all
    have lk: "l < 2 ^ k" by (simp add: pgf(1))
    have ver: "0 \<le> r" "take c (drop l (data_buf s2)) = take c dat"
      and rest: "write_verify_loop drv n (off + c) (remain - c) (drop c dat) s2 = (True, t)"
      using eq by (auto simp: memcmp_eq_def split: if_splits)
    have here: "stored peek (nand s2) off (take c dat)"
    proof -
      have "take c (drop l (take (2 ^ k) (data_buf s2))) = take c (drop l (data_buf s2))"
        using pgf(2) by (simp add: drop_take)
      then have "take c dat = take c (drop l (map (peek (nand s1)) [off - l..<off - l + 2 ^ k]))"
        using pgf(7) ver by simp
      moreover have "l + i < 2 ^ k" if "i < c" for i using that pgf(2) by (auto simp: less_diff_conv add.commute)
      ultimately have "take c dat ! i = peek (nand s1) (off + i)" if "i < c" for i
        using that lk by (simp add: nth_drop) (simp add: pgf(1))
      then show ?thesis by (simp add: stored_def pgf(6))
    qed
    have cok2: "unat (pg_size s2) = 2 ^ k" "cache_ok n s2" "remain - c \<le> length (drop c dat)"
      using less.prems(2,3,4) by (auto simp: pgf(3,5) cache_ok_def)
    have IH: "stored peek (nand t) (off + c) (take (remain - c) (drop c dat))"
      using c0 False cok2 by (intro less.IH [OF _ rest]) auto
    have keep: "peek (nand t) x = peek (nand s2) x" if "x < off + c" for x
    proof (cases "c = remain")
      case True
      with rest show ?thesis by (simp add: write_verify_loop.simps)
    next
      case False
      then show ?thesis
        using write_verify_loop_below [OF hr ld rest cok2(1) pg(2) cok2(2,3)] that chunk_align [of c k off remain] pgf(1,2)
        by simp
    qed
    have "take remain dat = take c dat @ take (remain - c) (drop c dat)"
      using pgf(2) by (simp flip: take_add)
    moreover have "stored peek (nand t) off (take c dat)"
      using here keep cl by (simp add: stored_def)
    ultimately show ?thesis
      using IH cl by (simp add: stored_append min_absorb1)
  qed
qed

section \<open>Verified ranges\<close>

text \<open>Asking for a bad-block mark changes no data byte, setting one changes none before the block.\<close>

definition calm_marks :: "'d nand_drv \<Rightarrow> ('d \<Rightarrow> nat \<Rightarrow> byte) \<Rightarrow> bool" where
  "calm_marks drv peek \<longleftrightarrow>
     (\<forall>a d r d'. drv_block_isbad drv a d = (r, d') \<longrightarrow> peek d' = peek d) \<and>
     (\<forall>a d r d' x. drv_block_markbad drv a d = (r, d') \<longrightarrow> x < a \<longrightarrow> peek d' x = peek d x)"

lemma check_bad_calm:
  "calm_marks drv peek \<Longrightarrow> nmbm_check_bad_phys_block drv ba s = (b, t) \<Longrightarrow>
   peek (nand t) = peek (nand s) \<and> data_buf t = data_buf s"
  unfolding calm_marks_def nmbm_check_bad_phys_block_def by (auto split: prod.splits)

lemma retire_calm:
  "calm_marks drv peek \<Longrightarrow> retire_block drv ba n s = (n', t) \<Longrightarrow>
   data_buf t = data_buf s \<and> (x < ba2addr s ba \<longrightarrow> peek (nand t) x = peek (nand s) x)"
  unfolding calm_marks_def retire_block_def nmbm_mark_phys_bad_block_def by (auto split: prod.splits)

lemma erase_phys_loop_below:
  assumes "local_drv drv peek" and "erase_phys_loop drv k addr s = (ok, t)"
  shows "data_buf t = data_buf s \<and> (x < addr \<longrightarrow> peek (nand t) x = peek (nand s) x)"
  using assms(2)
proof (induction k arbitrary: s)
  case (Suc k)
  obtain r d where e: "drv_erase drv addr (unat (erasesize (mtd s))) (nand s) = (r, d)" by fastforce
  have "peek d x = peek (nand s) x" if "x < addr"
    by (rule local_eraseD [OF assms(1) e]) (use that in auto)
  with Suc e show ?case by (auto simp: Let_def split: if_splits)
qed simp

lemma erase_check_loop_honest:
  assumes "honest_reads drv peek" and "erase_check_loop drv addr offs s = (ok, t)"
    and "unat (pg_size s) \<le> length (data_buf s)"
  shows "peek (nand t) = peek (nand s) \<and> length (data_buf t) = length (data_buf s)"
  using assms(2,3)
proof (induction offs arbitrary: s)
  case (Cons off offs)
  obtain r s1 where rd: "read_page_cache drv (addr + off) s = (r, s1)" by fastforce
  have "pg_size s1 = pg_size s" using read_page_cache_frame [OF rd] by (simp add: io_upd_fields)
  with Cons read_page_cache_honest [OF assms(1) rd Cons.prems(2)] rd show ?case
    by (auto split: if_splits)
qed simp

lemma erase_block_and_check_below:
  assumes "honest_reads drv peek" and "local_drv drv peek" and "cache_ok n s"
    and "nmbm_erase_block_and_check drv n ba s = (ok, t)"
  shows "length (data_buf t) = length (data_buf s) \<and> (x < ba2addr s ba \<longrightarrow> peek (nand t) x = peek (nand s) x)"
proof -
  obtain er s1 where e: "erase_phys_loop drv NMBM_TRY_COUNT (ba2addr s ba) s = (er, s1)" by fastforce
  have "pg_size s1 = pg_size s" using erase_phys_loop_frame [OF e] by (simp add: io_upd_fields)
  then have "unat (pg_size s1) \<le> length (data_buf s1)"
    using erase_phys_loop_below [OF assms(2) e] assms(3) by (simp add: cache_ok_def)
  moreover obtain ec s2 where c: "erase_check_loop drv (ba2addr s1 ba) (page_offs s1) s1 = (ec, s2)" by fastforce
  moreover have "(ok, t) = (if \<not> er then (False, s1) else if \<not> empty_page_ecc_ok n then (True, s1) else (ec, s2))"
    unfolding assms(4) [symmetric] by (simp add: nmbm_erase_block_and_check_def nmbm_erase_phys_block_def e c)
  ultimately show ?thesis
    using erase_check_loop_honest [OF assms(1) c] erase_phys_loop_below [OF assms(2) e, of x] by (auto split: if_splits)
qed

lemma pages_geom:
  assumes "pages_ok s" and "pg_size s \<le> blk_size s"
  shows "unat (pg_shift s) < 32" "ba2addr s ba mod 2 ^ unat (pg_shift s) = 0"
proof -
  let ?p = "unat (pg_shift s)" and ?b = "unat (blk_shift s)"
  have eq: "unat (pg_size s) = 2 ^ ?p" "unat (blk_size s) = 2 ^ ?b" using assms(1) by (auto simp: pages_ok_def geom_ok_def)
  have "(2 :: nat) ^ ?p < 2 ^ LENGTH(32)" using unat_bound [of "pg_size s"] unfolding eq(1) .
  then have "?p < LENGTH(32)" by (rule power_less_imp_less_exp [rotated]) simp
  then show "?p < 32" by simp
  have "(2 :: nat) ^ ?p \<le> 2 ^ ?b" using assms(2) eq by (simp add: word_le_nat_alt)
  then have "?p \<le> ?b" by (rule power_le_imp_le_exp [rotated]) simp
  then have "(2 :: nat) ^ ?p dvd 2 ^ ?b" by (rule le_imp_power_dvd)
  then show "ba2addr s ba mod 2 ^ ?p = 0" by (simp add: ba2addr_def blk_addr_def)
qed

lemma io_upd_pages:
  "io_upd s t \<Longrightarrow> pages_ok t = pages_ok s" "io_upd s t \<Longrightarrow> ba2addr t ba = ba2addr s ba"
  by (auto simp: pages_ok_def geom_ok_def chip_fits_def ba2addr_def blk_addr_def elim!: io_updE)

lemma try_block_stored:
  assumes hr: "honest_reads drv peek" and ld: "local_drv drv peek" and cm: "calm_marks drv peek"
    and pg: "pages_ok s" "pg_size s \<le> blk_size s" and cok: "cache_ok n s" and len: "k \<le> length dat"
    and tb: "try_block drv ba dat k n s = (ok, n', t)"
  shows "length (data_buf t) = length (data_buf s) \<and> (x < ba2addr s ba \<longrightarrow> peek (nand t) x = peek (nand s) x) \<and>
     (ok \<longrightarrow> stored peek (nand t) (ba2addr s ba) (take k dat))"
proof (cases "nmbm_get_block_state n ba = BLOCK_ST_GOOD")
  case False
  with tb show ?thesis by (simp add: try_block_def)
next
  case True
  obtain bad s1 where c: "nmbm_check_bad_phys_block drv ba s = (bad, s1)" by fastforce
  obtain er s2 where e: "nmbm_erase_block_and_check drv n ba s1 = (er, s2)" by fastforce
  obtain w s3 where w: "write_verify_loop drv n (ba2addr s2 ba) k dat s2 = (w, s3)" by fastforce
  obtain n4 s4 where r4: "retire_block drv ba n s2 = (n4, s4)" by fastforce
  obtain n5 s5 where r5: "retire_block drv ba n s3 = (n5, s5)" by fastforce
  have eq: "(ok, n', t) = (if bad then (False, set_state n ba BLOCK_ST_BAD, s1) else if \<not> er then (False, n4, s4)
      else if \<not> w then (False, n5, s5) else (True, n, s3))"
    using tb True by (simp only: try_block_def nmbn_write_verify_data_def Let_def c e w r4 r5 prod.case) simp
  have io1: "io_upd s s1" using check_bad_frame [OF c] .
  then have io2: "io_upd s s2" using io_upd_trans erase_block_and_check_frame [OF e] by blast
  then have io3: "io_upd s s3" using io_upd_trans write_verify_loop_frame [OF w] by blast
  note c1 = check_bad_calm [OF cm c]
  have cok1: "cache_ok n s1" using cok c1 io1 by (simp add: cache_ok_def io_upd_fields)
  note e2 = erase_block_and_check_below [OF hr ld cok1 e, of x]
  have cok2: "cache_ok n s2" using cok1 e2 io1 io2 by (simp add: cache_ok_def io_upd_fields)
  have pg2: "unat (pg_size s2) = 2 ^ unat (pg_shift s)" using pg(1) io2 by (simp add: pages_ok_def io_upd_fields)
  note w3 = write_verify_loop_below [OF hr ld w pg2 pages_geom(1) [OF pg] cok2 len]
  note adr = io_upd_pages(2) [OF io1, of ba] io_upd_pages(2) [OF io2, of ba] io_upd_pages(2) [OF io3, of ba]
  have "stored peek (nand s3) (ba2addr s ba) (take k dat)" if w
    using write_verify_loop_sound [OF hr ld _ pg2 pages_geom(1) [OF pg] cok2 len] w that by (simp add: adr)
  then show ?thesis
    using eq c1 e2 w3 retire_calm [OF cm r4, of x] retire_calm [OF cm r5, of x] pages_geom(2) [OF pg, of ba]
    by (auto simp: adr split: if_splits)
qed


lemma try_block_keeps_good:
  assumes "try_block drv ba dat k n s = (ok, n', t)" and "c \<noteq> ba" and "c \<in> good_set n"
  shows "c \<in> good_set n'"
  using assms
  by (auto simp: try_block_def retire_block_def good_set_def get_set_bad good_in_range Let_def split: prod.splits if_splits)

text \<open>The data, cut into chunks of the block size, lie in the blocks of the list.\<close>

fun stored_chunks :: "('d \<Rightarrow> nat \<Rightarrow> byte) \<Rightarrow> 'd bmt_desc \<Rightarrow> u32 list \<Rightarrow> byte list \<Rightarrow> bool" where
  "stored_chunks peek s [] dat \<longleftrightarrow> dat = []"
| "stored_chunks peek s (b # bs) dat \<longleftrightarrow> dat \<noteq> [] \<and>
     stored peek (nand s) (ba2addr s b) (take (unat (blk_size s)) dat) \<and>
     stored_chunks peek s bs (drop (unat (blk_size s)) dat)"

lemma ba2addr_step:
  assumes "geom_ok s" and "a < b" and "i < unat (blk_size s)"
  shows "ba2addr s a + i < ba2addr s b"
proof -
  have "Suc (unat a) * 2 ^ unat (blk_shift s) \<le> unat b * 2 ^ unat (blk_shift s)"
    using assms(2) by (intro mult_le_mono1) (simp add: word_less_nat_alt)
  with assms(1,3) show ?thesis by (simp add: ba2addr_def blk_addr_def geom_ok_def)
qed

text \<open>The recursive call after a round, in one form for both outcomes.\<close>

lemma write_mgmt_loop_next:
  assumes "write_mgmt_loop drv ba limit start dat remain sz n s = r" and "remain \<noteq> 0 \<and> ba < limit"
    and "try_block drv ba dat (min remain (unat (blk_size s))) n s = (ok, n1, s1)"
  shows "write_mgmt_loop drv (ba + 1) limit (if ok \<and> remain = sz then ba else start)
     (if ok then drop (min remain (unat (blk_size s))) dat else dat)
     (if ok then remain - min remain (unat (blk_size s)) else remain) sz n1 s1 = r"
  using assms(1,2) by (subst (asm) write_mgmt_loop_step) (cases ok, simp_all add: assms(3) Let_def)

lemma write_mgmt_loop_end:
  assumes "write_mgmt_loop drv ba limit start dat remain sz n s = (Some (st, en), n', t)"
  shows "ba \<le> en"
  using assms
proof (induction "unat limit - unat ba" arbitrary: ba start dat remain n s rule: less_induct)
  case less
  let ?k = "min remain (unat (blk_size s))"
  obtain ok n1 s1 where b: "try_block drv ba dat ?k n s = (ok, n1, s1)" by (metis prod_cases3)
  show ?case
  proof (cases "remain \<noteq> 0 \<and> ba < limit")
    case True
    then have m: "unat limit - unat (ba + 1) < unat limit - unat ba" by (blast intro: word_Suc_measure)
    have "ba < ba + 1" using True unat_Suc_less [of ba limit] by (auto simp: word_less_nat_alt)
    moreover have "ba + 1 \<le> en"
      by (rule less.hyps [OF m write_mgmt_loop_next [OF less.prems True b]])
    ultimately show ?thesis by simp
  next
    case False
    with less.prems show ?thesis by (subst (asm) write_mgmt_loop_step) (auto split: if_splits)
  qed
qed

lemma write_mgmt_loop_stored:
  assumes hr: "honest_reads drv peek" and ld: "local_drv drv peek" and cm: "calm_marks drv peek"
    and "write_mgmt_loop drv ba limit start dat remain sz n s = (Some (st, en), n', t)"
    and "pages_ok s" "pg_size s \<le> blk_size s" "cache_ok n s" "remain \<le> length dat" "remain = 0 \<Longrightarrow> ba \<le> limit" "remain \<le> sz"
  shows "(\<forall>x < ba2addr s ba. peek (nand t) x = peek (nand s) x) \<and> (\<forall>c < ba. c \<in> good_set n \<longrightarrow> c \<in> good_set n') \<and>
     (\<exists>bs. sorted_wrt (<) bs \<and> set bs \<subseteq> {ba..<en} \<inter> good_set n' \<and> stored_chunks peek t bs (take remain dat) \<and>
        (if remain = sz \<and> 0 < sz then bs \<noteq> [] \<and> hd bs = st else st = start))"
  using assms(4-10)
proof (induction "unat limit - unat ba" arbitrary: ba start dat remain n s rule: less_induct)
  case less
  define k where "k = min remain (unat (blk_size s))"
  obtain ok n1 s1 where b: "try_block drv ba dat k n s = (ok, n1, s1)" by (metis prod_cases3)
  show ?case
  proof (cases "remain \<noteq> 0 \<and> ba < limit")
    case False
    then have "write_mgmt_loop drv ba limit start dat remain sz n s =
        (if remain \<noteq> 0 then (None, n, s) else (Some (start, ba), n, s))"
      by (subst write_mgmt_loop_step) (simp only: if_False)
    with less.prems(1) have "remain = 0" "n' = n" "t = s" "st = start" "en = ba"
      by (simp_all split: if_splits)
    then show ?thesis by (auto intro: exI [of _ "[]"])
  next
    case True
    then have m: "unat limit - unat (ba + 1) < unat limit - unat ba" by (blast intro: word_Suc_measure)
    have lt: "ba < ba + 1" "ba + 1 \<le> limit"
      using True unat_Suc_less [of ba limit] by (auto simp: word_less_nat_alt word_le_nat_alt)
    have geo: "geom_ok s" and B0: "0 < unat (blk_size s)" using less.prems(2) by (auto simp: pages_ok_def geom_ok_def)
    have kl: "k \<le> length dat" "0 < k" using less.prems(5) True B0 by (auto simp: k_def)
    note tb = try_block_stored [OF hr ld cm less.prems(2,3,4) kl(1) b]
    note de = try_block_decay [OF b]
    have io1: "io_upd s s1" using de by blast
    have pre: "pages_ok s1" "pg_size s1 \<le> blk_size s1" "cache_ok n1 s1"
      using less.prems(2-4) tb [of 0]
      by (simp_all add: io_upd_pages(1) [OF io1] io_upd_fields [OF io1] cache_ok_def decay_fields [OF conjunct1 [OF de]])
    define d' r' st' where "d' = (if ok then drop k dat else dat)" and "r' = (if ok then remain - k else remain)"
      and "st' = (if ok \<and> remain = sz then ba else start)"
    have lp: "write_mgmt_loop drv (ba + 1) limit st' d' r' sz n1 s1 = (Some (st, en), n', t)"
      using write_mgmt_loop_next [OF less.prems(1) True b [unfolded k_def]] by (simp only: d'_def r'_def st'_def k_def)
    have "r' \<le> length d'" "r' = 0 \<Longrightarrow> ba + 1 \<le> limit" "r' \<le> sz" using less.prems(5,7) lt by (auto simp: d'_def r'_def)
    from less.hyps [OF m lp pre this] obtain bs where below: "\<forall>x < ba2addr s1 (ba + 1). peek (nand t) x = peek (nand s1) x"
      and gs: "\<forall>c < ba + 1. c \<in> good_set n1 \<longrightarrow> c \<in> good_set n'"
      and bs: "sorted_wrt (<) bs" "set bs \<subseteq> {ba + 1..<en} \<inter> good_set n'" "stored_chunks peek t bs (take r' d')"
        "if r' = sz \<and> 0 < sz then bs \<noteq> [] \<and> hd bs = st else st = st'"
      by blast
    have io2: "io_upd s t" using io1 write_mgmt_loop_decay [OF lp] io_upd_trans by blast
    have adr: "ba2addr s1 c = ba2addr s c" "ba2addr t c = ba2addr s c" for c
      using io_upd_pages(2) io1 io2 by auto
    have lt': "ba2addr s ba + i < ba2addr s (ba + 1)" if "i < unat (blk_size s)" for i
      using ba2addr_step [OF geo lt(1) that] .
    have b1: "\<forall>x < ba2addr s ba. peek (nand t) x = peek (nand s) x"
    proof (intro allI impI)
      fix x assume "x < ba2addr s ba"
      then show "peek (nand t) x = peek (nand s) x"
        using below tb [of x] lt' [OF B0] by (simp add: adr)
    qed
    have g1: "\<forall>c < ba. c \<in> good_set n \<longrightarrow> c \<in> good_set n'"
    proof (intro allI impI)
      fix c assume c: "c < ba" "c \<in> good_set n"
      then have "c \<noteq> ba" "c < ba + 1" using lt(1) by auto
      with c(2) gs try_block_keeps_good [OF b] show "c \<in> good_set n'" by blast
    qed
    have sub: "{ba + 1..<en} \<subseteq> {ba..<en}" using lt(1) by auto
    show ?thesis
    proof (cases ok)
      case False
      have "set bs \<subseteq> {ba..<en} \<inter> good_set n'" using bs(2) sub by blast
      moreover have "d' = dat" "r' = remain" "st' = start" using False by (simp_all add: d'_def r'_def st'_def)
      ultimately show ?thesis using b1 g1 bs(1,3,4) by blast
    next
      case True
      have ltall: "\<forall>c \<in> set bs. ba < c"
        using bs(2) lt(1) by (meson Int_iff atLeastLessThan_iff order.strict_trans2 subset_iff)
      have "ba < en"
      proof (cases bs)
        case Nil
        then show ?thesis using write_mgmt_loop_end [OF lp] lt by auto
      next
        case (Cons c cs)
        then show ?thesis using bs(2) ltall by auto
      qed
      moreover have "ba \<in> good_set n'" using de gs True lt(1) by auto
      moreover have "take (unat (blk_size t)) (take remain dat) = take k dat" "drop (unat (blk_size t)) (take remain dat) = take r' d'"
        using io2 by (auto simp: io_upd_fields k_def d'_def r'_def True min.commute drop_take min_def)
      moreover have "stored peek (nand t) (ba2addr t ba) (take k dat)"
      proof -
        have "peek (nand t) (ba2addr s ba + i) = peek (nand s1) (ba2addr s ba + i)" if "i < k" for i
          using below lt' [of i] that by (simp add: adr k_def)
        with tb [of 0] True show ?thesis by (simp add: stored_def adr)
      qed
      moreover have "take remain dat \<noteq> []" using less.prems(5) \<open>remain \<noteq> 0 \<and> ba < limit\<close> by auto
      ultimately have "sorted_wrt (<) (ba # bs) \<and> set (ba # bs) \<subseteq> {ba..<en} \<inter> good_set n' \<and> stored_chunks peek t (ba # bs) (take remain dat)"
        using bs(1,3) ltall subset_trans [OF bs(2) Int_mono [OF sub subset_refl]] by simp
      moreover have "if remain = sz \<and> 0 < sz then ba # bs \<noteq> [] \<and> hd (ba # bs) = st else st = start"
        using bs(4) kl less.prems(7) True \<open>remain \<noteq> 0 \<and> ba < limit\<close> by (auto simp: r'_def st'_def split: if_splits)
      ultimately show ?thesis using b1 g1 by blast
    qed
  qed
qed

section \<open>Properties\<close>

lemma ram_honest: "honest_reads (ram_drv B bad) (\<lambda>d. d)"
  by (simp add: honest_reads_def ram_drv_def)

lemma ram_calm: "calm_marks (ram_drv B bad) (\<lambda>d. d)"
  by (simp add: calm_marks_def ram_drv_def)

text \<open>C3: a management write that reports success has stored its data. Whatever the driver does inside
  the ranges it is asked to touch and whatever it reports, if its successful reads are honest, then
  the data, cut into blocks, lie in an ascending list of good blocks that starts with the reported
  start block and stays below the reported end and the limit; no byte before the first candidate
  block has changed, and the instance has changed only by marking good blocks bad.\<close>

theorem nmbm_mgmt_write_stored:
  assumes "honest_reads drv peek" "local_drv drv peek" "calm_marks drv peek"
    and "pages_ok s" "pg_size s \<le> blk_size s" "cache_ok n s" and "0 < sz" "sz \<le> length dat"
    and "nmbm_write_mgmt_range drv ba limit dat sz n s = (Some (st, en), n', t)"
  shows "\<exists>bs. sorted_wrt (<) bs \<and> bs \<noteq> [] \<and> hd bs = st \<and> set bs \<subseteq> {ba..<en} \<inter> good_set n' \<and> en \<le> limit \<and>
     stored_chunks peek t bs (take sz dat) \<and>
     (\<forall>x < ba2addr s ba. peek (nand t) x = peek (nand s) x) \<and> decay n n'"
proof -
  have w: "write_mgmt_loop drv ba limit 0 dat sz sz n s = (Some (st, en), n', t)"
    using assms(9) by (simp add: nmbm_write_mgmt_range_def)
  show ?thesis
    using write_mgmt_loop_stored [OF assms(1-3) w assms(4-6,8)] write_mgmt_loop_decay [OF w]
      write_mgmt_range_bounds [OF assms(9,7)] assms(7)
    by auto
qed

theorem nmbm_mgmt_write_stored_witness:
  "\<exists>n' t bs. nmbm_write_mgmt_range (ram_drv 4 []) 3 7 [1, 2] 2 ex_nmbm (ex_desc\<lparr>data_buf := replicate 6 0\<rparr>) =
       (Some (4, 5), n', t) \<and>
     sorted_wrt (<) bs \<and> hd bs = 4 \<and> set bs \<subseteq> {3..<5} \<inter> good_set n' \<and> stored_chunks (\<lambda>d. d) t bs [1, 2]"
proof -
  let ?s = "ex_desc\<lparr>data_buf := replicate 6 0\<rparr>"
  let ?w = "nmbm_write_mgmt_range (ram_drv 4 []) 3 7 [1, 2] 2 ex_nmbm ?s"
  have "fst ?w = Some (4, 5)" by code_simp
  then obtain n' t where w: "?w = (Some (4, 5), n', t)" by (metis prod_cases3 fst_conv)
  have "pages_ok ?s" "pg_size ?s \<le> blk_size ?s" "cache_ok ex_nmbm ?s"
    by (simp_all add: pages_ok_def geom_ok_def chip_fits_def cache_ok_def ex_desc_def ex_mtd_def ex_nmbm_def)
  from nmbm_mgmt_write_stored [OF ram_honest ram_local ram_calm this _ _ w] show ?thesis
    using w by auto
qed

end
