(* ===== verification/Nmbm_Table.thy ===== *)
theory Nmbm_Table
  imports Nmbm_Phys
begin

text \<open>
  The info tables of the \<open>mediatek,nmbm\<close> backend: the table image built in memory, the main and the
  backup copy in the management area, and the procedures that rewrite and rescue them when blocks
  of that area fail.

  A procedure with a loop whose bound is not evident in its text returns an option, \<open>None\<close> standing
  for a call that never returns.
\<close>

section \<open>Building and writing a table\<close>

definition nmbm_generate_info_table_cache :: "crc_fn \<Rightarrow> nmbm_instance \<Rightarrow> bool \<times> nmbm_instance" where
  "nmbm_generate_info_table_cache crc n =
     (let c0 = replicate (unat (info_table_size n)) 0xff;
          c1 = memcpy_at c0 (unat (ift_state_table_off (info_table n)))
                 (take (unat (state_table_size n)) (u32s_bytes (block_state n)));
          c2 = memcpy_at c1 (unat (ift_mapping_table_off (info_table n)))
                 (take (unat (mapping_table_size n)) (u32s_bytes (block_mapping n)));
          h1 = (info_table n)\<lparr>ift_header := (ift_header (info_table n))
                 \<lparr>hdr_magic := NMBM_MAGIC_INFO_TABLE, hdr_version := NMBM_VER,
                  hdr_size := info_table_size n\<rparr>\<rparr>;
          changed = (block_state_changed n \<noteq> 0 \<or> block_mapping_changed n \<noteq> 0);
          h2 = (if changed then h1\<lparr>ift_write_count := ift_write_count h1 + 1\<rparr> else h1);
          c3 = memcpy_at c2 0 (ift_bytes h2)
      in (changed, n\<lparr>info_table := h2, info_table_cache := nmbm_update_checksum crc c3\<rparr>))"

definition nmbm_write_info_table ::
  "'d nand_drv \<Rightarrow> u32 \<Rightarrow> u32 \<Rightarrow> nmbm_instance \<Rightarrow> 'd bmt_desc \<Rightarrow>
   (u32 \<times> u32) option \<times> nmbm_instance \<times> 'd bmt_desc"
where
  "nmbm_write_info_table drv ba limit n s =
     nmbm_write_mgmt_range drv ba limit (info_table_cache n) (unat (info_table_size n)) n s"

definition nmbm_mark_tables_clean :: "nmbm_instance \<Rightarrow> nmbm_instance" where
  "nmbm_mark_tables_clean n = n\<lparr>block_state_changed := 0, block_mapping_changed := 0\<rparr>"

function try_reserve_loop :: "nmbm_instance \<Rightarrow> u32 \<Rightarrow> int \<Rightarrow> int \<Rightarrow> u32 \<Rightarrow> u32 option" where
  "try_reserve_loop n ba nblocks min_count limit =
     (if nblocks \<ge> min_count then
        case nmbm_block_walk n True ba (word_of_int nblocks) limit of
          Some nba \<Rightarrow> Some nba
        | None \<Rightarrow> try_reserve_loop n ba (nblocks - 1) min_count limit
      else None)"
  by pat_completeness auto
termination
  by (relation "measure (\<lambda>(n, ba, nblocks, mn, limit). nat (nblocks - mn + 1))") auto

declare try_reserve_loop.simps [simp del]

definition nmbm_try_reserve_blocks :: "nmbm_instance \<Rightarrow> u32 \<Rightarrow> u32 \<Rightarrow> int \<Rightarrow> u32 \<Rightarrow> u32 option" where
  "nmbm_try_reserve_blocks n ba count min_count limit =
     try_reserve_loop n ba (sint count) min_count limit"

text \<open>\<open>ni->mapping_blocks_top_ba - size2blk(ni, ni->info_table_size)\<close>\<close>

definition reserve_limit :: "nmbm_instance \<Rightarrow> 'd bmt_desc \<Rightarrow> u32" where
  "reserve_limit n s = mapping_blocks_top_ba n - size2blk s (unat (info_table_size n))"

text \<open>The second half of \<open>nmbm_rebuild_info_table\<close>: a backup table behind the main table, which ends at
  \<open>main_end\<close>.\<close>

definition rebuild_backup_table ::
  "'d nand_drv \<Rightarrow> u32 \<Rightarrow> nmbm_instance \<Rightarrow> 'd bmt_desc \<Rightarrow> bool \<times> nmbm_instance \<times> 'd bmt_desc"
where
  "rebuild_backup_table drv main_end n s =
     (case nmbm_try_reserve_blocks n main_end (info_table_spare_blocks n) 0 (reserve_limit n s) of
        None \<Rightarrow> (True, n, s)
      | Some next_start \<Rightarrow>
          let (r, n1, s1) = nmbm_write_info_table drv next_start (mapping_blocks_top_ba n) n s
          in case r of
               None \<Rightarrow> (True, n1, s1)
             | Some (start, fin) \<Rightarrow>
                 let n2 = n1\<lparr>backup_table_ba := start, mapping_blocks_ba := fin\<rparr>
                 in (True, nmbm_erase_range drv main_end (backup_table_ba n2) n2 s1))"

definition nmbm_rebuild_info_table ::
  "'d nand_drv \<Rightarrow> nmbm_instance \<Rightarrow> 'd bmt_desc \<Rightarrow> bool \<times> nmbm_instance \<times> 'd bmt_desc"
where
  "nmbm_rebuild_info_table drv n s =
     (let n0 = n\<lparr>main_table_ba := 0, backup_table_ba := 0,
                 mapping_blocks_ba := mapping_blocks_top_ba n\<rparr>;
          (r, n1, s1) = nmbm_write_info_table drv (mgmt_start_ba n0) (mapping_blocks_top_ba n0) n0 s
      in case r of
           None \<Rightarrow> (False, n1\<lparr>protected := True\<rparr>, s1)
         | Some (start, fin) \<Rightarrow>
             rebuild_backup_table drv fin
               (nmbm_mark_tables_clean (n1\<lparr>main_table_ba := start, mapping_blocks_ba := fin\<rparr>)) s1)"

text \<open>
  \<open>while (write_ba >= lo) { success = nmbm_write_info_table(ni, write_ba, limit, ..); if (success)
  break; write_ba--; }\<close>, the loop of both rescue procedures. \<open>write_ba\<close> is unsigned and wraps below
  0, so with \<open>lo = 0\<close> the loop does not end while every write fails. At both places \<open>write_ba\<close> is
  at least \<open>lo\<close> on entry, being the result of an ascending walk from \<open>lo\<close>.
\<close>

partial_function (option) write_down_loop ::
  "'d nand_drv \<Rightarrow> u32 \<Rightarrow> u32 \<Rightarrow> u32 \<Rightarrow> nmbm_instance \<Rightarrow> 'd bmt_desc \<Rightarrow>
   ((u32 \<times> u32) option \<times> nmbm_instance \<times> 'd bmt_desc) option"
where
  "write_down_loop drv write_ba lo limit n s =
     (if write_ba \<ge> lo then
        let (r, n1, s1) = nmbm_write_info_table drv write_ba limit n s
        in case r of
             Some x \<Rightarrow> Some (Some x, n1, s1)
           | None \<Rightarrow> write_down_loop drv (write_ba - 1) lo limit n1 s1
      else Some (None, n, s))"

definition nmbm_rescue_single_info_table ::
  "'d nand_drv \<Rightarrow> nmbm_instance \<Rightarrow> 'd bmt_desc \<Rightarrow> (bool \<times> nmbm_instance \<times> 'd bmt_desc) option"
where
  "nmbm_rescue_single_info_table drv n s =
     (let (r1, n1, s1) = nmbm_write_info_table drv (mgmt_start_ba n) (main_table_ba n) n s
      in case r1 of
           Some (start1, end1) \<Rightarrow>
             let n2 = nmbm_mark_tables_clean (n1\<lparr>backup_table_ba := main_table_ba n1, main_table_ba := start1\<rparr>);
                 (n3, s3) = nmbm_erase_range drv end1 (backup_table_ba n2) n2 s1
             in Some (True, n3, s3)
         | None \<Rightarrow>
             case nmbm_try_reserve_blocks n1 (mapping_blocks_ba n1) (info_table_spare_blocks n1) 0
                    (reserve_limit n1 s1) of
               None \<Rightarrow> Some (False, n1, s1)
             | Some write_ba \<Rightarrow>
                 do {
                   (r2, n2, s2) \<leftarrow> write_down_loop drv write_ba (mapping_blocks_ba n1)
                                     (mapping_blocks_top_ba n1) n1 s1;
                   case r2 of
                     None \<Rightarrow> Some (False, n2, s2)
                   | Some (start2, end2) \<Rightarrow>
                       let (n3, s3) = nmbm_erase_range drv (mapping_blocks_ba n2) start2 n2 s2
                       in Some (True, nmbm_mark_tables_clean
                                 (n3\<lparr>backup_table_ba := start2, mapping_blocks_ba := end2\<rparr>), s3)
                 })"

definition nmbm_update_single_info_table ::
  "'d nand_drv \<Rightarrow> bool \<Rightarrow> nmbm_instance \<Rightarrow> 'd bmt_desc \<Rightarrow> (bool \<times> nmbm_instance \<times> 'd bmt_desc) option"
where
  "nmbm_update_single_info_table drv update_main n s =
     (let (r, n1, s1) = nmbm_write_info_table drv
            (if update_main then main_table_ba n else backup_table_ba n)
            (if update_main then backup_table_ba n else mapping_blocks_top_ba n) n s
      in case r of
           Some (start, fin) \<Rightarrow>
             Some (True, nmbm_mark_tables_clean
               (if update_main then n1\<lparr>main_table_ba := start\<rparr>
                else n1\<lparr>backup_table_ba := start, mapping_blocks_ba := fin\<rparr>), s1)
         | None \<Rightarrow>
             if update_main then
               nmbm_rescue_single_info_table drv
                 (n1\<lparr>main_table_ba := backup_table_ba n1, backup_table_ba := 0\<rparr>) s1
             else Some (False, n1\<lparr>mapping_blocks_ba := backup_table_ba n1, backup_table_ba := 0\<rparr>, s1))"

text \<open>The last part of \<open>nmbm_rescue_main_info_table\<close>: a new backup table behind the new main table.\<close>

definition rescue_main_new_backup ::
  "'d nand_drv \<Rightarrow> u32 \<Rightarrow> nmbm_instance \<Rightarrow> 'd bmt_desc \<Rightarrow> (bool \<times> nmbm_instance \<times> 'd bmt_desc) option"
where
  "rescue_main_new_backup drv main_end n s =
     (let n0 = n\<lparr>mapping_blocks_ba := main_end\<rparr>
      in case nmbm_try_reserve_blocks n0 main_end (info_table_spare_blocks n0) 0 (reserve_limit n0 s) of
           None \<Rightarrow> Some (True, n0\<lparr>backup_table_ba := 0\<rparr>, s)
         | Some write_ba \<Rightarrow>
             do {
               (r, n1, s1) \<leftarrow> write_down_loop drv write_ba main_end (mapping_blocks_top_ba n0) n0 s;
               case r of
                 None \<Rightarrow> Some (True, n1\<lparr>backup_table_ba := 0\<rparr>, s1)
               | Some (start, fin) \<Rightarrow>
                   let n2 = n1\<lparr>backup_table_ba := start, mapping_blocks_ba := fin\<rparr>;
                       (n3, s3) = nmbm_erase_range drv main_end (backup_table_ba n2) n2 s1
                   in Some (True, n3, s3)
             })"

definition nmbm_rescue_main_info_table ::
  "'d nand_drv \<Rightarrow> nmbm_instance \<Rightarrow> 'd bmt_desc \<Rightarrow> (bool \<times> nmbm_instance \<times> 'd bmt_desc) option"
where
  "nmbm_rescue_main_info_table drv n s =
     (case nmbm_try_reserve_blocks n (mapping_blocks_ba n) (info_table_spare_blocks n) 0 (reserve_limit n s) of
        None \<Rightarrow> Some (True, n\<lparr>main_table_ba := backup_table_ba n, backup_table_ba := 0\<rparr>, s)
      | Some write_ba \<Rightarrow>
          do {
            (r1, n1, s1) \<leftarrow> write_down_loop drv write_ba (mapping_blocks_ba n) (mapping_blocks_top_ba n) n s;
            case r1 of
              None \<Rightarrow> Some (True, n1\<lparr>main_table_ba := backup_table_ba n1, backup_table_ba := 0\<rparr>, s1)
            | Some (tmp_start, tmp_end) \<Rightarrow>
                let n2 = n1\<lparr>mapping_blocks_ba := tmp_end\<rparr>;
                    (r2, n3, s3) = nmbm_write_info_table drv (mgmt_start_ba n2) tmp_start n2 s1
                in case r2 of
                     None \<Rightarrow> Some (True, nmbm_mark_tables_clean
                               (n3\<lparr>main_table_ba := tmp_start, backup_table_ba := 0\<rparr>), s3)
                   | Some (main_start, main_end) \<Rightarrow>
                       let n4 = nmbm_mark_tables_clean (n3\<lparr>main_table_ba := main_start\<rparr>)
                       in if main_end \<le> tmp_start
                          then Some (True, n4\<lparr>backup_table_ba := tmp_start\<rparr>, s3)
                          else rescue_main_new_backup drv main_end n4 s3
          })"

section \<open>Updating the tables\<close>

text \<open>The code from the label \<open>write_main_table\<close> on.\<close>

definition update_main_table ::
  "'d nand_drv \<Rightarrow> u32 \<Rightarrow> nmbm_instance \<Rightarrow> 'd bmt_desc \<Rightarrow> (bool \<times> nmbm_instance \<times> 'd bmt_desc) option"
where
  "update_main_table drv limit n s =
     (if main_table_ba n = 0 then Some (nmbm_rebuild_info_table drv n s)
      else let (r, n1, s1) = nmbm_write_info_table drv (main_table_ba n) limit n s
           in case r of
                None \<Rightarrow> if backup_table_ba n1 = 0 then Some (nmbm_rebuild_info_table drv n1 s1)
                        else nmbm_rescue_main_info_table drv n1 s1
              | Some (start, fin) \<Rightarrow>
                  let n2 = n1\<lparr>main_table_ba := start\<rparr>;
                      n3 = (if backup_table_ba n2 = 0 then n2\<lparr>mapping_blocks_ba := fin\<rparr> else n2)
                  in Some (True, nmbm_mark_tables_clean n3, s1))"

definition nmbm_update_info_table_once ::
  "'d nand_drv \<Rightarrow> crc_fn \<Rightarrow> bool \<Rightarrow> nmbm_instance \<Rightarrow> 'd bmt_desc \<Rightarrow>
   (bool \<times> nmbm_instance \<times> 'd bmt_desc) option"
where
  "nmbm_update_info_table_once drv crc force n s =
     (let (changed, n0) = nmbm_generate_info_table_cache crc n
      in if \<not> changed \<and> \<not> force then Some (True, n0, s)
         else if backup_table_ba n0 = 0 then update_main_table drv (mapping_blocks_top_ba n0) n0 s
         else let (r, n1, s1) = nmbm_write_info_table drv (backup_table_ba n0) (mapping_blocks_top_ba n0) n0 s
              in case r of
                   None \<Rightarrow>
                     let n2 = n1\<lparr>mapping_blocks_ba := backup_table_ba n1, backup_table_ba := 0\<rparr>
                     in update_main_table drv (mapping_blocks_top_ba n2) n2 s1
                 | Some (start, fin) \<Rightarrow>
                     let n2 = nmbm_mark_tables_clean (n1\<lparr>backup_table_ba := start, mapping_blocks_ba := fin\<rparr>)
                     in update_main_table drv (backup_table_ba n2) n2 s1)"

partial_function (option) update_info_table_loop ::
  "'d nand_drv \<Rightarrow> crc_fn \<Rightarrow> nmbm_instance \<Rightarrow> 'd bmt_desc \<Rightarrow> (bool \<times> nmbm_instance \<times> 'd bmt_desc) option"
where
  "update_info_table_loop drv crc n s =
     (if block_state_changed n \<noteq> 0 \<or> block_mapping_changed n \<noteq> 0 then
        do {
          (success, n1, s1) \<leftarrow> nmbm_update_info_table_once drv crc False n s;
          if success then update_info_table_loop drv crc n1 s1 else Some (False, n1, s1)
        }
      else Some (True, n, s))"

definition nmbm_update_info_table ::
  "'d nand_drv \<Rightarrow> crc_fn \<Rightarrow> nmbm_instance \<Rightarrow> 'd bmt_desc \<Rightarrow> (bool \<times> nmbm_instance \<times> 'd bmt_desc) option"
where
  "nmbm_update_info_table drv crc n s =
     (if protected n then Some (True, n, s) else update_info_table_loop drv crc n s)"

section \<open>Mapping a block\<close>

definition nmbm_map_block ::
  "'d nand_drv \<Rightarrow> crc_fn \<Rightarrow> u32 \<Rightarrow> nmbm_instance \<Rightarrow> 'd bmt_desc \<Rightarrow>
   (bool \<times> nmbm_instance \<times> 'd bmt_desc) option"
where
  "nmbm_map_block drv crc lb n s =
     (if mapping_blocks_ba n = mapping_blocks_top_ba n then Some (False, n, s)
      else case nmbm_block_walk n False (mapping_blocks_top_ba n) 0 (mapping_blocks_ba n) of
             None \<Rightarrow>
               do {
                 (_, n1, s1) \<leftarrow> nmbm_update_info_table drv crc n s;
                 Some (False, n1\<lparr>mapping_blocks_top_ba := mapping_blocks_ba n1\<rparr>, s1)
               }
           | Some pb \<Rightarrow>
               Some (True, n\<lparr>block_mapping := (block_mapping n)[unat lb := pb],
                             mapping_blocks_top_ba := mapping_blocks_top_ba n - 1,
                             block_mapping_changed := block_mapping_changed n + 1\<rparr>, s))"

section \<open>What an update of the tables may change\<close>

text \<open>Both change counters are zero: the tables in memory are stored on the chip.\<close>

definition clean :: "nmbm_instance \<Rightarrow> bool" where
  "clean n \<longleftrightarrow> block_state_changed n = 0 \<and> block_mapping_changed n = 0"

text \<open>The block numbers an instance keeps about its management area are at most \<open>K\<close>.\<close>

definition areas_below :: "u32 \<Rightarrow> nmbm_instance \<Rightarrow> bool" where
  "areas_below K n \<longleftrightarrow> mapping_blocks_top_ba n \<le> K \<and> mapping_blocks_ba n \<le> K \<and> backup_table_ba n \<le> K"

text \<open>\<open>upd n n'\<close>: only the bookkeeping of the tables differs, no block became good, and the management
  area stays within every bound it was in.\<close>

definition upd :: "nmbm_instance \<Rightarrow> nmbm_instance \<Rightarrow> bool" where
  "upd n n' \<longleftrightarrow> n' = n\<lparr>info_table_cache := info_table_cache n', info_table := info_table n',
       block_state := block_state n', block_state_changed := block_state_changed n',
       block_mapping_changed := block_mapping_changed n', protected := protected n',
       main_table_ba := main_table_ba n', backup_table_ba := backup_table_ba n',
       mapping_blocks_ba := mapping_blocks_ba n'\<rparr> \<and>
     length (block_state n') = length (block_state n) \<and> good_set n' \<subseteq> good_set n \<and>
     (\<forall>K. areas_below K n \<longrightarrow> areas_below K n')"

lemma upd_refl [simp]: "upd n n"
  by (simp add: upd_def)

lemma updE:
  assumes "upd n n'"
  obtains a b c d e f g h i where "n' = n\<lparr>info_table_cache := a, info_table := b, block_state := c,
    block_state_changed := d, block_mapping_changed := e, protected := f, main_table_ba := g,
    backup_table_ba := h, mapping_blocks_ba := i\<rparr>"
  using assms unfolding upd_def by metis

lemma upd_trans [trans]:
  assumes "upd n m" and "upd m k"
  shows "upd n k"
proof -
  have "k = n\<lparr>info_table_cache := info_table_cache k, info_table := info_table k,
       block_state := block_state k, block_state_changed := block_state_changed k,
       block_mapping_changed := block_mapping_changed k, protected := protected k,
       main_table_ba := main_table_ba k, backup_table_ba := backup_table_ba k,
       mapping_blocks_ba := mapping_blocks_ba k\<rparr>"
    using assms by (elim updE) simp
  moreover have "length (block_state k) = length (block_state n) \<and> good_set k \<subseteq> good_set n \<and>
      (\<forall>K. areas_below K n \<longrightarrow> areas_below K k)"
    using assms unfolding upd_def by auto
  ultimately show ?thesis unfolding upd_def by blast
qed

lemma upd_fields:
  assumes "upd n n'"
  shows "block_mapping n' = block_mapping n" "block_count n' = block_count n"
    "data_block_count n' = data_block_count n" "info_table_size n' = info_table_size n"
    "mapping_blocks_top_ba n' = mapping_blocks_top_ba n" "signature_ba n' = signature_ba n"
    "mgmt_start_ba n' = mgmt_start_ba n"
  using assms by (elim updE, simp)+

lemma good_set_fields [simp]:
  "good_set (n\<lparr>main_table_ba := a\<rparr>) = good_set n" "good_set (n\<lparr>backup_table_ba := a\<rparr>) = good_set n"
  "good_set (n\<lparr>mapping_blocks_ba := a\<rparr>) = good_set n" "good_set (n\<lparr>protected := p\<rparr>) = good_set n"
  "good_set (n\<lparr>info_table := i\<rparr>) = good_set n" "good_set (n\<lparr>info_table_cache := c\<rparr>) = good_set n"
  "good_set (nmbm_mark_tables_clean n) = good_set n"
  by (simp_all add: good_set_def nmbm_get_block_state_def nmbm_mark_tables_clean_def)

lemma clean_fields [simp]:
  "clean (n\<lparr>main_table_ba := a\<rparr>) = clean n" "clean (n\<lparr>backup_table_ba := a\<rparr>) = clean n"
  "clean (n\<lparr>mapping_blocks_ba := a\<rparr>) = clean n" "clean (n\<lparr>protected := p\<rparr>) = clean n"
  "clean (nmbm_mark_tables_clean n)"
  by (simp_all add: clean_def nmbm_mark_tables_clean_def)

lemma decay_upd: "decay n n' \<Longrightarrow> upd n n'"
  by (auto simp: upd_def decay_fields areas_below_def dest: decay_fields elim: decayE) (auto simp: decay_def)

lemma upd_set:
  "upd n (n\<lparr>main_table_ba := a\<rparr>)" "upd n (n\<lparr>protected := p\<rparr>)" "upd n (nmbm_mark_tables_clean n)"
  "a \<le> mapping_blocks_top_ba n \<or> a = 0 \<Longrightarrow> upd n (n\<lparr>backup_table_ba := a\<rparr>)"
  "a \<le> mapping_blocks_top_ba n \<or> a = backup_table_ba n \<Longrightarrow> upd n (n\<lparr>mapping_blocks_ba := a\<rparr>)"
  by (auto simp: upd_def areas_below_def nmbm_mark_tables_clean_def good_set_def nmbm_get_block_state_def)

text \<open>Relative to the instance \<open>m\<close> at the start of an update: the tables are stored, or a good block
  has been lost.\<close>

definition settled :: "nmbm_instance \<Rightarrow> nmbm_instance \<Rightarrow> bool" where
  "settled m n \<longleftrightarrow> good_set n \<subseteq> good_set m \<and> (clean n \<or> good_set n \<noteq> good_set m)"

lemma settled_fields [simp]:
  "settled m (n\<lparr>main_table_ba := a\<rparr>) = settled m n" "settled m (n\<lparr>backup_table_ba := a\<rparr>) = settled m n"
  "settled m (n\<lparr>mapping_blocks_ba := a\<rparr>) = settled m n"
  by (simp_all add: settled_def)

lemma settled_clean: "good_set n \<subseteq> good_set m \<Longrightarrow> settled m (nmbm_mark_tables_clean n)"
  by (simp add: settled_def)

lemma settled_decay: "settled m n \<Longrightarrow> decay n n' \<Longrightarrow> settled m n'"
  unfolding settled_def decay_def by blast

section \<open>Writes of the tables\<close>

lemma write_info_table_facts:
  assumes "nmbm_write_info_table drv ba limit n s = (r, n1, s1)" and "0 < unat (info_table_size n)"
  shows "decay n n1" "io_upd s s1" "\<And>a b. r = Some (a, b) \<Longrightarrow> ba \<le> a \<and> a < b \<and> b \<le> limit"
proof -
  note w = assms(1) [unfolded nmbm_write_info_table_def]
  show "decay n n1" "io_upd s s1"
    using write_mgmt_loop_decay [OF w [unfolded nmbm_write_mgmt_range_def]] by auto
  show "ba \<le> a \<and> a < b \<and> b \<le> limit" if "r = Some (a, b)" for a b
    using write_mgmt_range_bounds [OF w [unfolded that] assms(2)] .
qed

text \<open>The downward search for a place for a table ends when its lower bound is not block 0.\<close>

lemma write_down_loop_returns:
  assumes "0 < lo" and "0 < unat (info_table_size n)"
  shows "\<exists>r n1 s1. write_down_loop drv write_ba lo limit n s = Some (r, n1, s1) \<and> decay n n1 \<and> io_upd s s1 \<and>
     (\<forall>a b. r = Some (a, b) \<longrightarrow> lo \<le> a \<and> a < b \<and> b \<le> limit)"
  using assms(2)
proof (induction "unat write_ba" arbitrary: write_ba n s rule: less_induct)
  case less
  obtain r n1 s1 where w: "nmbm_write_info_table drv write_ba limit n s = (r, n1, s1)" by (metis prod_cases3)
  note f = write_info_table_facts [OF w less.prems]
  show ?case
  proof (cases "write_ba \<ge> lo")
    case False
    then show ?thesis by (subst write_down_loop.simps) simp
  next
    case ge: True
    show ?thesis
    proof (cases r)
      case (Some p)
      then show ?thesis using ge f w by (subst write_down_loop.simps) (cases p, auto)
    next
      case None
      have "0 < write_ba" using ge assms(1) by (rule order.strict_trans2 [rotated])
      then have "unat (write_ba - 1) < unat write_ba" using unat_pred_greater [of 0 write_ba] by (simp add: word_less_nat_alt)
      moreover have "0 < unat (info_table_size n1)" using f(1) less.prems by (simp add: decay_fields)
      ultimately obtain r2 n2 s2 where "write_down_loop drv (write_ba - 1) lo limit n1 s1 = Some (r2, n2, s2)"
        "decay n1 n2" "io_upd s1 s2" "\<forall>a b. r2 = Some (a, b) \<longrightarrow> lo \<le> a \<and> a < b \<and> b \<le> limit"
        using less.hyps by blast
      then show ?thesis
        using ge None w f(1,2) by (subst write_down_loop.simps) (auto intro: decay_trans io_upd_trans)
    qed
  qed
qed


section \<open>Progress of the update procedures\<close>

text \<open>What every procedure below guarantees: it returns, changes only what \<open>upd\<close> allows, and when it
  reports success the tables are stored or a good block has been lost relative to \<open>m\<close>.\<close>

definition progress ::
  "nmbm_instance \<Rightarrow> nmbm_instance \<Rightarrow> 'd bmt_desc \<Rightarrow> (bool \<times> nmbm_instance \<times> 'd bmt_desc) option \<Rightarrow> bool"
where
  "progress m n s r \<longleftrightarrow> (\<exists>ok n' t. r = Some (ok, n', t) \<and> upd n n' \<and> io_upd s t \<and> (ok \<longrightarrow> settled m n'))"

lemma progressI:
  "upd n n' \<Longrightarrow> io_upd s t \<Longrightarrow> (ok \<Longrightarrow> settled m n') \<Longrightarrow> progress m n s (Some (ok, n', t))"
  by (auto simp: progress_def)

lemma progress_step:
  "progress m n1 s1 r \<Longrightarrow> upd n n1 \<Longrightarrow> io_upd s s1 \<Longrightarrow> progress m n s r"
  by (auto simp: progress_def intro: upd_trans io_upd_trans)

lemma upd_good: "upd n n' \<Longrightarrow> good_set n' \<subseteq> good_set n"
  by (simp add: upd_def)

lemma upd_size: "upd n n' \<Longrightarrow> 0 < unat (info_table_size n) \<Longrightarrow> 0 < unat (info_table_size n')"
  by (simp add: upd_fields(4))

lemma write_top: "decay n n1 \<Longrightarrow> mapping_blocks_top_ba n1 = mapping_blocks_top_ba n"
  by (rule decay_fields)

lemma progress_write:
  assumes "nmbm_write_info_table drv ba limit n s = (r, n1, s1)" and "0 < unat (info_table_size n)"
    and "progress m n1 s1 x"
  shows "progress m n s x"
  using assms(3) decay_upd [OF write_info_table_facts(1) [OF assms(1,2)]] write_info_table_facts(2) [OF assms(1,2)]
  by (rule progress_step)

lemma progress_erase:
  assumes "settled m n"
  shows "progress m n s (Some (True, nmbm_erase_range drv a b n s))"
proof -
  obtain n' t where e: "nmbm_erase_range drv a b n s = (n', t)" by fastforce
  have "decay n n'" "io_upd s t" using erase_range_decay [OF e] by auto
  then show ?thesis
    unfolding e using assms by (intro progressI decay_upd) (auto intro: settled_decay)
qed

lemma upd_backup:
  assumes "c < d" and "d \<le> mapping_blocks_top_ba n"
  shows "upd n (n\<lparr>backup_table_ba := c, mapping_blocks_ba := d\<rparr>)"
proof -
  have "upd n (n\<lparr>backup_table_ba := c\<rparr>)" using assms by (intro upd_set(4)) (auto dest: order.strict_trans2)
  moreover have "upd (n\<lparr>backup_table_ba := c\<rparr>) (n\<lparr>backup_table_ba := c, mapping_blocks_ba := d\<rparr>)"
    using assms(2) by (intro upd_set(5)) simp
  ultimately show ?thesis by (rule upd_trans)
qed

lemma rebuild_backup_progress:
  assumes z: "0 < unat (info_table_size n)" and q: "settled m n"
  shows "progress m n s (Some (rebuild_backup_table drv b n s))"
proof (cases "nmbm_try_reserve_blocks n b (info_table_spare_blocks n) 0 (reserve_limit n s)")
  case None
  with q show ?thesis by (simp add: rebuild_backup_table_def progressI)
next
  case (Some ns)
  obtain r2 n3 s3 where w: "nmbm_write_info_table drv ns (mapping_blocks_top_ba n) n s = (r2, n3, s3)"
    by (metis prod_cases3)
  note f = write_info_table_facts [OF w z]
  have q3: "settled m n3" using settled_decay [OF q f(1)] .
  show ?thesis
  proof (cases r2)
    case None
    with Some w q3 f show ?thesis by (simp add: rebuild_backup_table_def progressI decay_upd)
  next
    case s2: (Some p)
    obtain c d where p: "p = (c, d)" by fastforce
    have "c < d" "d \<le> mapping_blocks_top_ba n3" using f(3) [of c d] s2 p write_top [OF f(1)] by simp_all
    note u = upd_backup [OF this]
    have "progress m (n3\<lparr>backup_table_ba := c, mapping_blocks_ba := d\<rparr>) s3
        (Some (True, nmbm_erase_range drv b c (n3\<lparr>backup_table_ba := c, mapping_blocks_ba := d\<rparr>) s3))"
      using q3 by (intro progress_erase) simp
    then have "progress m n s (Some (True, nmbm_erase_range drv b c (n3\<lparr>backup_table_ba := c, mapping_blocks_ba := d\<rparr>) s3))"
      by (intro progress_write [OF w z] progress_step [OF _ u io_upd_refl])
    then show ?thesis using Some s2 p w by (simp add: rebuild_backup_table_def Let_def)
  qed
qed

lemma rebuild_progress:
  assumes z: "0 < unat (info_table_size n)" and g: "good_set n \<subseteq> good_set m"
  shows "progress m n s (Some (nmbm_rebuild_info_table drv n s))"
proof -
  define n0 where "n0 = n\<lparr>main_table_ba := 0, backup_table_ba := 0, mapping_blocks_ba := mapping_blocks_top_ba n\<rparr>"
  have u0: "upd n n0"
    unfolding n0_def by (rule upd_trans [OF upd_set(1) upd_trans [OF upd_set(4) upd_set(5)]]) auto
  have z0: "0 < unat (info_table_size n0)" using upd_size [OF u0 z] .
  obtain r1 n1 s1 where w1: "nmbm_write_info_table drv (mgmt_start_ba n0) (mapping_blocks_top_ba n0) n0 s = (r1, n1, s1)"
    by (metis prod_cases3)
  note f1 = write_info_table_facts [OF w1 z0]
  have g1: "good_set n1 \<subseteq> good_set m" using upd_good [OF decay_upd [OF f1(1)]] upd_good [OF u0] g by simp
  have eq: "nmbm_rebuild_info_table drv n s = (case r1 of None \<Rightarrow> (False, n1\<lparr>protected := True\<rparr>, s1)
     | Some (a, b) \<Rightarrow> rebuild_backup_table drv b (nmbm_mark_tables_clean (n1\<lparr>main_table_ba := a, mapping_blocks_ba := b\<rparr>)) s1)"
    by (simp only: nmbm_rebuild_info_table_def Let_def n0_def [symmetric] w1 prod.case)
  have "progress m n1 s1 (Some (nmbm_rebuild_info_table drv n s))"
  proof (cases r1)
    case None
    then show ?thesis unfolding eq by (simp add: progressI upd_set)
  next
    case (Some p)
    obtain a b where p: "p = (a, b)" by fastforce
    let ?n2 = "nmbm_mark_tables_clean (n1\<lparr>main_table_ba := a, mapping_blocks_ba := b\<rparr>)"
    have "b \<le> mapping_blocks_top_ba n1" using f1(3) [of a b] Some p write_top [OF f1(1)] by simp
    then have u2: "upd n1 ?n2"
      by (intro upd_trans [OF upd_set(1) upd_trans [OF upd_set(5) upd_set(3)]]) simp
    have z2: "0 < unat (info_table_size ?n2)" using upd_size [OF u2 upd_size [OF decay_upd [OF f1(1)] z0]] .
    have q2: "settled m ?n2" using g1 by (intro settled_clean) simp
    from rebuild_backup_progress [OF z2 q2] show ?thesis
      unfolding eq Some p by (auto intro: progress_step [OF _ u2 io_upd_refl])
  qed
  then show ?thesis
    by (intro progress_step [OF _ u0 io_upd_refl] progress_write [OF w1 z0])
qed

lemma upd_promote: "upd n (n\<lparr>main_table_ba := a, backup_table_ba := 0\<rparr>)"
  by (rule upd_trans [OF upd_set(1) upd_set(4)]) simp

text \<open>The step of \<open>nmbm_rescue_main_info_table\<close> after the temporary table was written at \<open>tmp\<close>. The new
  main table is written below the temporary one, so the two never overlap and the code that would
  write yet another backup table is not reached.\<close>

lemma rescue_main_tail_progress:
  assumes z: "0 < unat (info_table_size n)" and g: "good_set n \<subseteq> good_set m"
    and tmp: "tmp \<le> mapping_blocks_top_ba n"
    and w: "nmbm_write_info_table drv (mgmt_start_ba n) tmp n s = (r, n3, s3)"
  shows "progress m n s
     (case r of
        None \<Rightarrow> Some (True, nmbm_mark_tables_clean (n3\<lparr>main_table_ba := tmp, backup_table_ba := 0\<rparr>), s3)
      | Some (main_start, main_end) \<Rightarrow>
          let n4 = nmbm_mark_tables_clean (n3\<lparr>main_table_ba := main_start\<rparr>)
          in if main_end \<le> tmp then Some (True, n4\<lparr>backup_table_ba := tmp\<rparr>, s3)
             else rescue_main_new_backup drv main_end n4 s3)"
proof -
  note f = write_info_table_facts [OF w z]
  have g3: "good_set n3 \<subseteq> good_set m" using upd_good [OF decay_upd [OF f(1)]] g by simp
  show ?thesis
  proof (rule progress_write [OF w z], cases r)
    case None
    have "settled m (nmbm_mark_tables_clean (n3\<lparr>main_table_ba := tmp, backup_table_ba := 0\<rparr>))"
      using g3 by (intro settled_clean) simp
    with None show "progress m n3 s3 (case r of
        None \<Rightarrow> Some (True, nmbm_mark_tables_clean (n3\<lparr>main_table_ba := tmp, backup_table_ba := 0\<rparr>), s3)
      | Some (main_start, main_end) \<Rightarrow>
          let n4 = nmbm_mark_tables_clean (n3\<lparr>main_table_ba := main_start\<rparr>)
          in if main_end \<le> tmp then Some (True, n4\<lparr>backup_table_ba := tmp\<rparr>, s3)
             else rescue_main_new_backup drv main_end n4 s3)"
      by (simp add: progressI upd_trans [OF upd_promote upd_set(3)])
  next
    case (Some p)
    obtain a b where p: "p = (a, b)" by fastforce
    let ?n4 = "nmbm_mark_tables_clean (n3\<lparr>main_table_ba := a\<rparr>)"
    have u4: "upd n3 ?n4" by (rule upd_trans [OF upd_set(1) upd_set(3)])
    have q4: "settled m ?n4" using g3 by (intro settled_clean) simp
    have z4: "0 < unat (info_table_size ?n4)" using upd_size [OF upd_trans [OF decay_upd [OF f(1)] u4] z] .
    have top4: "mapping_blocks_top_ba ?n4 = mapping_blocks_top_ba n"
      using write_top [OF f(1)] by (simp add: nmbm_mark_tables_clean_def)
    have b: "a < b" "b \<le> tmp" using f(3) [of a b] Some p by simp_all
    have "upd ?n4 (?n4\<lparr>backup_table_ba := tmp\<rparr>)" using tmp top4 by (intro upd_set(4)) simp
    then have "progress m ?n4 s3 (Some (True, ?n4\<lparr>backup_table_ba := tmp\<rparr>, s3))"
      using q4 by (simp add: progressI)
    then show "progress m n3 s3 (case r of
        None \<Rightarrow> Some (True, nmbm_mark_tables_clean (n3\<lparr>main_table_ba := tmp, backup_table_ba := 0\<rparr>), s3)
      | Some (main_start, main_end) \<Rightarrow>
          let n4 = nmbm_mark_tables_clean (n3\<lparr>main_table_ba := main_start\<rparr>)
          in if main_end \<le> tmp then Some (True, n4\<lparr>backup_table_ba := tmp\<rparr>, s3)
             else rescue_main_new_backup drv main_end n4 s3)"
      unfolding Some p option.case prod.case Let_def using b(2)
      by (simp add: progress_step [OF _ u4 io_upd_refl])
  qed
qed


lemma rescue_main_progress:
  assumes z: "0 < unat (info_table_size n)" and q: "settled m n" and lo: "0 < mapping_blocks_ba n"
    and b: "backup_table_ba n \<noteq> 0"
  shows "progress m n s (nmbm_rescue_main_info_table drv n s)"
proof (cases "nmbm_try_reserve_blocks n (mapping_blocks_ba n) (info_table_spare_blocks n) 0 (reserve_limit n s)")
  case None
  then show ?thesis using q by (simp add: nmbm_rescue_main_info_table_def progressI upd_promote)
next
  case (Some wb)
  obtain r n1 s1
    where w: "write_down_loop drv wb (mapping_blocks_ba n) (mapping_blocks_top_ba n) n s = Some (r, n1, s1)"
      and d: "decay n n1" "io_upd s s1"
      and bd: "\<forall>a c. r = Some (a, c) \<longrightarrow> mapping_blocks_ba n \<le> a \<and> a < c \<and> c \<le> mapping_blocks_top_ba n"
    using write_down_loop_returns [OF lo z] by blast
  have q1: "settled m n1" using settled_decay [OF q d(1)] .
  have u1: "upd n n1" using decay_upd [OF d(1)] .
  note unf = nmbm_rescue_main_info_table_def [of drv n s] Some w
  show ?thesis
  proof (cases r)
    case None
    then have "nmbm_rescue_main_info_table drv n s = Some (True, n1\<lparr>main_table_ba := backup_table_ba n1, backup_table_ba := 0\<rparr>, s1)"
      by (simp add: unf)
    then show ?thesis using q1 d(2) upd_trans [OF u1 upd_promote] by (simp add: progressI)
  next
    case r: (Some p)
    obtain a c where p: "p = (a, c)" by fastforce
    let ?n2 = "n1\<lparr>mapping_blocks_ba := c\<rparr>"
    obtain r2 n3 s3 where w2: "nmbm_write_info_table drv (mgmt_start_ba ?n2) a ?n2 s1 = (r2, n3, s3)" by (metis prod_cases3)
    have ac: "a < c" "c \<le> mapping_blocks_top_ba n1" using bd r p write_top [OF d(1)] by auto
    have u2: "upd n1 ?n2" using ac(2) by (intro upd_set(5)) simp
    have "progress m ?n2 s1 (nmbm_rescue_main_info_table drv n s)"
      using rescue_main_tail_progress [OF _ _ _ w2, of m] upd_size [OF upd_trans [OF u1 u2] z] q1 ac r p w2
      by (simp add: unf settled_def Let_def)
    then show ?thesis by (rule progress_step [OF _ upd_trans [OF u1 u2] d(2)])
  qed
qed

lemma update_main_progress:
  assumes z: "0 < unat (info_table_size n)" and g: "good_set n \<subseteq> good_set m"
    and b: "backup_table_ba n \<noteq> 0 \<Longrightarrow> settled m n \<and> 0 < mapping_blocks_ba n"
    and lim: "limit \<le> mapping_blocks_top_ba n \<or> limit = backup_table_ba n"
  shows "progress m n s (update_main_table drv limit n s)"
proof (cases "main_table_ba n = 0")
  case True
  then show ?thesis using rebuild_progress [OF z g] by (simp add: update_main_table_def)
next
  case False
  obtain r n1 s1 where w: "nmbm_write_info_table drv (main_table_ba n) limit n s = (r, n1, s1)" by (metis prod_cases3)
  note f = write_info_table_facts [OF w z]
  have u1: "upd n n1" using decay_upd [OF f(1)] .
  have z1: "0 < unat (info_table_size n1)" using upd_size [OF u1 z] .
  have g1: "good_set n1 \<subseteq> good_set m" using upd_good [OF u1] g by simp
  have same: "backup_table_ba n1 = backup_table_ba n" "mapping_blocks_ba n1 = mapping_blocks_ba n"
    using f(1) by (rule decay_fields)+
  show ?thesis
  proof (rule progress_write [OF w z], cases r)
    case None
    then show "progress m n1 s1 (update_main_table drv limit n s)"
      using False w rebuild_progress [OF z1 g1] rescue_main_progress [OF z1, of m] settled_decay [OF _ f(1)] b same
      by (auto simp: update_main_table_def)
  next
    case (Some p)
    obtain a c where p: "p = (a, c)" by fastforce
    let ?n2 = "n1\<lparr>main_table_ba := a\<rparr>"
    let ?n3 = "if backup_table_ba ?n2 = 0 then ?n2\<lparr>mapping_blocks_ba := c\<rparr> else ?n2"
    have "c \<le> limit" using f(3) [of a c] Some p by simp
    moreover have "limit \<le> mapping_blocks_top_ba n1" if "backup_table_ba n1 = 0"
      using lim that same write_top [OF f(1)] by auto
    ultimately have "upd ?n2 ?n3" by (auto intro: upd_set(5))
    then have "upd n1 (nmbm_mark_tables_clean ?n3)"
      by (rule upd_trans [OF upd_set(1) upd_trans [OF _ upd_set(3)]])
    moreover have "settled m (nmbm_mark_tables_clean ?n3)" using g1 by (intro settled_clean) simp
    ultimately show "progress m n1 s1 (update_main_table drv limit n s)"
      using False w Some p by (simp add: update_main_table_def Let_def progressI)
  qed
qed


lemma generate_cache_upd:
  assumes "nmbm_generate_info_table_cache crc n = (changed, n0)"
  shows "upd n n0" "good_set n0 = good_set n" "changed \<longleftrightarrow> \<not> clean n"
    "backup_table_ba n0 = backup_table_ba n"
proof -
  obtain i c where n0: "n0 = n\<lparr>info_table := i, info_table_cache := c\<rparr>"
    using assms by (auto simp: nmbm_generate_info_table_cache_def Let_def)
  then show "upd n n0" "good_set n0 = good_set n" "backup_table_ba n0 = backup_table_ba n"
    by (simp_all add: upd_def areas_below_def)
  show "changed \<longleftrightarrow> \<not> clean n"
    using assms by (auto simp: nmbm_generate_info_table_cache_def Let_def clean_def)
qed

lemma update_once_progress:
  assumes z: "0 < unat (info_table_size n)" and dirty: "\<not> clean n"
  shows "progress n n s (nmbm_update_info_table_once drv crc force n s)"
proof -
  obtain ch n0 where gen: "nmbm_generate_info_table_cache crc n = (ch, n0)" by fastforce
  note g = generate_cache_upd [OF gen]
  have z0: "0 < unat (info_table_size n0)" using upd_size [OF g(1) z] .
  have ch: "ch" using g(3) dirty by simp
  have "progress n n0 s (nmbm_update_info_table_once drv crc force n s)"
  proof (cases "backup_table_ba n0 = 0")
    case True
    then show ?thesis
      using update_main_progress [OF z0, of n "mapping_blocks_top_ba n0" s drv] g(2) ch
      by (simp add: nmbm_update_info_table_once_def gen)
  next
    case False
    obtain r n1 s1 where w: "nmbm_write_info_table drv (backup_table_ba n0) (mapping_blocks_top_ba n0) n0 s = (r, n1, s1)"
      by (metis prod_cases3)
    note f = write_info_table_facts [OF w z0]
    have u1: "upd n0 n1" using decay_upd [OF f(1)] .
    have z1: "0 < unat (info_table_size n1)" using upd_size [OF u1 z0] .
    have g1: "good_set n1 \<subseteq> good_set n" using upd_good [OF u1] g(2) by simp
    have eq: "nmbm_update_info_table_once drv crc force n s = (case r of
        None \<Rightarrow> update_main_table drv (mapping_blocks_top_ba (n1\<lparr>mapping_blocks_ba := backup_table_ba n1, backup_table_ba := 0\<rparr>))
                  (n1\<lparr>mapping_blocks_ba := backup_table_ba n1, backup_table_ba := 0\<rparr>) s1
      | Some (a, c) \<Rightarrow> update_main_table drv (backup_table_ba (nmbm_mark_tables_clean (n1\<lparr>backup_table_ba := a, mapping_blocks_ba := c\<rparr>)))
                  (nmbm_mark_tables_clean (n1\<lparr>backup_table_ba := a, mapping_blocks_ba := c\<rparr>)) s1)"
      using False ch by (simp only: nmbm_update_info_table_once_def gen Let_def w prod.case simp_thms if_False)
    show ?thesis
    proof (rule progress_write [OF w z0], cases r)
      case None
      let ?n2 = "n1\<lparr>mapping_blocks_ba := backup_table_ba n1, backup_table_ba := 0\<rparr>"
      have u2: "upd n1 ?n2" by (rule upd_trans [OF upd_set(5) upd_set(4)]) simp_all
      have "progress n ?n2 s1 (update_main_table drv (mapping_blocks_top_ba ?n2) ?n2 s1)"
        using z1 g1 by (intro update_main_progress) simp_all
      then have "progress n n1 s1 (update_main_table drv (mapping_blocks_top_ba ?n2) ?n2 s1)"
        by (rule progress_step [OF _ u2 io_upd_refl])
      then show "progress n n1 s1 (nmbm_update_info_table_once drv crc force n s)"
        unfolding eq None option.case .
    next
      case (Some p)
      obtain a c where p: "p = (a, c)" by fastforce
      let ?n2 = "nmbm_mark_tables_clean (n1\<lparr>backup_table_ba := a, mapping_blocks_ba := c\<rparr>)"
      have ac: "a < c" "c \<le> mapping_blocks_top_ba n1" using f(3) [of a c] Some p write_top [OF f(1)] by simp_all
      have u2: "upd n1 ?n2" using upd_backup [OF ac] upd_set(3) by (rule upd_trans)
      have q2: "settled n ?n2" using g1 by (intro settled_clean) simp
      have "0 < c" using ac(1) by (rule order.strict_trans1 [rotated]) simp
      then have "progress n ?n2 s1 (update_main_table drv (backup_table_ba ?n2) ?n2 s1)"
        using q2 by (intro update_main_progress upd_size [OF u2 z1])
          (auto simp: settled_def nmbm_mark_tables_clean_def)
      then have "progress n n1 s1 (update_main_table drv (backup_table_ba ?n2) ?n2 s1)"
        by (rule progress_step [OF _ u2 io_upd_refl])
      then show "progress n n1 s1 (nmbm_update_info_table_once drv crc force n s)"
        unfolding eq Some p option.case prod.case .
    qed
  qed
  then show ?thesis by (rule progress_step [OF _ g(1) io_upd_refl])
qed

text \<open>The loop ends: each round stores the tables or loses a good block.\<close>

lemma update_loop_returns:
  assumes "0 < unat (info_table_size n)"
  shows "\<exists>ok n' t. update_info_table_loop drv crc n s = Some (ok, n', t) \<and> upd n n' \<and> io_upd s t \<and> (ok \<longrightarrow> clean n')"
  using assms
proof (induction "card (good_set n)" arbitrary: n s rule: less_induct)
  case less
  show ?case
  proof (cases "clean n")
    case True
    then show ?thesis by (subst update_info_table_loop.simps) (auto simp: clean_def)
  next
    case False
    from update_once_progress [OF less.prems False] obtain ok n1 s1
      where o: "nmbm_update_info_table_once drv crc False n s = Some (ok, n1, s1)"
        and u: "upd n n1" "io_upd s s1" and q: "ok \<longrightarrow> settled n n1"
      unfolding progress_def by blast
    have eq: "update_info_table_loop drv crc n s = (if ok then update_info_table_loop drv crc n1 s1 else Some (False, n1, s1))"
      using False by (subst update_info_table_loop.simps) (auto simp: clean_def o)
    consider "\<not> ok" | "ok" "clean n1" | "ok" "good_set n1 \<subset> good_set n" using q by (auto simp: settled_def)
    then show ?thesis
    proof cases
      case 1
      then show ?thesis using eq u by auto
    next
      case 2
      then have "update_info_table_loop drv crc n1 s1 = Some (True, n1, s1)"
        by (subst update_info_table_loop.simps) (simp add: clean_def)
      with 2 eq u show ?thesis by auto
    next
      case 3
      then have "card (good_set n1) < card (good_set n)" by (simp add: psubset_card_mono)
      from less.hyps [OF this upd_size [OF u(1) less.prems]] obtain ok2 n2 s2
        where "update_info_table_loop drv crc n1 s1 = Some (ok2, n2, s2)" "upd n1 n2" "io_upd s1 s2" "ok2 \<longrightarrow> clean n2"
        by blast
      then show ?thesis
        using eq 3(1) upd_trans [OF u(1)] io_upd_trans [OF u(2)] by auto
    qed
  qed
qed

lemma update_returns:
  assumes "0 < unat (info_table_size n)"
  shows "\<exists>ok n' t. nmbm_update_info_table drv crc n s = Some (ok, n', t) \<and> upd n n' \<and> io_upd s t \<and>
     (ok \<longrightarrow> clean n' \<or> protected n)"
  using update_loop_returns [OF assms, of drv crc s]
  by (cases "protected n") (auto simp: nmbm_update_info_table_def)

section \<open>Properties\<close>

text \<open>C10: updating the info tables always ends, whatever the driver does: a round that succeeds has
  stored both tables or has lost a good block, of which there are finitely many. It changes only
  the bookkeeping of the tables, never the block map, and after a success without write protection
  nothing is left to store.\<close>

theorem nmbm_update_terminates:
  assumes "0 < info_table_size n"
  shows "\<exists>ok n' t. nmbm_update_info_table drv crc n s = Some (ok, n', t) \<and>
     block_mapping n' = block_mapping n \<and> data_block_count n' = data_block_count n \<and>
     good_set n' \<subseteq> good_set n \<and> (ok \<longrightarrow> \<not> protected n \<longrightarrow> clean n')"
proof -
  have "0 < unat (info_table_size n)" using assms by (simp add: word_less_nat_alt)
  from update_returns [OF this, of drv crc s] obtain ok n' t
    where "nmbm_update_info_table drv crc n s = Some (ok, n', t)" "upd n n'" "ok \<longrightarrow> clean n' \<or> protected n" by blast
  then show ?thesis using upd_fields [of n n'] upd_good [of n n'] by blast
qed

theorem nmbm_update_terminates_witness:
  "\<exists>ok n' t. nmbm_update_info_table (ram_drv 4 [5]) sum_crc (ex_nmbm\<lparr>block_mapping_changed := 1\<rparr>) ex_desc = Some (ok, n', t) \<and>
     block_mapping n' = [0, 1, 2, - 1, - 1, - 1, - 1, - 1] \<and> (ok \<longrightarrow> clean n')"
  using nmbm_update_terminates [of "ex_nmbm\<lparr>block_mapping_changed := 1\<rparr>" "ram_drv 4 [5]" sum_crc ex_desc]
  by (auto simp: ex_nmbm_def)

text \<open>The spare block \<open>nmbm_map_block\<close> takes.\<close>

lemma walk_spare:
  assumes "mapping_blocks_ba n < block_count n"
  shows "nmbm_block_walk n False b 0 (mapping_blocks_ba n) =
     (let gs = good_blks n (Suc (unat (mapping_blocks_ba n))) (Suc (unat b))
      in if gs = [] then None else Some (of_nat (last gs)))"
proof -
  have "\<not> mapping_blocks_ba n \<ge> block_count n" using assms by simp
  then show ?thesis
    using walk_desc_loop_eq [of 0 n b "mapping_blocks_ba n"]
    by (auto simp: nmbm_block_walk_def nmbm_block_walk_desc_def Let_def hd_rev [symmetric] hd_conv_nth)
qed

lemma good_blks_bounds: "x \<in> set (good_blks n a b) \<Longrightarrow> a \<le> x \<and> x < b \<and> nmbm_get_block_state n (of_nat x) = BLOCK_ST_GOOD"
  by (auto simp: good_blks_def)

lemma walk_spare_bounds:
  assumes "mapping_blocks_ba n < block_count n"
    and "nmbm_block_walk n False b 0 (mapping_blocks_ba n) = Some pb"
  shows "mapping_blocks_ba n < pb" "pb \<le> b" "pb \<in> good_set n"
proof -
  define gs where "gs = good_blks n (Suc (unat (mapping_blocks_ba n))) (Suc (unat b))"
  have gs: "gs \<noteq> []" "pb = of_nat (last gs)"
    using assms(2) unfolding walk_spare [OF assms(1)] gs_def [symmetric] by (auto simp: Let_def split: if_splits)
  then have l: "unat (mapping_blocks_ba n) < last gs" "last gs \<le> unat b" "nmbm_get_block_state n (of_nat (last gs)) = BLOCK_ST_GOOD"
    using good_blks_bounds [of "last gs" n] last_in_set [of gs] unfolding gs_def by fastforce+
  then have "last gs < 2 ^ 32" using unat_bound [of b] by simp
  then have "unat pb = last gs" using gs(2) by (simp add: unsigned_of_nat take_bit_nat_eq_self)
  with l gs(2) show "mapping_blocks_ba n < pb" "pb \<le> b" "pb \<in> good_set n"
    by (simp_all add: word_less_nat_alt word_le_nat_alt good_set_def)
qed

text \<open>C39: \<open>nmbm_map_block\<close> can give one spare block to two logical blocks. Its walk skips bad blocks but
  the top of the spare area only moves down by one, so when the topmost spare block is bad, the
  block found below it is found again by the next call.\<close>

theorem nmbm_map_block_reuses:
  assumes ba: "mapping_blocks_ba n < block_count n"
    and walk: "nmbm_block_walk n False (mapping_blocks_top_ba n) 0 (mapping_blocks_ba n) = Some pb"
    and skip: "pb \<noteq> mapping_blocks_top_ba n" and "lb \<noteq> lb'"
    and len: "unat lb < length (block_mapping n)" "unat lb' < length (block_mapping n)"
  shows "\<exists>n1 n2. nmbm_map_block drv crc lb n s = Some (True, n1, s) \<and>
     nmbm_map_block drv crc lb' n1 s = Some (True, n2, s) \<and>
     block_mapping n2 ! unat lb = pb \<and> block_mapping n2 ! unat lb' = pb"
proof -
  let ?T = "mapping_blocks_top_ba n" and ?B = "mapping_blocks_ba n"
  note bd = walk_spare_bounds [OF ba walk]
  have lt: "?B < ?T" "pb \<le> ?T - 1" "?B \<noteq> ?T - 1"
  proof -
    have "pb < ?T" using bd(2) skip by simp
    then have T: "unat (?T - 1) = unat ?T - 1" by (rule unat_pred_greater)
    show "?B < ?T" using bd(1) \<open>pb < ?T\<close> by simp
    show "pb \<le> ?T - 1" using \<open>pb < ?T\<close> T by (simp add: word_less_nat_alt word_le_nat_alt)
    then show "?B \<noteq> ?T - 1" using bd(1) by auto
  qed
  define n1 where "n1 = n\<lparr>block_mapping := (block_mapping n)[unat lb := pb], mapping_blocks_top_ba := ?T - 1,
      block_mapping_changed := block_mapping_changed n + 1\<rparr>"
  have m1: "nmbm_map_block drv crc lb n s = Some (True, n1, s)"
    using lt(1) walk by (simp add: nmbm_map_block_def n1_def)
  have top: "nmbm_get_block_state n ?T \<noteq> BLOCK_ST_GOOD"
  proof
    assume "nmbm_get_block_state n ?T = BLOCK_ST_GOOD"
    then have "good_blks n (Suc (unat ?B)) (Suc (unat ?T)) = good_blks n (Suc (unat ?B)) (unat ?T) @ [unat ?T]"
      using lt(1) by (simp add: good_blks_snoc word_less_nat_alt)
    then have "pb = ?T" using walk unfolding walk_spare [OF ba] by simp
    with skip show False by simp
  qed
  have T: "Suc (unat (?T - 1)) = unat ?T" using lt(1) unat_pred_greater [of ?B ?T] by (simp add: word_less_nat_alt)
  have st: "good_blks n1 a b = good_blks n a b" for a b
    by (simp add: good_blks_def n1_def nmbm_get_block_state_def)
  have "nmbm_block_walk n1 False (?T - 1) 0 ?B = Some pb"
    using walk walk_spare [OF ba, of ?T] walk_spare [of n1 "?T - 1"] ba top lt(1) st
    by (simp add: n1_def [symmetric] T good_blks_snoc word_less_nat_alt) (simp add: n1_def)
  then have "nmbm_map_block drv crc lb' n1 s = Some (True, n1\<lparr>block_mapping := (block_mapping n1)[unat lb' := pb],
      mapping_blocks_top_ba := mapping_blocks_top_ba n1 - 1, block_mapping_changed := block_mapping_changed n1 + 1\<rparr>, s)"
    using lt(3) by (simp add: nmbm_map_block_def n1_def)
  moreover have "unat lb \<noteq> unat lb'" using assms(4) unat_inj by blast
  ultimately show ?thesis using m1 len by (auto simp: n1_def)
qed

theorem nmbm_map_block_reuses_witness:
  "\<exists>n1 n2. nmbm_map_block (ram_drv 4 []) sum_crc 1 (ex_nmbm\<lparr>mapping_blocks_ba := 1, mapping_blocks_top_ba := 3\<rparr>) ex_desc = Some (True, n1, ex_desc) \<and>
     nmbm_map_block (ram_drv 4 []) sum_crc 2 n1 ex_desc = Some (True, n2, ex_desc) \<and>
     block_mapping n2 ! 1 = 2 \<and> block_mapping n2 ! 2 = 2"
proof -
  let ?n = "ex_nmbm\<lparr>mapping_blocks_ba := 1, mapping_blocks_top_ba := 3\<rparr>"
  have "nmbm_block_walk ?n False (mapping_blocks_top_ba ?n) 0 (mapping_blocks_ba ?n) = Some 2" by code_simp
  from nmbm_map_block_reuses [OF _ this, of 1 2 "ram_drv 4 []" sum_crc ex_desc] show ?thesis
    by (simp add: ex_nmbm_def)
qed

end
