(* ===== verification/Nmbm_Attach.thy ===== *)
theory Nmbm_Attach
  imports Nmbm_Table
begin

text \<open>
  Creating, finding and loading the \<open>mediatek,nmbm\<close> structures, and the operations the backend
  registers (\<open>mtk_bmt_nmbm_ops\<close>).
\<close>

section \<open>Creating\<close>

fun create_map_loop ::
  "'d nand_drv \<Rightarrow> crc_fn \<Rightarrow> nat list \<Rightarrow> nmbm_instance \<Rightarrow> 'd bmt_desc \<Rightarrow> (nmbm_instance \<times> 'd bmt_desc) option"
where
  "create_map_loop drv crc [] n s = Some (n, s)"
| "create_map_loop drv crc (lb # lbs) n s =
     do {
       (success, n1, s1) \<leftarrow> nmbm_map_block drv crc (of_nat lb) n s;
       if success then create_map_loop drv crc lbs (n1\<lparr>data_block_count := data_block_count n1 + 1\<rparr>) s1
       else Some (n1, s1)
     }"

definition nmbm_create_info_table ::
  "'d nand_drv \<Rightarrow> crc_fn \<Rightarrow> nmbm_instance \<Rightarrow> 'd bmt_desc \<Rightarrow> (bool \<times> nmbm_instance \<times> 'd bmt_desc) option"
where
  "nmbm_create_info_table drv crc n s =
     (case nmbm_block_walk n False (signature_ba n) 1 (mgmt_start_ba n) of
        None \<Rightarrow> Some (False, n, s)
      | Some tb \<Rightarrow>
          let (_, n1) = nmbm_generate_info_table_cache crc (n\<lparr>mapping_blocks_top_ba := tb\<rparr>);
              (success, n2, s2) = nmbm_rebuild_info_table drv n1 s
          in if \<not> success then Some (False, n2, s2)
             else do {
               (n3, s3) \<leftarrow> create_map_loop drv crc
                             [unat (data_block_count n2)..<unat (mgmt_start_ba n2)] n2 s2;
               nmbm_update_info_table drv crc n3 s3
             })"

text \<open>\<open>bmtd.total_blks << bmtd.blk_shift\<close>: a shift of a C \<open>int\<close>, sign-extended to 64 bits.\<close>

definition nand_bytes :: "'d bmt_desc \<Rightarrow> u64" where
  "nand_bytes s = scast (push_bit (unat (blk_shift s)) (ucast (total_blks s) :: u32))"

definition mgmt_start :: "nmbm_instance \<Rightarrow> u32" where
  "mgmt_start n =
     (let m = block_count n * (NMBM_MGMT_DIV - max_ratio n) div NMBM_MGMT_DIV
      in if max_reserved_blocks n \<noteq> 0 \<and> block_count n - m > max_reserved_blocks n
         then block_count n - max_reserved_blocks n else m)"

definition make_signature :: "crc_fn \<Rightarrow> nmbm_instance \<Rightarrow> 'd bmt_desc \<Rightarrow> nmbm_signature" where
  "make_signature crc n s =
     (let g = (signature n)\<lparr>
            sig_header := (sig_header (signature n))\<lparr>hdr_magic := NMBM_MAGIC_SIGNATURE,
              hdr_version := NMBM_VER, hdr_size := 48\<rparr>,
            sig_nand_size := nand_bytes s, sig_block_size := blk_size s, sig_page_size := pg_size s,
            sig_spare_size := oobsize (mtd s), sig_mgmt_start_pb := mgmt_start_ba n,
            sig_max_try_count := of_nat NMBM_TRY_COUNT\<rparr>
      in sig_of (nmbm_update_checksum crc (sig_bytes g)))"

definition nmbm_create_new ::
  "'d nand_drv \<Rightarrow> crc_fn \<Rightarrow> nmbm_instance \<Rightarrow> 'd bmt_desc \<Rightarrow> (bool \<times> nmbm_instance \<times> 'd bmt_desc) option"
where
  "nmbm_create_new drv crc n s =
     (let n0 = n\<lparr>mgmt_start_ba := mgmt_start n\<rparr>;
          (n1, s1) = nmbm_scan_badblocks drv n0 s;
          n2 = nmbm_build_mapping_table n1;
          n3 = n2\<lparr>signature := make_signature crc n2 s1\<rparr>;
          (r, n4, s4) = nmbm_write_signature drv (mgmt_start_ba n3) (signature n3) n3 s1
      in case r of
           None \<Rightarrow> Some (False, n4, s4)
         | Some ba \<Rightarrow> nmbm_create_info_table drv crc (n4\<lparr>signature_ba := ba\<rparr>) s4)"

section \<open>Loading\<close>

definition nmbm_check_info_table_header :: "nmbm_instance \<Rightarrow> byte list \<Rightarrow> bool" where
  "nmbm_check_info_table_header n dat =
     (let h = ift_of dat
      in if hdr_magic (ift_header h) \<noteq> NMBM_MAGIC_INFO_TABLE then False
         else if hdr_size (ift_header h) \<noteq> info_table_size n then False
         else if ift_mapping_table_off h - ift_state_table_off h < state_table_size n then False
         else if info_table_size n - ift_mapping_table_off h < mapping_table_size n then False
         else True)"

text \<open>The arrays inside a table image. Comparisons of the signed map entries with the unsigned block
  numbers are made on unsigned values, as in C.\<close>

definition image_state :: "nmbm_instance \<Rightarrow> byte list \<Rightarrow> u32 list" where
  "image_state n dat = u32s_of (unat (state_table_size n) div 4) (drop (unat (ift_state_table_off (ift_of dat))) dat)"

definition image_mapping :: "nmbm_instance \<Rightarrow> byte list \<Rightarrow> u32 list" where
  "image_mapping n dat = u32s_of (unat (mapping_table_size n) div 4) (drop (unat (ift_mapping_table_off (ift_of dat))) dat)"

fun check_map_loop :: "nmbm_instance \<Rightarrow> u32 \<Rightarrow> u32 list \<Rightarrow> nat list \<Rightarrow> u32 \<Rightarrow> u32 option" where
  "check_map_loop n end_ba m [] mn = Some mn"
| "check_map_loop n end_ba m (ba # bas) mn =
     (let v = cell m ba
      in if (v \<ge> data_block_count n \<and> v < end_ba) \<or> v = signature_ba n then None
         else check_map_loop n end_ba m bas (if v \<ge> end_ba \<and> v < mn then v else mn))"

definition nmbm_check_info_table :: "nmbm_instance \<Rightarrow> u32 \<Rightarrow> u32 \<Rightarrow> byte list \<Rightarrow> u32 option" where
  "nmbm_check_info_table n start_ba end_ba dat =
     (case check_map_loop n end_ba (image_mapping n dat) [0..<unat (data_block_count n)] (signature_ba n) of
        None \<Rightarrow> None
      | Some mn \<Rightarrow>
          if \<forall>ba \<in> set [unat start_ba..<unat end_ba].
               nmbm_get_block_state n (of_nat ba) \<noteq> BLOCK_ST_GOOD \<or>
               nmbm_get_block_state_raw (image_state n dat) (of_nat ba) = BLOCK_ST_GOOD
          then Some (mn - 1) else None)"

text \<open>The reading loop of \<open>nmbm_try_load_info_table\<close>. The result is \<open>start_ba\<close>, the final \<open>ba\<close> and
  \<open>sizeremain\<close>, or \<open>None\<close> for a \<open>return false\<close> inside it. \<open>pos\<close> is \<open>off - ni->info_table_cache\<close>.\<close>

function load_table_loop ::
  "'d nand_drv \<Rightarrow> u32 \<Rightarrow> u32 \<Rightarrow> u32 \<Rightarrow> bool \<Rightarrow> nat \<Rightarrow> nat \<Rightarrow> nmbm_instance \<Rightarrow> 'd bmt_desc \<Rightarrow>
   (u32 \<times> u32 \<times> nat) option \<times> nmbm_instance \<times> 'd bmt_desc"
where
  "load_table_loop drv ba limit start checkhdr pos remain n s =
     (if remain \<noteq> 0 \<and> ba < limit then
        if nmbm_get_block_state n ba \<noteq> BLOCK_ST_GOOD
        then load_table_loop drv (ba + 1) limit start checkhdr pos remain n s
        else let (bad, s1) = nmbm_check_bad_phys_block drv ba s
        in if bad then load_table_loop drv (ba + 1) limit start checkhdr pos remain
                         (set_state n ba BLOCK_ST_BAD) s1
        else let chunksize = min remain (unat (blk_size s1));
                 (ret, b, s2) = nmbn_read_data drv (ba2addr s1 ba) chunksize
                                  (drop pos (info_table_cache n)) s1;
                 n1 = n\<lparr>info_table_cache := take pos (info_table_cache n) @ b\<rparr>
        in if ret < 0 then load_table_loop drv (ba + 1) limit start checkhdr pos remain
                             (set_state n1 ba BLOCK_ST_BAD) s2
        else if ret > 0 then (None, n1, s2)
        else if checkhdr \<and> \<not> nmbm_check_info_table_header n1 b then (None, n1, s2)
        else load_table_loop drv (ba + 1) limit (if checkhdr then ba else start) False
               (pos + chunksize) (remain - chunksize) n1 s2
      else (Some (start, ba, remain), n, s))"
  by pat_completeness auto
termination
  by (relation "measure (\<lambda>(drv, ba, limit, start, c, pos, remain, n, s). unat limit - unat ba)")
    (auto intro: word_Suc_measure)

declare load_table_loop.simps [simp del]

text \<open>The result is \<open>*eba\<close>, \<open>*write_count\<close> and \<open>*mapping_blocks_top_ba\<close>, or \<open>None\<close> for \<open>false\<close>.\<close>

definition nmbm_try_load_info_table ::
  "'d nand_drv \<Rightarrow> crc_fn \<Rightarrow> u32 \<Rightarrow> bool \<Rightarrow> nmbm_instance \<Rightarrow> 'd bmt_desc \<Rightarrow>
   (u32 \<times> u32 \<times> u32) option \<times> nmbm_instance \<times> 'd bmt_desc"
where
  "nmbm_try_load_info_table drv crc ba table_loaded n s =
     (let (r, n1, s1) = load_table_loop drv ba (ba + size2blk s (unat (info_table_size n))) 0 True 0
                          (unat (info_table_size n)) n s
      in case r of
           None \<Rightarrow> (None, n1, s1)
         | Some (start_ba, eba, remain) \<Rightarrow>
             if remain \<noteq> 0 then (None, n1, s1)
             else if \<not> nmbm_check_header crc (info_table_cache n1) (info_table_size n1) then (None, n1, s1)
             else let h = ift_of (info_table_cache n1)
             in case nmbm_check_info_table n1 start_ba eba (info_table_cache n1) of
                  None \<Rightarrow> (None, n1, s1)
                | Some tb \<Rightarrow>
                    let n2 = (if \<not> table_loaded \<or> ift_write_count h > ift_write_count (info_table n1)
                              then n1\<lparr>info_table := h,
                                      block_state := image_state n1 (info_table_cache n1),
                                      block_mapping := image_mapping n1 (info_table_cache n1)\<rparr>
                              else n1)
                    in (Some (eba, ift_write_count h, tb), n2, s1))"

text \<open>The result is the start of the table with the values of \<open>nmbm_try_load_info_table\<close>.\<close>

function search_info_table_loop ::
  "'d nand_drv \<Rightarrow> crc_fn \<Rightarrow> u32 \<Rightarrow> u32 \<Rightarrow> bool \<Rightarrow> nmbm_instance \<Rightarrow> 'd bmt_desc \<Rightarrow>
   (u32 \<times> u32 \<times> u32 \<times> u32) option \<times> nmbm_instance \<times> 'd bmt_desc"
where
  "search_info_table_loop drv crc ba limit table_loaded n s =
     (if ba < limit then
        let (r, n1, s1) = nmbm_try_load_info_table drv crc ba table_loaded n s
        in case r of
             Some (eba, wc, tb) \<Rightarrow> (Some (ba, eba, wc, tb), n1, s1)
           | None \<Rightarrow> search_info_table_loop drv crc (ba + 1) limit table_loaded n1 s1
      else (None, n, s))"
  by pat_completeness auto
termination
  by (relation "measure (\<lambda>(drv, crc, ba, limit, tl, n, s). unat limit - unat ba)")
    (auto intro: word_Suc_measure)

declare search_info_table_loop.simps [simp del]

definition nmbm_search_info_table ::
  "'d nand_drv \<Rightarrow> crc_fn \<Rightarrow> u32 \<Rightarrow> u32 \<Rightarrow> bool \<Rightarrow> nmbm_instance \<Rightarrow> 'd bmt_desc \<Rightarrow>
   (u32 \<times> u32 \<times> u32 \<times> u32) option \<times> nmbm_instance \<times> 'd bmt_desc"
where
  "nmbm_search_info_table drv crc ba limit table_loaded n s =
     search_info_table_loop drv crc ba (limit - size2blk s (unat (info_table_size n))) table_loaded n s"

text \<open>The loop that finds the final \<open>data_block_count\<close>.\<close>

fun last_mapped :: "u32 list \<Rightarrow> nat \<Rightarrow> nat option" where
  "last_mapped m 0 = None"
| "last_mapped m (Suc k) = (if 0 \<le> sint (cell m k) then Some (Suc k) else last_mapped m k)"

text \<open>What \<open>nmbm_load_info_table\<close> does once the tables were found: \<open>main\<close> and \<open>backup\<close> are their write
  counts.\<close>

definition load_finish ::
  "'d nand_drv \<Rightarrow> crc_fn \<Rightarrow> u32 \<Rightarrow> u32 \<Rightarrow> nmbm_instance \<Rightarrow> 'd bmt_desc \<Rightarrow>
   (bool \<times> nmbm_instance \<times> 'd bmt_desc) option"
where
  "load_finish drv crc main_wc backup_wc n s =
     do {
       (success, n1, s1) \<leftarrow>
         (if backup_table_ba n = 0 then nmbm_rescue_single_info_table drv n s
          else if main_wc \<noteq> backup_wc
          then nmbm_update_single_info_table drv (main_wc < backup_wc)
                 (n\<lparr>block_state_changed := 1, block_mapping_changed := 1\<rparr>) s
          else Some (True, n, s));
       Some (True, if mapping_blocks_ba n1 = mapping_blocks_top_ba n1 then n1\<lparr>protected := True\<rparr>
                   else if \<not> success then n1\<lparr>protected := True\<rparr> else n1, s1)
     }"

definition nmbm_load_info_table ::
  "'d nand_drv \<Rightarrow> crc_fn \<Rightarrow> u32 \<Rightarrow> u32 \<Rightarrow> nmbm_instance \<Rightarrow> 'd bmt_desc \<Rightarrow>
   (bool \<times> nmbm_instance \<times> 'd bmt_desc) option"
where
  "nmbm_load_info_table drv crc ba limit n s =
     (let n0 = n\<lparr>main_table_ba := 0, backup_table_ba := 0,
                 info_table := (info_table n)\<lparr>ift_write_count := 0\<rparr>,
                 mapping_blocks_top_ba := signature_ba n - 1,
                 data_block_count := sig_mgmt_start_pb (signature n)\<rparr>;
          (r1, n1, s1) = nmbm_search_info_table drv crc ba limit False n0 s
      in case r1 of
           None \<Rightarrow> Some (False, n1, s1)
         | Some (main_ba, main_end, main_wc, main_top) \<Rightarrow>
             let (r2, n2, s2) = nmbm_search_info_table drv crc main_end limit True
                                  (n1\<lparr>main_table_ba := main_ba\<rparr>) s1;
                 (table_end, backup_wc, n3) =
                   (case r2 of
                      None \<Rightarrow> (main_end, 0, n2\<lparr>mapping_blocks_top_ba := main_top\<rparr>)
                    | Some (b_ba, b_end, b_wc, b_top) \<Rightarrow>
                        (b_end, b_wc, n2\<lparr>backup_table_ba := b_ba, mapping_blocks_top_ba :=
                           (if b_ba = 0 then main_top
                            else if main_wc \<ge> b_wc then main_top else b_top)\<rparr>));
                 n4 = n3\<lparr>mapping_blocks_ba := table_end,
                         data_block_count :=
                           (case last_mapped (block_mapping n3) (unat (sig_mgmt_start_pb (signature n3))) of
                              None \<Rightarrow> data_block_count n3 | Some i \<Rightarrow> of_nat i)\<rparr>;
                 (_, n5) = nmbm_generate_info_table_cache crc n4
             in load_finish drv crc main_wc backup_wc n5 s2)"

definition nmbm_load_existing ::
  "'d nand_drv \<Rightarrow> crc_fn \<Rightarrow> nmbm_instance \<Rightarrow> 'd bmt_desc \<Rightarrow> (bool \<times> nmbm_instance \<times> 'd bmt_desc) option"
where
  "nmbm_load_existing drv crc n s =
     (let n0 = n\<lparr>mgmt_start_ba := sig_mgmt_start_pb (signature n)\<rparr>
      in do {
        (success, n1, s1) \<leftarrow> nmbm_load_info_table drv crc (mgmt_start_ba n0) (signature_ba n0) n0 s;
        if success then Some (True, n1, s1)
        else if \<not> force_create n1 then Some (False, n1, s1)
        else let (n2, s2) = nmbm_scan_badblocks drv n1 s1
             in nmbm_create_info_table drv crc (nmbm_build_mapping_table n2) s2
      })"

text \<open>The pages of one block. \<open>buf\<close> is the local \<open>sig\<close>, taken to start as zeros.\<close>

fun find_sig_pages ::
  "'d nand_drv \<Rightarrow> crc_fn \<Rightarrow> loff \<Rightarrow> nat list \<Rightarrow> byte list \<Rightarrow> 'd bmt_desc \<Rightarrow>
   nmbm_signature option \<times> byte list \<times> 'd bmt_desc"
where
  "find_sig_pages drv crc addr [] buf s = (None, buf, s)"
| "find_sig_pages drv crc addr (off # offs) buf s =
     (let (ret, b, s1) = nmbn_read_data drv (addr + off) 48 buf s
      in if ret \<noteq> 0 then find_sig_pages drv crc addr offs b s1
         else if \<not> nmbm_check_header crc b 48 then find_sig_pages drv crc addr offs b s1
         else if hdr_magic (header_of b) = NMBM_MAGIC_SIGNATURE then (Some (sig_of b), b, s1)
         else find_sig_pages drv crc addr offs b s1)"

text \<open>The search goes down while \<open>ba >= limit\<close>; with \<open>limit = 0\<close> the unsigned \<open>ba\<close> wraps and the loop
  does not end unless a signature is found.\<close>

partial_function (option) find_signature_loop ::
  "'d nand_drv \<Rightarrow> crc_fn \<Rightarrow> u32 \<Rightarrow> u32 \<Rightarrow> byte list \<Rightarrow> 'd bmt_desc \<Rightarrow>
   ((nmbm_signature \<times> u32) option \<times> 'd bmt_desc) option"
where
  "find_signature_loop drv crc ba limit buf s =
     (if ba \<ge> limit then
        let b = ba - 1;
            (bad, s1) = nmbm_check_bad_phys_block drv b s
        in if bad then find_signature_loop drv crc b limit buf s1
           else let (r, buf1, s2) = find_sig_pages drv crc (ba2addr s1 b) (page_offs s1) buf s1
                in case r of
                     Some g \<Rightarrow> Some (Some (g, b), s2)
                   | None \<Rightarrow> find_signature_loop drv crc b limit buf1 s2
      else Some (None, s))"

definition signature_limit :: "nmbm_instance \<Rightarrow> u32 \<Rightarrow> u32" where
  "signature_limit n blocks =
     (let l = blocks div NMBM_MGMT_DIV * (NMBM_MGMT_DIV - max_ratio n)
      in if max_reserved_blocks n \<noteq> 0 \<and> blocks - l > max_reserved_blocks n
         then blocks - max_reserved_blocks n else l)"

definition nmbm_find_signature ::
  "'d nand_drv \<Rightarrow> crc_fn \<Rightarrow> nmbm_instance \<Rightarrow> 'd bmt_desc \<Rightarrow>
   ((nmbm_signature \<times> u32) option \<times> 'd bmt_desc) option"
where
  "nmbm_find_signature drv crc n s =
     find_signature_loop drv crc (ucast (total_blks s)) (signature_limit n (ucast (total_blks s)))
       (replicate 48 0) s"

section \<open>Attaching\<close>

text \<open>\<open>ALIGN(x, a)\<close> of the kernel.\<close>

definition align_up :: "u32 \<Rightarrow> u32 \<Rightarrow> u32" where
  "align_up x a = (x + (a - 1)) AND NOT (a - 1)"

definition nmbm_state_table_size :: "u32 \<Rightarrow> u32" where
  "nmbm_state_table_size blocks = (blocks + 16 - 1) div 16 * 4"

text \<open>The size of the allocation; \<open>inst\<close> is \<open>sizeof(struct nmbm_instance)\<close>.\<close>

definition nmbm_calc_structure_size :: "nat \<Rightarrow> 'd bmt_desc \<Rightarrow> nat" where
  "nmbm_calc_structure_size inst s =
     (let blocks = ucast (total_blks s) :: u32;
          st = nmbm_state_table_size blocks;
          mp = blocks * 4;
          it = align_up 32 (pg_size s) + align_up st (pg_size s) + align_up mp (pg_size s)
      in unat (it + st + mp) + inst)"

text \<open>The instance lives in zeroed memory; the arrays are carved from the same allocation behind
  it.\<close>

definition nmbm_init_structure :: "nmbm_instance \<Rightarrow> 'd bmt_desc \<Rightarrow> nmbm_instance" where
  "nmbm_init_structure n s =
     (let pages = blk_size s div pg_size s;
          blocks = ucast (total_blks s) :: u32;
          rawpg = pg_size s + oobsize (mtd s);
          rawblk = pages * rawpg;
          st = nmbm_state_table_size blocks;
          mp = blocks * 4;
          off1 = align_up 32 (pg_size s);
          off2 = off1 + align_up st (pg_size s);
          it = off2 + align_up mp (pg_size s)
      in n\<lparr>rawpage_size := rawpg, rawblock_size := rawblk, rawchip_size := blocks * rawblk,
           block_count := blocks, state_table_size := st, mapping_table_size := mp,
           info_table_size := it,
           info_table := (info_table n)\<lparr>ift_state_table_off := off1, ift_mapping_table_off := off2\<rparr>,
           info_table_spare_blocks := nmbm_get_spare_block_count (size2blk s (unat it)),
           info_table_cache := replicate (unat it) 0,
           block_state := replicate (unat st div 4) 0xffffffff,
           block_mapping := replicate (unat mp div 4) 0,
           block_state_changed := 0, block_mapping_changed := 0\<rparr>)"

definition nmbm_attach ::
  "'d nand_drv \<Rightarrow> crc_fn \<Rightarrow> nmbm_instance \<Rightarrow> 'd bmt_desc \<Rightarrow> (int \<times> nmbm_instance \<times> 'd bmt_desc) option"
where
  "nmbm_attach drv crc n s =
     (let n0 = nmbm_init_structure n s
      in do {
        (r, s1) \<leftarrow> nmbm_find_signature drv crc n0 s;
        case r of
          None \<Rightarrow>
            if \<not> force_create n0 then Some (- ENODEV, n0, s1)
            else do {
              (success, n1, s2) \<leftarrow> nmbm_create_new drv crc n0 s1;
              Some (if success then 0 else - ENODEV, n1, s2)
            }
        | Some (g, ba) \<Rightarrow>
            let n1 = n0\<lparr>signature := g, signature_ba := ba\<rparr>
            in if hdr_version (sig_header g) \<noteq> NMBM_VER then Some (- EINVAL, n1, s1)
               else if sig_nand_size g \<noteq> nand_bytes s1 \<or> sig_block_size g \<noteq> blk_size s1 \<or>
                       sig_page_size g \<noteq> pg_size s1 \<or> sig_spare_size g \<noteq> oobsize (mtd s1)
               then Some (- EINVAL, n1, s1)
               else do {
                 (success, n2, s2) \<leftarrow> nmbm_load_existing drv crc n1 s1;
                 Some (if success then 0 else - ENODEV, n2, s2)
               }
      })"

section \<open>The registered operations\<close>

definition zero_header :: nmbm_header where
  "zero_header = \<lparr>hdr_magic = 0, hdr_version = 0, hdr_size = 0, hdr_checksum = 0\<rparr>"

text \<open>The instance as \<open>kzalloc\<close> leaves it, with the device-tree settings.\<close>

definition nmbm_new_instance :: "bmt_env \<Rightarrow> nmbm_instance" where
  "nmbm_new_instance np =
     \<lparr>rawpage_size = 0, rawblock_size = 0, rawchip_size = 0,
      signature = \<lparr>sig_header = zero_header, sig_nand_size = 0, sig_block_size = 0, sig_page_size = 0,
        sig_spare_size = 0, sig_mgmt_start_pb = 0, sig_max_try_count = 0, sig_padding = replicate 7 0\<rparr>,
      info_table_cache = [], info_table_size = 0, info_table_spare_blocks = 0,
      info_table = \<lparr>ift_header = zero_header, ift_write_count = 0, ift_state_table_off = 0,
        ift_mapping_table_off = 0, ift_padding = 0\<rparr>,
      block_state = [], block_state_changed = 0, state_table_size = 0,
      block_mapping = [], block_mapping_changed = 0, mapping_table_size = 0,
      protected = False, block_count = 0, data_block_count = 0, mgmt_start_ba = 0, main_table_ba = 0,
      backup_table_ba = 0, mapping_blocks_ba = 0, mapping_blocks_top_ba = 0, signature_ba = 0,
      max_ratio = (case dt_bmt_max_ratio np of Some v \<Rightarrow> v | None \<Rightarrow> 1),
      max_reserved_blocks = (case dt_bmt_max_reserved_blocks np of Some v \<Rightarrow> v | None \<Rightarrow> 256),
      empty_page_ecc_ok = dt_empty_page_ecc_protected np, force_create = dt_bmt_force_create np\<rparr>"

definition mtk_bmt_init_nmbm ::
  "'d nand_drv \<Rightarrow> crc_fn \<Rightarrow> bmt_env \<Rightarrow> 'd bmt_desc \<Rightarrow> (int \<times> 'd bmt_desc) option"
where
  "mtk_bmt_init_nmbm drv crc np s =
     (if \<not> alloc_table_ok np then Some (- ENOMEM, s)
      else do {
        (ret, n, s1) \<leftarrow> nmbm_attach drv crc (nmbm_new_instance np) s;
        if ret \<noteq> 0 then Some (ret, s1\<lparr>ni := None\<rparr>)
        else Some (0, s1\<lparr>ni := Some n, mtd := (mtd s1)\<lparr>mtd_size :=
               ucast (push_bit (unat (blk_shift s1)) (data_block_count n))\<rparr>\<rparr>)
      })"

text \<open>\<open>bmtd.ni\<close>; an attached backend has set it.\<close>

definition get_mapping_block_index_nmbm :: "'d bmt_desc \<Rightarrow> int \<Rightarrow> int" where
  "get_mapping_block_index_nmbm s block =
     (case ni s of
        None \<Rightarrow> -1
      | Some n \<Rightarrow> if (word_of_int block :: u32) \<ge> data_block_count n then -1
                  else sint (cell (block_mapping n) (unat (word_of_int block :: u32))))"

definition remap_block_nmbm ::
  "'d nand_drv \<Rightarrow> crc_fn \<Rightarrow> u16 \<Rightarrow> u16 \<Rightarrow> int \<Rightarrow> 'd bmt_desc \<Rightarrow> (bool \<times> 'd bmt_desc) option"
where
  "remap_block_nmbm drv crc block mapped_block copy_len s =
     (case ni s of
        None \<Rightarrow> Some (False, s)
      | Some n \<Rightarrow>
          if (ucast block :: u32) \<ge> data_block_count n then Some (False, s)
          else do {
            (success, n1, s1) \<leftarrow> nmbm_map_block drv crc (ucast block)
                                   (set_state n (ucast mapped_block) BLOCK_ST_BAD) s;
            if \<not> success then Some (False, s1\<lparr>ni := Some n1\<rparr>)
            else let new_block = (ucast (cell (block_mapping n1) (unat block)) :: u16);
                     (_, s2) = bbt_nand_erase drv new_block s1;
                     (_, s3) = (if copy_len > 0 then bbt_nand_copy drv new_block mapped_block copy_len s2
                                else (0, s2))
                 in do {
                   (_, n2, s4) \<leftarrow> nmbm_update_info_table drv crc n1 s3;
                   Some (True, s4\<lparr>ni := Some n2\<rparr>)
                 }
          })"

text \<open>Value 0 prints the remapped blocks; nothing else happens.\<close>

definition mtk_bmt_debug_nmbm :: "u64 \<Rightarrow> 'd bmt_desc \<Rightarrow> (int \<times> 'd bmt_desc) option" where
  "mtk_bmt_debug_nmbm val s = Some (0, s)"

text \<open>The first loop of \<open>unmap_block_nmbm\<close>: the final \<open>start\<close> and \<open>offset\<close>, or \<open>None\<close> when \<open>start\<close>
  falls below 0.\<close>

fun unmap_start :: "u32 list \<Rightarrow> u32 \<Rightarrow> nat \<Rightarrow> nat \<Rightarrow> (nat \<times> nat) option" where
  "unmap_start m lo start offset =
     (if cell m start \<ge> lo
      then (case start of 0 \<Rightarrow> None | Suc k \<Rightarrow> unmap_start m lo k (offset + 1))
      else Some (start, offset))"

declare unmap_start.simps [simp del]

text \<open>The second loop: the lowest remapped block less one.\<close>

definition unmap_top :: "u32 list \<Rightarrow> u32 \<Rightarrow> nat \<Rightarrow> int \<Rightarrow> int" where
  "unmap_top m lo count start =
     fold (\<lambda>b nb. if cell m b < lo then nb
                  else if sint (cell m b) \<le> nb then sint (cell m b) - 1 else nb) [0..<count] start"

definition unmap_block_nmbm :: "'d nand_drv \<Rightarrow> crc_fn \<Rightarrow> u16 \<Rightarrow> 'd bmt_desc \<Rightarrow> 'd bmt_desc option" where
  "unmap_block_nmbm drv crc block s =
     (case ni s of
        None \<Rightarrow> Some s
      | Some n \<Rightarrow>
          if (ucast block :: u32) \<ge> data_block_count n then Some s
          else case unmap_start (block_mapping n) (mapping_blocks_ba n) (unat block) 0 of
                 None \<Rightarrow> Some s
               | Some (start, offset) \<Rightarrow>
                   if offset = 0 then Some s
                   else let nb = cell (block_mapping n) start + of_nat offset;
                            n1 = set_state n nb BLOCK_ST_GOOD;
                            n2 = n1\<lparr>block_mapping := (block_mapping n1)[unat block := nb],
                                    block_mapping_changed := block_mapping_changed n1 + 1\<rparr>;
                            tb = unmap_top (block_mapping n2) (mapping_blocks_ba n2)
                                   (unat (data_block_count n2)) (sint (signature_ba n2 - 1))
                        in do {
                          (_, n3, s1) \<leftarrow> nmbm_update_info_table drv crc
                                           (n2\<lparr>mapping_blocks_top_ba := word_of_int tb\<rparr>) s;
                          Some (s1\<lparr>ni := Some n3\<rparr>)
                        })"

definition mtk_bmt_nmbm_ops :: "'d nand_drv \<Rightarrow> crc_fn \<Rightarrow> 'd mtk_bmt_ops" where
  "mtk_bmt_nmbm_ops drv crc =
     \<lparr>op_sig = [], op_init = mtk_bmt_init_nmbm drv crc, op_remap_block = remap_block_nmbm drv crc,
      op_unmap_block = unmap_block_nmbm drv crc, op_get_mapping_block = get_mapping_block_index_nmbm,
      op_debug = mtk_bmt_debug_nmbm\<rparr>"

section \<open>The table image\<close>

text \<open>The layout \<open>nmbm_init_structure\<close> chooses: the two arrays lie behind the header, in order, inside
  the table, and have the sizes of the arrays in memory.\<close>

definition layout_ok :: "nmbm_instance \<Rightarrow> bool" where
  "layout_ok n \<longleftrightarrow> 32 \<le> unat (ift_state_table_off (info_table n)) \<and>
     unat (ift_state_table_off (info_table n)) + unat (state_table_size n) \<le> unat (ift_mapping_table_off (info_table n)) \<and>
     unat (ift_mapping_table_off (info_table n)) + unat (mapping_table_size n) \<le> unat (info_table_size n) \<and>
     unat (state_table_size n) = 4 * length (block_state n) \<and>
     unat (mapping_table_size n) = 4 * length (block_mapping n)"

lemma u32s_of_take: "u32s_of k bs = u32s_of k (take (4 * k) bs)"
proof (induction k arbitrary: bs)
  case (Suc k)
  have four: "4 * Suc k = Suc (Suc (Suc (Suc (4 * k))))" by simp
  have "le32_of bs = le32_of (take (4 * Suc k) bs)"
    unfolding four by (cases bs rule: le32_of.cases) simp_all
  then show ?case
    using Suc [of "drop 4 bs"] by (simp add: drop_take)
qed simp

lemma u32s_of_prefix: "take (4 * length ws) bs = u32s_bytes ws \<Longrightarrow> u32s_of (length ws) bs = ws"
  using u32s_of_take [of "length ws" bs] u32s_of_bytes [of ws "[]"] by simp

text \<open>The bytes of the generated table.\<close>

lemma generated_cache:
  assumes lay: "layout_ok n" and gen: "nmbm_generate_info_table_cache crc n = (ch, n')"
  shows "\<exists>h rest. info_table_cache n' = ift_bytes h @ rest \<and> length (info_table_cache n') = unat (info_table_size n) \<and>
     hdr_magic (ift_header h) = NMBM_MAGIC_INFO_TABLE \<and> hdr_size (ift_header h) = info_table_size n \<and>
     ift_write_count h = ift_write_count (info_table n) + (if ch then 1 else 0) \<and>
     ift_state_table_off h = ift_state_table_off (info_table n) \<and>
     ift_mapping_table_off h = ift_mapping_table_off (info_table n) \<and>
     take (unat (state_table_size n)) (drop (unat (ift_state_table_off h)) (info_table_cache n')) = u32s_bytes (block_state n) \<and>
     take (unat (mapping_table_size n)) (drop (unat (ift_mapping_table_off h)) (info_table_cache n')) = u32s_bytes (block_mapping n) \<and>
     (\<exists>dat. info_table_cache n' = nmbm_update_checksum crc dat \<and> header_of dat = (ift_header h)\<lparr>hdr_checksum := hdr_checksum (header_of dat)\<rparr> \<and>
        length dat = unat (info_table_size n))"
proof -
  let ?o1 = "unat (ift_state_table_off (info_table n))" and ?o2 = "unat (ift_mapping_table_off (info_table n))"
  let ?S = "u32s_bytes (block_state n)" and ?M = "u32s_bytes (block_mapping n)"
  define N where "N = unat (info_table_size n)"
  define c1 c2 where "c1 = memcpy_at (replicate N 0xff) ?o1 ?S" and "c2 = memcpy_at c1 ?o2 ?M"
  define h2 where "h2 = (info_table n)\<lparr>ift_header := (ift_header (info_table n))\<lparr>hdr_magic := NMBM_MAGIC_INFO_TABLE,
      hdr_version := NMBM_VER, hdr_size := info_table_size n\<rparr>,
      ift_write_count := ift_write_count (info_table n) + (if ch then 1 else 0)\<rparr>"
  define c3 where "c3 = memcpy_at c2 0 (ift_bytes h2)"
  have len: "length ?S = unat (state_table_size n)" "length ?M = unat (mapping_table_size n)"
    using lay by (simp_all add: layout_ok_def)
  have bnd: "32 \<le> ?o1" "?o1 + length ?S \<le> ?o2" "?o2 + length ?M \<le> N"
    using lay len by (simp_all add: layout_ok_def N_def)
  have lc: "length c1 = N" "length c2 = N" "length c3 = N"
    using bnd by (simp_all add: c1_def c2_def c3_def)
  have cache: "info_table_cache n' = nmbm_update_checksum crc c3"
    using gen len by (auto simp: nmbm_generate_info_table_cache_def Let_def c3_def c2_def c1_def h2_def N_def)
  have c3: "c3 = ift_bytes h2 @ drop 32 c2" by (simp add: c3_def memcpy_at_def)
  have hc3: "header_of c3 = ift_header h2" by (simp add: c3 ift_bytes_def)
  have "16 \<le> length c3" using lc bnd by simp
  from update_checksum_shape [OF this refl refl, of crc] obtain v
    where u: "info_table_cache n' = header_bytes ((ift_header h2)\<lparr>hdr_checksum := v\<rparr>) @ drop 16 c3"
    by (auto simp: cache hc3)
  let ?h = "h2\<lparr>ift_header := (ift_header h2)\<lparr>hdr_checksum := v\<rparr>\<rparr>"
  have img: "info_table_cache n' = ift_bytes ?h @ drop 32 c2"
    by (simp add: u c3 ift_bytes_def)
  have beyond: "drop q (info_table_cache n') = drop q c2" if "32 \<le> q" for q
    using that by (simp add: img)
  have "take (length ?S) (drop ?o1 c2) = ?S"
    using bnd lc by (simp add: c2_def take_drop_memcpy_below) (simp add: c1_def take_drop_memcpy_same)
  moreover have "take (length ?M) (drop ?o2 c2) = ?M"
    using bnd lc by (simp add: c2_def take_drop_memcpy_same)
  moreover have "length (info_table_cache n') = N" using lc bnd by (simp add: img)
  ultimately show ?thesis
    using img cache beyond bnd len lc hc3
    by (intro exI [of _ ?h] exI [of _ "drop 32 c2"] conjI exI [of _ c3]) (simp_all add: h2_def N_def)
qed

section \<open>The layout\<close>

lemma unat_align_up:
  assumes p: "unat p = 2 ^ k" and "unat x + 2 ^ k \<le> 2 ^ 32"
  shows "unat (align_up x p) = (unat x + (2 ^ k - 1)) div 2 ^ k * 2 ^ k"
proof -
  have "of_nat (unat p) = (of_nat (2 ^ k) :: u32)" using p by simp
  then have pk: "p = 2 ^ k" by simp
  have m: "p - 1 = mask k" by (simp add: pk mask_eq_exp_minus_1)
  have "unat (mask k :: u32) = 2 ^ k - 1"
    using p unat_pred_greater [of 0 p] unfolding m [symmetric] by (simp add: word_less_nat_alt)
  then have s: "unat (x + mask k) = unat x + (2 ^ k - 1)"
    using assms(2) by (subst unat_add_lem [THEN iffD1]) (auto simp: Suc_le_eq less_le_trans)
  have "unat (align_up x p) = take_bit 32 (push_bit k (unat (x + mask k) div 2 ^ k))"
    unfolding align_up_def m and_not_mask by (simp add: unsigned_push_bit_eq unat_drop_bit)
  also have "\<dots> = unat (x + mask k) div 2 ^ k * 2 ^ k"
  proof -
    have "unat (x + mask k) div 2 ^ k * 2 ^ k \<le> unat (x + mask k)" by (simp add: div_times_less_eq_dividend)
    also have "\<dots> < 2 ^ 32" using unat_bound [of "x + mask k"] by simp
    finally show ?thesis by (simp add: push_bit_eq_mult take_bit_nat_eq_self)
  qed
  finally show ?thesis by (simp only: s)
qed

lemma align_up_bounds:
  assumes "unat p = 2 ^ k" and "unat x + 2 ^ k \<le> 2 ^ 32"
  shows "unat x \<le> unat (align_up x p)" "unat (align_up x p) < unat x + 2 ^ k"
proof -
  let ?y = "unat x + (2 ^ k - 1)"
  have "?y div 2 ^ k * 2 ^ k + ?y mod 2 ^ k = ?y" by (rule div_mult_mod_eq)
  moreover have "?y mod 2 ^ k < 2 ^ k" "(0 :: nat) < 2 ^ k" by simp_all
  ultimately show "unat x \<le> unat (align_up x p)" "unat (align_up x p) < unat x + 2 ^ k"
    unfolding unat_align_up [OF assms] by linarith+
qed

lemma state_table_size_eq: "unat (nmbm_state_table_size (ucast (b :: u16))) = (unat b + 15) div 16 * 4"
proof -
  have b: "unat b < 65536" using unat_bound [of b] by simp
  have a: "unat ((ucast b :: u32) + 15) = unat b + 15"
    using b by (subst unat_add_lem [THEN iffD1]) auto
  let ?q = "((ucast b :: u32) + 15) div 16"
  have q: "unat ?q = (unat b + 15) div 16" by (simp only: unat_div a) simp
  have "unat ?q * unat (4 :: u32) < 2 ^ LENGTH(32)" unfolding q using b by simp
  then have "unat (?q * 4) = unat ?q * unat (4 :: u32)" by (rule unat_mult_lem [THEN iffD1])
  moreover have "nmbm_state_table_size (ucast b) = ?q * 4" by (simp add: nmbm_state_table_size_def algebra_simps)
  moreover have "unat (4 :: u32) = 4" by simp
  ultimately show ?thesis by (simp only: q)
qed


lemma all_ones_field:
  assumes "i < 16"
  shows "drop_bit (i * 2) (0xffffffff :: u32) AND 3 = 3"
proof -
  have ones: "(0xffffffff :: u32) = - 1" by simp
  show ?thesis
    unfolding three_eq_mask ones using assms by (intro bit_word_eqI) (auto simp: bit_simps)
qed

lemma init_structure_layout:
  assumes pg: "unat (pg_size s) = 2 ^ k" and "k \<le> 24" and n': "n' = nmbm_init_structure n s"
  shows "layout_ok n' \<and> length (block_mapping n') = unat (total_blks s) \<and>
     unat (total_blks s) \<le> 16 * length (block_state n') \<and> length (info_table_cache n') = unat (info_table_size n') \<and>
     (\<forall>c. unat c < unat (total_blks s) \<longrightarrow> nmbm_get_block_state n' c = BLOCK_ST_GOOD) \<and>
     unat (info_table_size n') + 4 * length (block_state n') + 4 * length (block_mapping n') + inst =
       nmbm_calc_structure_size inst s"
proof -
  let ?b = "unat (total_blks s)"
  define st mp where "st = nmbm_state_table_size (ucast (total_blks s))" and "mp = (ucast (total_blks s) * 4 :: u32)"
  have b: "?b < 65536" using unat_bound [of "total_blks s"] by simp
  have K: "(2 :: nat) ^ k \<le> 2 ^ 24" using assms(2) by (rule power_increasing) simp
  have st: "unat st = (?b + 15) div 16 * 4" by (simp add: st_def state_table_size_eq)
  have mp: "unat mp = 4 * ?b"
    using b unfolding mp_def by (subst unat_mult_lem [THEN iffD1]) auto
  have st': "?b \<le> 4 * unat st" "unat st \<le> ?b + 15" unfolding st by linarith+
  note al = align_up_bounds [OF pg]
  define o1 o2 where "o1 = align_up 32 (pg_size s)" and "o2 = o1 + align_up st (pg_size s)"
  have o1: "32 \<le> unat o1" "unat o1 < 32 + 2 ^ 24" using al [of 32] K by (simp_all add: o1_def)
  have a2: "unat st \<le> unat (align_up st (pg_size s))" "unat (align_up st (pg_size s)) < 2 ^ 25"
    using al [of st] K st' b by simp_all
  have o2: "unat o2 = unat o1 + unat (align_up st (pg_size s))"
    using o1 a2 unfolding o2_def by (intro unat_add_lem [THEN iffD1]) simp
  have a3: "unat mp \<le> unat (align_up mp (pg_size s))" "unat (align_up mp (pg_size s)) < 2 ^ 25"
    using al [of mp] K mp b by simp_all
  define it where "it = o2 + align_up mp (pg_size s)"
  have it: "unat it = unat o2 + unat (align_up mp (pg_size s))"
    using o1 o2 a2 a3 unfolding it_def by (intro unat_add_lem [THEN iffD1]) simp
  have f: "info_table_size n' = it" "state_table_size n' = st" "mapping_table_size n' = mp"
    "ift_state_table_off (info_table n') = o1" "ift_mapping_table_off (info_table n') = o2"
    "block_state n' = replicate (unat st div 4) 0xffffffff" "block_mapping n' = replicate (unat mp div 4) 0"
    "info_table_cache n' = replicate (unat it) 0"
    by (simp_all add: n' nmbm_init_structure_def Let_def it_def o2_def o1_def st_def mp_def)
  have "layout_ok n'"
    using o1 o2 a2(1) a3(1) it st mp by (simp add: layout_ok_def f)
  moreover have "nmbm_get_block_state n' c = BLOCK_ST_GOOD" if "unat c < ?b" for c
  proof -
    have "unat c div 16 < unat st div 4" using that st by simp
    then show ?thesis
      by (simp add: nmbm_get_block_state_def get_state_raw_eq f get_field_def) (simp add: all_ones_field)
  qed
  moreover have "unat (it + st + mp) = unat it + unat st + unat mp"
    using it o2 o1 a2 a3 st' mp b by (subst unat_add_lem [THEN iffD1], simp add: unat_add_lem [THEN iffD1])+ simp
  ultimately show ?thesis
    using st mp b by (simp add: f nmbm_calc_structure_size_def Let_def it_def o2_def o1_def st_def mp_def)
qed

section \<open>Properties of the structures\<close>

definition ex_env :: bmt_env where
  "ex_env = \<lparr>dt_node = True, dt_bmt_v2 = False, dt_nmbm = True, dt_bbt = False, dt_remap_range = None,
     dt_overridden_oobsize = None, dt_bmt_pool_size = None, dt_bmt_oob_offset = None, dt_bmt_table_size = None,
     dt_bmt_max_ratio = None, dt_bmt_max_reserved_blocks = None, dt_empty_page_ecc_protected = False,
     dt_bmt_force_create = False, alloc_data_buf_ok = True, alloc_table_ok = True, debugfs_ok = True\<rparr>"

text \<open>the structures fit the memory allocated for them: \<open>nmbm_init_structure\<close> places the header, the
  state table and the mapping table in this order and without overlap inside the table image, the
  arrays cover every block of the chip, every block starts as good, and image and arrays together
  take exactly the bytes \<open>nmbm_calc_structure_size\<close> reserves behind the instance.\<close>

theorem nmbm_init_layout:
  assumes pg: "unat (pg_size s) = 2 ^ k" and "k \<le> 24" and n': "n' = nmbm_init_structure n s"
  shows "layout_ok n' \<and> length (block_mapping n') = unat (total_blks s) \<and>
     unat (total_blks s) \<le> 16 * length (block_state n') \<and> length (info_table_cache n') = unat (info_table_size n') \<and>
     (\<forall>c. unat c < unat (total_blks s) \<longrightarrow> nmbm_get_block_state n' c = BLOCK_ST_GOOD) \<and>
     unat (info_table_size n') + 4 * length (block_state n') + 4 * length (block_mapping n') + inst =
       nmbm_calc_structure_size inst s"
  by (rule init_structure_layout [OF assms])

theorem nmbm_init_layout_witness:
  "layout_ok (nmbm_init_structure (nmbm_new_instance ex_env) ex_desc) \<and>
   length (block_mapping (nmbm_init_structure (nmbm_new_instance ex_env) ex_desc)) = 8"
  using nmbm_init_layout [of ex_desc 1 _ "nmbm_new_instance ex_env", OF _ _ refl] by (simp add: ex_desc_def)

text \<open>C11: the table written to the chip is the one a later start reads back: the image built by
  \<open>nmbm_generate_info_table_cache\<close> passes the header check, the checksum check and the layout check of
  the loader, and the block states, the block map and the write count decoded from it are those in
  memory (the write count one higher when there were changes to store).\<close>

theorem nmbm_table_image_roundtrip:
  assumes crc: "crc_incremental crc" and lay: "layout_ok n"
    and gen: "nmbm_generate_info_table_cache crc n = (ch, n')" and c: "c = info_table_cache n'"
  shows "nmbm_check_info_table_header n' c \<and> nmbm_check_header crc c (info_table_size n') \<and>
     image_state n' c = block_state n \<and> image_mapping n' c = block_mapping n \<and>
     ift_write_count (ift_of c) = ift_write_count (info_table n) + (if ch then 1 else 0)"
proof -
  obtain h rest dat where h: "c = ift_bytes h @ rest" "length c = unat (info_table_size n)"
    "hdr_magic (ift_header h) = NMBM_MAGIC_INFO_TABLE" "hdr_size (ift_header h) = info_table_size n"
    "ift_write_count h = ift_write_count (info_table n) + (if ch then 1 else 0)"
    "ift_state_table_off h = ift_state_table_off (info_table n)"
    "ift_mapping_table_off h = ift_mapping_table_off (info_table n)"
    "take (unat (state_table_size n)) (drop (unat (ift_state_table_off h)) c) = u32s_bytes (block_state n)"
    "take (unat (mapping_table_size n)) (drop (unat (ift_mapping_table_off h)) c) = u32s_bytes (block_mapping n)"
    and dat: "c = nmbm_update_checksum crc dat" "header_of dat = (ift_header h)\<lparr>hdr_checksum := hdr_checksum (header_of dat)\<rparr>"
      "length dat = unat (info_table_size n)"
    using generated_cache [OF lay gen] unfolding c [symmetric] by blast
  have same: "info_table_size n' = info_table_size n" "state_table_size n' = state_table_size n"
    "mapping_table_size n' = mapping_table_size n"
    using gen by (auto simp: nmbm_generate_info_table_cache_def Let_def)
  note l = lay [unfolded layout_ok_def]
  have io: "ift_of c = h" by (simp add: h(1))
  have st: "image_state n' c = block_state n"
    using u32s_of_prefix [of "block_state n" "drop (unat (ift_state_table_off h)) c"] h(8) l
    by (simp add: image_state_def io same)
  have mp: "image_mapping n' c = block_mapping n"
    using u32s_of_prefix [of "block_mapping n" "drop (unat (ift_mapping_table_off h)) c"] h(9) l
    by (simp add: image_mapping_def io same)
  have "\<not> ift_mapping_table_off h - ift_state_table_off h < state_table_size n"
    "\<not> info_table_size n - ift_mapping_table_off h < mapping_table_size n"
    using l h(6,7) by unat_arith+
  then have hd: "nmbm_check_info_table_header n' c"
    using h(3,4) by (simp add: nmbm_check_info_table_header_def Let_def io same)
  have "hdr_size (header_of dat) = info_table_size n" by (subst dat(2)) (simp add: h(4))
  then have "nmbm_check_header crc c (info_table_size n')"
    unfolding dat(1) same using l dat(3) by (intro check_updated_checksum [OF crc]) auto
  with st mp hd h(5) io show ?thesis by simp
qed

theorem nmbm_table_image_roundtrip_witness:
  "\<exists>n'. nmbm_generate_info_table_cache sum_crc
        ((nmbm_init_structure (nmbm_new_instance ex_env) ex_desc)\<lparr>block_mapping_changed := 1\<rparr>) = (True, n') \<and>
     nmbm_check_header sum_crc (info_table_cache n') (info_table_size n') \<and>
     image_state n' (info_table_cache n') = [0xffffffff] \<and>
     image_mapping n' (info_table_cache n') = replicate 8 0 \<and>
     ift_write_count (ift_of (info_table_cache n')) = 1"
proof -
  let ?n = "(nmbm_init_structure (nmbm_new_instance ex_env) ex_desc)\<lparr>block_mapping_changed := 1\<rparr>"
  obtain ch n' where g: "nmbm_generate_info_table_cache sum_crc ?n = (ch, n')" by fastforce
  have "layout_ok (nmbm_init_structure (nmbm_new_instance ex_env) ex_desc)"
    using init_structure_layout [of ex_desc 1, OF _ _ refl] by (simp add: ex_desc_def)
  then have l: "layout_ok ?n" by (simp add: layout_ok_def)
  have "ch" using g by (auto simp: nmbm_generate_info_table_cache_def Let_def)
  moreover have "block_state ?n = [0xffffffff]" "block_mapping ?n = replicate 8 0" "ift_write_count (info_table ?n) = 0"
    by (simp_all add: nmbm_init_structure_def Let_def ex_desc_def nmbm_new_instance_def nmbm_state_table_size_def)
  ultimately show ?thesis
    using nmbm_table_image_roundtrip [OF sum_crc_incremental l g refl] g by simp
qed

section \<open>The invariant of an attached instance\<close>

text \<open>The block map has an entry for every block, the logical blocks are mapped into the chip, and the
  management area ends before the last block.\<close>

definition nmbm_ok :: "'d bmt_desc \<Rightarrow> nmbm_instance \<Rightarrow> bool" where
  "nmbm_ok s n \<longleftrightarrow> geom_ok s \<and> block_count n = ucast (total_blks s) \<and> 0 < total_blks s \<and>
     data_block_count n \<le> ucast (total_blks s) \<and> length (block_mapping n) = unat (total_blks s) \<and>
     (\<forall>i < unat (data_block_count n). unat (block_mapping n ! i) < unat (total_blks s)) \<and>
     0 < info_table_size n \<and> areas_below (ucast (total_blks s) - 1) n"

definition nmbm_inv :: "'d bmt_desc \<Rightarrow> bool" where
  "nmbm_inv s \<longleftrightarrow> (case ni s of None \<Rightarrow> False | Some n \<Rightarrow> nmbm_ok s n)"

definition nmbm_lblks :: "'d bmt_desc \<Rightarrow> nat" where
  "nmbm_lblks s = (case ni s of None \<Rightarrow> 0 | Some n \<Rightarrow> unat (data_block_count n))"

lemma nmbm_ok_geom: "same_geom s t \<Longrightarrow> nmbm_ok t n = nmbm_ok s n"
  using same_geom_ok [of s t] by (simp add: nmbm_ok_def) (simp add: same_geom_def)

lemma nmbm_ok_upd:
  assumes "nmbm_ok s n" and "upd n n'"
  shows "nmbm_ok s n'"
proof -
  have "\<forall>K. areas_below K n \<longrightarrow> areas_below K n'" using assms(2) by (simp add: upd_def)
  then show ?thesis using assms(1) upd_fields [OF assms(2)] by (simp add: nmbm_ok_def)
qed

lemma nmbm_ok_set_state: "nmbm_ok s n \<Longrightarrow> nmbm_ok s (set_state n b v)"
  by (simp add: nmbm_ok_def areas_below_def)

lemma nmbm_ok_lblks: "nmbm_ok s n \<Longrightarrow> unat (data_block_count n) \<le> unat (total_blks s)"
  by (simp add: nmbm_ok_def word_le_nat_alt)

lemma get_mapping_nmbm_cell:
  assumes "nmbm_ok s n" and "ni s = Some n" and "b < unat (data_block_count n)"
  shows "get_mapping_block_index_nmbm s (int b) = uint (block_mapping n ! b)"
proof -
  have lt: "b < unat (total_blks s)" using nmbm_ok_lblks [OF assms(1)] assms(3) by simp
  then have "b < 2 ^ 32" using unat_bound [of "total_blks s"] by simp
  then have u: "unat (word_of_int (int b) :: u32) = b" by (simp add: unsigned_of_nat take_bit_nat_eq_self)
  then have "\<not> (word_of_int (int b) :: u32) \<ge> data_block_count n" using assms(3) by (simp add: word_le_nat_alt)
  moreover have "unat (block_mapping n ! b) < 2 ^ 31"
    using assms(1,3) unat_bound [of "total_blks s"] unfolding nmbm_ok_def by fastforce
  then have "sint (block_mapping n ! b) = uint (block_mapping n ! b)" by (rule sint_eq_uint)
  ultimately show ?thesis
    using assms(1,2) lt u by (simp add: get_mapping_block_index_nmbm_def nmbm_ok_def cell_def)
qed

text \<open>Mapping a logical block keeps the invariant.\<close>

lemma map_block_ok:
  assumes ok: "nmbm_ok s n" and lb: "lb < data_block_count n"
  shows "\<exists>r n1 s1. nmbm_map_block drv crc lb n s = Some (r, n1, s1) \<and> nmbm_ok s n1 \<and> io_upd s s1 \<and>
     data_block_count n1 = data_block_count n"
proof -
  let ?K = "block_count n - 1"
  have K0: "0 < block_count n" using ok unfolding nmbm_ok_def by (auto simp: word_less_nat_alt)
  have Klt: "?K < block_count n" using K0 unat_pred_greater [OF K0] by (simp add: word_less_nat_alt)
  have ab: "areas_below ?K n" using ok by (auto simp: nmbm_ok_def)
  then have ba: "mapping_blocks_ba n < block_count n" using Klt by (auto simp: areas_below_def intro: order.strict_trans1)
  have z: "0 < unat (info_table_size n)" using ok by (simp add: nmbm_ok_def word_less_nat_alt)
  show ?thesis
  proof (cases "mapping_blocks_ba n = mapping_blocks_top_ba n")
    case True
    then show ?thesis using ok by (auto simp: nmbm_map_block_def)
  next
    case ne: False
    show ?thesis
    proof (cases "nmbm_block_walk n False (mapping_blocks_top_ba n) 0 (mapping_blocks_ba n)")
      case None
      obtain ok' n1 s1 where u: "nmbm_update_info_table drv crc n s = Some (ok', n1, s1)" "upd n n1" "io_upd s s1"
        using update_returns [OF z, of drv crc s] by blast
      let ?n2 = "n1\<lparr>mapping_blocks_top_ba := mapping_blocks_ba n1\<rparr>"
      have "nmbm_ok s n1" using nmbm_ok_upd [OF ok u(2)] .
      then have "nmbm_ok s ?n2" by (auto simp: nmbm_ok_def areas_below_def)
      then show ?thesis
        using None ne u upd_fields(3) [OF u(2)] by (auto simp: nmbm_map_block_def)
    next
      case (Some pb)
      note bd = walk_spare_bounds [OF ba Some]
      let ?T = "mapping_blocks_top_ba n"
      let ?n1 = "n\<lparr>block_mapping := (block_mapping n)[unat lb := pb], mapping_blocks_top_ba := ?T - 1,
          block_mapping_changed := block_mapping_changed n + 1\<rparr>"
      have "?T \<le> ?K" using ab by (simp add: areas_below_def)
      moreover have "?T - 1 \<le> ?T"
        using unat_pred_greater [OF order.strict_trans2 [OF bd(1,2)]] by (simp add: word_le_nat_alt)
      ultimately have ab1: "areas_below ?K ?n1" using ab by (auto simp: areas_below_def)
      have "pb < block_count n" using bd(2) \<open>?T \<le> ?K\<close> Klt by (meson order.strict_trans1)
      then have pb: "unat pb < unat (total_blks s)" using ok by (auto simp: nmbm_ok_def word_less_nat_alt)
      have "unat ((block_mapping n)[unat lb := pb] ! i) < unat (total_blks s)" if "i < unat (data_block_count n)" for i
        using ok that pb nmbm_ok_lblks [OF ok] by (cases "i = unat lb") (auto simp: nmbm_ok_def)
      then have "nmbm_ok s ?n1" using ok ab1 unfolding nmbm_ok_def by auto
      then show ?thesis using Some ne by (auto simp: nmbm_map_block_def)
    qed
  qed
qed

lemma remap_block_nmbm_keeps:
  assumes inv: "nmbm_inv s" and b: "unat b < nmbm_lblks s"
  shows "\<exists>ok t. remap_block_nmbm drv crc b m k s = Some (ok, t) \<and> nmbm_inv t \<and> same_geom s t \<and> nmbm_lblks t = nmbm_lblks s"
proof -
  obtain n where n: "ni s = Some n" and ok: "nmbm_ok s n" using inv by (auto simp: nmbm_inv_def split: option.splits)
  have lb: "(ucast b :: u32) < data_block_count n" using b n by (simp add: nmbm_lblks_def word_less_nat_alt)
  let ?n0 = "set_state n (ucast m) BLOCK_ST_BAD"
  obtain r n1 s1 where mb: "nmbm_map_block drv crc (ucast b) ?n0 s = Some (r, n1, s1)"
    and ok1: "nmbm_ok s n1" and io1: "io_upd s s1" and dc: "data_block_count n1 = data_block_count n"
    using map_block_ok [OF nmbm_ok_set_state [OF ok], of "ucast b" "ucast m" BLOCK_ST_BAD drv crc] lb by auto
  have fin: "nmbm_inv (t\<lparr>ni := Some n2\<rparr>) \<and> same_geom s (t\<lparr>ni := Some n2\<rparr>) \<and> nmbm_lblks (t\<lparr>ni := Some n2\<rparr>) = nmbm_lblks s"
    if "nmbm_ok s n2" "io_upd s t" "data_block_count n2 = data_block_count n" for t n2
  proof -
    have g: "same_geom s (t\<lparr>ni := Some n2\<rparr>)" using io_upd_same_geom [OF that(2)] by (simp add: same_geom_def)
    then show ?thesis using nmbm_ok_geom [OF g] that(1,3) n by (simp add: nmbm_inv_def nmbm_lblks_def)
  qed
  show ?thesis
  proof (cases r)
    case False
    then have "remap_block_nmbm drv crc b m k s = Some (False, s1\<lparr>ni := Some n1\<rparr>)"
      using mb n lb by (simp add: remap_block_nmbm_def leD)
    then show ?thesis using fin [OF ok1 io1 dc] by blast
  next
    case True
    define nb where "nb = (ucast (cell (block_mapping n1) (unat b)) :: u16)"
    obtain r2 s2 where e: "bbt_nand_erase drv nb s1 = (r2, s2)" by fastforce
    obtain r3 s3 where c: "(if k > 0 then bbt_nand_copy drv nb m k s2 else (0, s2)) = (r3, s3)" by fastforce
    have z: "0 < unat (info_table_size n1)" using ok1 by (simp add: nmbm_ok_def word_less_nat_alt)
    obtain ok' n2 s4 where u: "nmbm_update_info_table drv crc n1 s3 = Some (ok', n2, s4)" "upd n1 n2" "io_upd s3 s4"
      using update_returns [OF z, of drv crc s3] by blast
    have "io_upd s2 s3" using c bbt_nand_copy_frame [of drv nb m k s2 r3 s3] by (auto split: if_splits)
    then have io4: "io_upd s s4"
      using io1 bbt_nand_erase_frame [OF e] u(3) by (meson io_upd_trans)
    have "remap_block_nmbm drv crc b m k s = Some (True, s4\<lparr>ni := Some n2\<rparr>)"
      using True mb n lb c e u(1) by (simp add: remap_block_nmbm_def leD nb_def [symmetric])
    then show ?thesis
      using fin [OF nmbm_ok_upd [OF ok1 u(2)] io4] upd_fields(3) [OF u(2)] dc by auto
  qed
qed

lemma nmbm_inv_nand: "nmbm_inv (s\<lparr>nand := d\<rparr>) = nmbm_inv s"
  by (simp add: nmbm_inv_def nmbm_ok_def split: option.split)

interpretation nmbm: bmt_remapping "mtk_bmt_nmbm_ops drv crc" nmbm_inv nmbm_lblks
proof unfold_locales
  show "geom_ok s" if "nmbm_inv s" for s
    using that by (auto simp: nmbm_inv_def nmbm_ok_def split: option.splits)
  show "nmbm_lblks s \<le> unat (total_blks s)" if "nmbm_inv s" for s
    using that by (auto simp: nmbm_inv_def nmbm_lblks_def nmbm_ok_lblks split: option.splits)
  show "0 \<le> op_get_mapping_block (mtk_bmt_nmbm_ops drv crc) s (int b) \<and>
      op_get_mapping_block (mtk_bmt_nmbm_ops drv crc) s (int b) < uint (total_blks s)"
    if inv: "nmbm_inv s" and lt: "b < nmbm_lblks s" for s b
  proof -
    obtain n where n: "ni s = Some n" "nmbm_ok s n" "b < unat (data_block_count n)"
      using inv lt by (cases "ni s") (auto simp: nmbm_inv_def nmbm_lblks_def)
    then have "unat (block_mapping n ! b) < unat (total_blks s)" by (simp add: nmbm_ok_def)
    then show ?thesis
      using get_mapping_nmbm_cell [OF n(2,1,3)] by (simp add: mtk_bmt_nmbm_ops_def uint_nat del: of_nat_unat)
  qed
  show "\<exists>ok t. op_remap_block (mtk_bmt_nmbm_ops drv crc) b m n s = Some (ok, t) \<and> nmbm_inv t \<and>
      same_geom s t \<and> nmbm_lblks t = nmbm_lblks s" if "nmbm_inv s" and "unat b < nmbm_lblks s" for s b m n
    using remap_block_nmbm_keeps [OF that] by (simp add: mtk_bmt_nmbm_ops_def)
qed (simp_all add: nmbm_inv_nand nmbm_lblks_def mtk_bmt_nmbm_ops_def get_mapping_block_index_nmbm_def)

text \<open>A map that sends no two logical blocks to the same block; the first map and every map into fresh
  spare blocks are of this kind.\<close>

definition nmbm_inj :: "'d bmt_desc \<Rightarrow> bool" where
  "nmbm_inj s \<longleftrightarrow> nmbm_inv s \<and>
     (case ni s of None \<Rightarrow> False | Some n \<Rightarrow> distinct (take (unat (data_block_count n)) (block_mapping n)))"

interpretation nmbm_fresh: bmt_isolating "mtk_bmt_nmbm_ops drv crc" nmbm_inj nmbm_lblks
proof unfold_locales
  show "geom_ok s" if "nmbm_inj s" for s using that nmbm.geom by (auto simp: nmbm_inj_def)
  show "nmbm_lblks s \<le> unat (total_blks s)" if "nmbm_inj s" for s using that nmbm.lblks_le by (auto simp: nmbm_inj_def)
  show "0 \<le> op_get_mapping_block (mtk_bmt_nmbm_ops drv crc) s (int b) \<and>
      op_get_mapping_block (mtk_bmt_nmbm_ops drv crc) s (int b) < uint (total_blks s)"
    if "nmbm_inj s" and "b < nmbm_lblks s" for s b
    using that nmbm.map_range by (auto simp: nmbm_inj_def)
  show "nmbm_inj (s\<lparr>nand := d\<rparr>)" if "nmbm_inj s" for s d using that by (simp add: nmbm_inj_def nmbm_inv_nand)
  show "b = c" if inj: "nmbm_inj s" and b: "b < nmbm_lblks s" and c: "c < nmbm_lblks s"
    and eq: "op_get_mapping_block (mtk_bmt_nmbm_ops drv crc) s (int b) = op_get_mapping_block (mtk_bmt_nmbm_ops drv crc) s (int c)"
    for s b c
  proof -
    obtain n where n: "ni s = Some n" "nmbm_ok s n" and d: "distinct (take (unat (data_block_count n)) (block_mapping n))"
      using inj by (cases "ni s") (auto simp: nmbm_inj_def nmbm_inv_def)
    have lt: "b < unat (data_block_count n)" "c < unat (data_block_count n)" using b c n(1) by (simp_all add: nmbm_lblks_def)
    then have "uint (block_mapping n ! b) = uint (block_mapping n ! c)"
      using eq get_mapping_nmbm_cell [OF n(2,1)] by (simp add: mtk_bmt_nmbm_ops_def)
    then have "block_mapping n ! b = block_mapping n ! c" by (rule unsigned_word_eqI)
    moreover have "unat (data_block_count n) \<le> length (block_mapping n)"
      using nmbm_ok_lblks [OF n(2)] n(2) by (simp add: nmbm_ok_def)
    ultimately show ?thesis using lt nth_eq_iff_index_eq [OF d, of b c] by simp
  qed
qed (simp_all add: nmbm.nand_lblks nmbm.nand_map)

section \<open>Properties of the attached stack\<close>

definition ex_nmbm_desc :: "(nat \<Rightarrow> byte) bmt_desc" where
  "ex_nmbm_desc = ex_desc\<lparr>ni := Some ex_nmbm, data_buf := replicate 6 0, remap_range := None\<rparr>"

lemma ex_nmbm_desc_ok: "nmbm_inj ex_nmbm_desc" "nmbm_inv ex_nmbm_desc" "nmbm_lblks ex_nmbm_desc = 3"
  "blk_shift ex_nmbm_desc = 2" "total_blks ex_nmbm_desc = 8" "nand ex_nmbm_desc x = 0xff"
proof -
  have "unat ([0, 1, 2, - 1, - 1, - 1, - 1, - 1 :: u32] ! i) < 8" if i: "i < 3" for i :: nat
  proof -
    consider "i = 0" | "i = 1" | "i = 2" using i by linarith
    then show ?thesis by cases simp_all
  qed
  then have "nmbm_ok ex_nmbm_desc ex_nmbm"
    by (auto simp: nmbm_ok_def ex_nmbm_desc_def ex_nmbm_def ex_desc_def ex_mtd_def geom_ok_def chip_fits_def areas_below_def)
  then show "nmbm_inv ex_nmbm_desc" by (simp add: nmbm_inv_def ex_nmbm_desc_def)
  then show "nmbm_inj ex_nmbm_desc" by (simp add: nmbm_inj_def) (simp add: ex_nmbm_desc_def ex_nmbm_def)
qed (simp_all add: nmbm_lblks_def ex_nmbm_desc_def ex_nmbm_def ex_desc_def)

text \<open>erasing, asking for a bad block and marking one bad through the stack with the nmbm backend
  always return, whatever the driver answers and however often blocks are remapped and the tables
  rewritten on the way, and leave a consistent instance.\<close>

theorem nmbm_operations_return:
  assumes "nmbm_inv s" and "a + len \<le> nmbm_lblks s * 2 ^ unat (blk_shift s)"
    and "b < nmbm_lblks s * 2 ^ unat (blk_shift s)" and ops: "ops = mtk_bmt_nmbm_ops drv crc"
  shows "(\<exists>r fa t. mtk_bmt_mtd_erase ops drv a len junk s = Some (r, fa, t) \<and> nmbm_inv t) \<and>
     (\<exists>r t. mtk_bmt_block_isbad ops drv b s = Some (r, t) \<and> nmbm_inv t) \<and>
     (\<exists>r t. mtk_bmt_block_markbad ops drv b s = Some (r, t) \<and> nmbm_inv t)"
  using nmbm.mtd_erase_total [OF assms(1,2), of drv crc drv junk] nmbm.isbad_total [OF assms(1,3), of drv crc drv]
    nmbm.markbad_total [OF assms(1,3), of drv crc drv]
  unfolding ops keeps_def by blast

theorem nmbm_operations_return_witness:
  "\<exists>r fa t. mtk_bmt_mtd_erase (mtk_bmt_nmbm_ops (ram_drv 4 []) sum_crc) (ram_drv 4 []) 4 8 0 ex_nmbm_desc = Some (r, fa, t) \<and> nmbm_inv t"
  using nmbm_operations_return [OF ex_nmbm_desc_ok(2) _ _ refl, of 4 8 5 "ram_drv 4 []" sum_crc 0]
  by (simp add: ex_nmbm_desc_ok)



text \<open>a write through the stack with the nmbm backend into erased logical bytes returns 0 and stores
  exactly its data, as long as the block map is injective: seen through the map, the written range
  holds the new bytes and every other logical byte is unchanged.\<close>

theorem nmbm_write_stores:
  assumes "nmbm_inj s" and "programs_erased drv peek"
    and "to + length dat \<le> nmbm_lblks s * 2 ^ unat (blk_shift s)"
    and "\<forall>i < length dat. peek (nand s) (xlate (mtk_bmt_nmbm_ops drv crc) s (to + i)) = 0xff"
  shows "\<exists>d. mtk_bmt_write (mtk_bmt_nmbm_ops drv crc) drv to dat 0 [] s =
             Some (0, length dat, 0, s\<lparr>nand := d\<rparr>) \<and>
           (\<forall>x < nmbm_lblks s * 2 ^ unat (blk_shift s). peek d (xlate (mtk_bmt_nmbm_ops drv crc) s x) =
              (if to \<le> x \<and> x < to + length dat then dat ! (x - to)
               else peek (nand s) (xlate (mtk_bmt_nmbm_ops drv crc) s x)))"
  using nmbm_fresh.write_loop_clean [OF assms, where rl = 0 and retry = 0] by (simp add: mtk_bmt_write_def)

theorem nmbm_write_stores_witness:
  "\<exists>d. mtk_bmt_write (mtk_bmt_nmbm_ops (ram_drv 4 []) sum_crc) (ram_drv 4 []) 3 [7, 8] 0 [] ex_nmbm_desc =
      Some (0, 2, 0, ex_nmbm_desc\<lparr>nand := d\<rparr>) \<and>
      d (xlate (mtk_bmt_nmbm_ops (ram_drv 4 []) sum_crc) ex_nmbm_desc 4) = 8"
proof -
  let ?o = "mtk_bmt_nmbm_ops (ram_drv 4 []) sum_crc"
  have "\<exists>d. mtk_bmt_write ?o (ram_drv 4 []) 3 [7, 8] 0 [] ex_nmbm_desc = Some (0, length [7, 8 :: byte], 0, ex_nmbm_desc\<lparr>nand := d\<rparr>) \<and>
     (\<forall>x < nmbm_lblks ex_nmbm_desc * 2 ^ unat (blk_shift ex_nmbm_desc). d (xlate ?o ex_nmbm_desc x) =
        (if 3 \<le> x \<and> x < 3 + length [7, 8 :: byte] then [7, 8] ! (x - 3) else nand ex_nmbm_desc (xlate ?o ex_nmbm_desc x)))"
    by (rule nmbm_write_stores [OF ex_nmbm_desc_ok(1) ram_programs_erased]) (simp_all add: ex_nmbm_desc_ok)
  then show ?thesis by (auto simp: ex_nmbm_desc_ok)
qed

end
