(* ===== verification/Nmbm_Start.thy ===== *)
theory Nmbm_Start
  imports Nmbm_Attach
begin

text \<open>
  Starting the \<open>mediatek,nmbm\<close> backend: the search for a signature, the creation of new structures and
  the loading of stored ones return, and leave everything of the descriptor but the chip and the page
  buffer as it was.
\<close>

section \<open>Creating returns\<close>

text \<open>A step of the attach code that returns and touches nothing of the descriptor but the chip and the
  page buffer.\<close>

definition returns :: "'d bmt_desc \<Rightarrow> ('a \<times> nmbm_instance \<times> 'd bmt_desc) option \<Rightarrow> bool" where
  "returns s r \<longleftrightarrow> (\<exists>x n t. r = Some (x, n, t) \<and> io_upd s t)"

lemma returnsI: "io_upd s t \<Longrightarrow> returns s (Some (x, n, t))"
  by (simp add: returns_def)

lemma returns_step: "returns s1 r \<Longrightarrow> io_upd s s1 \<Longrightarrow> returns s r"
  by (auto simp: returns_def intro: io_upd_trans)

lemma returns_progress: "progress m n s r \<Longrightarrow> returns s r"
  by (auto simp: progress_def returns_def)

lemma update_info_table_returns:
  "0 < unat (info_table_size n) \<Longrightarrow> returns s (nmbm_update_info_table drv crc n s)"
  using update_returns [of n drv crc s] by (auto simp: returns_def)

lemma map_block_returns:
  assumes "0 < unat (info_table_size n)"
  shows "\<exists>r n1 s1. nmbm_map_block drv crc lb n s = Some (r, n1, s1) \<and> io_upd s s1 \<and>
     info_table_size n1 = info_table_size n"
proof (cases "mapping_blocks_ba n = mapping_blocks_top_ba n")
  case False
  obtain ok n1 s1 where u: "nmbm_update_info_table drv crc n s = Some (ok, n1, s1)" "upd n n1" "io_upd s s1"
    using update_returns [OF assms] by blast
  show ?thesis
    using False u(1,3) upd_fields(4) [OF u(2)]
    by (cases "nmbm_block_walk n False (mapping_blocks_top_ba n) 0 (mapping_blocks_ba n)")
      (auto simp: nmbm_map_block_def)
qed (auto simp: nmbm_map_block_def)

lemma create_map_loop_returns:
  assumes "0 < unat (info_table_size n)"
  shows "\<exists>n1 s1. create_map_loop drv crc lbs n s = Some (n1, s1) \<and> io_upd s s1 \<and> info_table_size n1 = info_table_size n"
  using assms
proof (induction lbs arbitrary: n s)
  case (Cons lb lbs)
  obtain r n1 s1 where m: "nmbm_map_block drv crc (of_nat lb) n s = Some (r, n1, s1)" "io_upd s s1"
    "info_table_size n1 = info_table_size n"
    using map_block_returns [OF Cons.prems] by blast
  let ?n2 = "n1\<lparr>data_block_count := data_block_count n1 + 1\<rparr>"
  obtain n3 s3 where "create_map_loop drv crc lbs ?n2 s1 = Some (n3, s3)" "io_upd s1 s3" "info_table_size n3 = info_table_size n"
    using Cons.IH [of ?n2 s1] Cons.prems m(3) by auto
  with m show ?case by (cases r) (auto intro: io_upd_trans)
qed simp

lemma create_info_table_returns:
  assumes z: "0 < unat (info_table_size n)"
  shows "returns s (nmbm_create_info_table drv crc n s)"
proof (cases "nmbm_block_walk n False (signature_ba n) 1 (mgmt_start_ba n)")
  case None
  then show ?thesis by (simp add: nmbm_create_info_table_def returnsI)
next
  case (Some tb)
  obtain ch n1 where g: "nmbm_generate_info_table_cache crc (n\<lparr>mapping_blocks_top_ba := tb\<rparr>) = (ch, n1)" by fastforce
  have z1: "0 < unat (info_table_size n1)" using upd_size [OF generate_cache_upd(1) [OF g]] z by simp
  obtain ok n2 s2 where rb: "nmbm_rebuild_info_table drv n1 s = (ok, n2, s2)" by (metis prod_cases3)
  have r: "upd n1 n2" "io_upd s s2" using rebuild_progress [OF z1 subset_refl, of s drv] rb by (auto simp: progress_def)
  obtain n3 s3 where cm: "create_map_loop drv crc [unat (data_block_count n2)..<unat (mgmt_start_ba n2)] n2 s2 = Some (n3, s3)"
    "io_upd s2 s3" "info_table_size n3 = info_table_size n2"
    using create_map_loop_returns [OF upd_size [OF r(1) z1]] by blast
  have "returns s3 (nmbm_update_info_table drv crc n3 s3)"
    using upd_size [OF r(1) z1] cm(3) by (intro update_info_table_returns) simp
  then have "returns s (nmbm_update_info_table drv crc n3 s3)"
    using io_upd_trans [OF r(2) cm(2)] by (rule returns_step)
  then show ?thesis
    using Some g rb cm(1) r(2) by (auto simp: nmbm_create_info_table_def returnsI)
qed

lemma scan_size: "nmbm_scan_badblocks drv n s = (n', t) \<Longrightarrow> info_table_size n' = info_table_size n"
proof -
  have "scan_badblocks_loop drv bas n s = (n', t) \<Longrightarrow> info_table_size n' = info_table_size n" for bas n s n' t
    by (induction bas arbitrary: n s) (auto split: prod.splits if_splits)
  then show "nmbm_scan_badblocks drv n s = (n', t) \<Longrightarrow> info_table_size n' = info_table_size n"
    by (simp add: nmbm_scan_badblocks_def)
qed

lemma create_new_returns:
  assumes z: "0 < unat (info_table_size n)"
  shows "returns s (nmbm_create_new drv crc n s)"
proof -
  let ?n0 = "n\<lparr>mgmt_start_ba := mgmt_start n\<rparr>"
  obtain n1 s1 where sc: "nmbm_scan_badblocks drv ?n0 s = (n1, s1)" by fastforce
  have i1: "io_upd s s1" "info_table_size n1 = info_table_size n"
    using scan_badblocks_loop_frame [OF sc [unfolded nmbm_scan_badblocks_def]] scan_size [OF sc] by simp_all
  define n3 where "n3 = (nmbm_build_mapping_table n1)\<lparr>signature := make_signature crc (nmbm_build_mapping_table n1) s1\<rparr>"
  have z3: "info_table_size n3 = info_table_size n"
    by (simp add: n3_def nmbm_build_mapping_table_def i1 split: prod.split)
  obtain r n4 s4 where w: "nmbm_write_signature drv (mgmt_start_ba n3) (signature n3) n3 s1 = (r, n4, s4)" by (metis prod_cases3)
  note f = write_signature_loop_decay [OF w [unfolded nmbm_write_signature_def]]
  have io: "io_upd s s4" using f i1(1) io_upd_trans by blast
  have z4: "0 < unat (info_table_size n4)" using decay_fields(6) [of n3 n4] f z z3 by simp
  have eq: "nmbm_create_new drv crc n s = (case r of None \<Rightarrow> Some (False, n4, s4)
      | Some ba \<Rightarrow> nmbm_create_info_table drv crc (n4\<lparr>signature_ba := ba\<rparr>) s4)"
    by (simp only: nmbm_create_new_def Let_def sc prod.case n3_def [symmetric] w)
  show ?thesis
    unfolding eq using z4 io returns_step [OF create_info_table_returns io]
    by (cases r) (simp_all add: returnsI)
qed

section \<open>Loading returns\<close>

text \<open>What loading keeps: the size of the tables and everything of the descriptor but the chip and the
  page buffer.\<close>

definition loads :: "nmbm_instance \<Rightarrow> 'd bmt_desc \<Rightarrow> nmbm_instance \<Rightarrow> 'd bmt_desc \<Rightarrow> bool" where
  "loads n s n' t \<longleftrightarrow> info_table_size n' = info_table_size n \<and> io_upd s t"

lemma loads_trans: "loads n s n1 s1 \<Longrightarrow> loads n1 s1 n2 s2 \<Longrightarrow> loads n s n2 s2"
  by (auto simp: loads_def intro: io_upd_trans)

lemma Suc_word_pos: "(a :: 'a::len word) < b \<Longrightarrow> 0 < a + 1"
  by (simp add: word_less_nat_alt unat_Suc_less)

lemma load_table_loop_frame:
  "load_table_loop drv ba limit start chk pos remain n s = (r, n', t) \<Longrightarrow>
   loads n s n' t \<and> (\<forall>a e. r = Some (a, e, 0) \<longrightarrow> 0 < remain \<or> 0 < ba \<longrightarrow> 0 < e)"
proof (induction drv ba limit start chk pos remain n s rule: load_table_loop.induct)
  case (1 drv ba limit start chk pos remain n s)
  show ?case
  proof (cases "remain \<noteq> 0 \<and> ba < limit")
    case False
    then show ?thesis using 1(5) by (auto simp: load_table_loop.simps [of drv ba] loads_def)
  next
    case True
    obtain bad s1 where c: "nmbm_check_bad_phys_block drv ba s = (bad, s1)" by fastforce
    define k where "k = min remain (unat (blk_size s1))"
    obtain ret b s2 where rd: "nmbn_read_data drv (ba2addr s1 ba) k (drop pos (info_table_cache n)) s1 = (ret, b, s2)"
      by (metis prod_cases3)
    define n1 where "n1 = n\<lparr>info_table_cache := take pos (info_table_cache n) @ b\<rparr>"
    have s1: "io_upd s s1" using check_bad_frame [OF c] .
    then have s2: "io_upd s s2" using io_upd_trans read_data_loop_frame [OF rd [unfolded nmbn_read_data_def]] by blast
    have l: "loads n s n s" "loads n s (set_state n ba BLOCK_ST_BAD) s1" "loads n s (set_state n1 ba BLOCK_ST_BAD) s2"
      "loads n s n1 s2"
      using s1 s2 by (simp_all add: loads_def n1_def)
    have p: "0 < ba + 1" using True Suc_word_pos by blast
    have eq: "(r, n', t) = (if nmbm_get_block_state n ba \<noteq> BLOCK_ST_GOOD
          then load_table_loop drv (ba + 1) limit start chk pos remain n s
        else if bad then load_table_loop drv (ba + 1) limit start chk pos remain (set_state n ba BLOCK_ST_BAD) s1
        else if ret < 0 then load_table_loop drv (ba + 1) limit start chk pos remain (set_state n1 ba BLOCK_ST_BAD) s2
        else if ret > 0 then (None, n1, s2)
        else if chk \<and> \<not> nmbm_check_info_table_header n1 b then (None, n1, s2)
        else load_table_loop drv (ba + 1) limit (if chk then ba else start) False (pos + k) (remain - k) n1 s2)"
      using 1(5) True
      by (simp only: load_table_loop.simps [of drv ba] Let_def c k_def [symmetric] rd n1_def [symmetric] prod.case if_True not_False_eq_True simp_thms)
    note IH = 1(1) [OF True] 1(2) [OF True _ c [symmetric] refl]
      1(3) [OF True _ c [symmetric] refl _ k_def rd [symmetric] refl refl n1_def]
      1(4) [OF True _ c [symmetric] refl _ k_def rd [symmetric] refl refl n1_def]
    show ?thesis
      using eq IH l p loads_trans by (auto split: if_splits)
  qed
qed

lemma try_load_frame:
  assumes "nmbm_try_load_info_table drv crc ba tld n s = (r, n', t)" and z: "0 < unat (info_table_size n)"
  shows "loads n s n' t \<and> (\<forall>e w tb. r = Some (e, w, tb) \<longrightarrow> 0 < e)"
proof -
  obtain x n1 s1 where l: "load_table_loop drv ba (ba + size2blk s (unat (info_table_size n))) 0 True 0
      (unat (info_table_size n)) n s = (x, n1, s1)" by (metis prod_cases3)
  note f = load_table_loop_frame [OF l]
  show ?thesis
    using assms(1) f z l
    by (auto simp: nmbm_try_load_info_table_def Let_def loads_def split: option.splits if_splits prod.splits)
qed

lemma search_table_frame:
  "search_info_table_loop drv crc ba limit tld n s = (r, n', t) \<Longrightarrow> 0 < unat (info_table_size n) \<Longrightarrow>
   loads n s n' t \<and> (\<forall>a e w tb. r = Some (a, e, w, tb) \<longrightarrow> 0 < e)"
proof (induction drv crc ba limit tld n s rule: search_info_table_loop.induct)
  case (1 drv crc ba limit tld n s)
  obtain x n1 s1 where l: "nmbm_try_load_info_table drv crc ba tld n s = (x, n1, s1)" by (metis prod_cases3)
  note f = try_load_frame [OF l 1(3)]
  have z: "0 < unat (info_table_size n1)" using f 1(3) by (simp add: loads_def)
  show ?case
    using 1(1) [OF _ l [symmetric] refl refl _ _ z] 1(2) f l loads_trans [of n s n1 s1]
    by (auto simp: search_info_table_loop.simps [of drv crc ba] loads_def split: if_splits option.splits)
qed

lemma rescue_single_returns:
  assumes z: "0 < unat (info_table_size n)" and m: "0 < mapping_blocks_ba n"
  shows "returns s (nmbm_rescue_single_info_table drv n s)"
proof -
  obtain r1 n1 s1 where w: "nmbm_write_info_table drv (mgmt_start_ba n) (main_table_ba n) n s = (r1, n1, s1)"
    by (metis prod_cases3)
  note f = write_info_table_facts [OF w z]
  have z1: "0 < unat (info_table_size n1)" "0 < mapping_blocks_ba n1" using z m decay_fields [OF f(1)] by simp_all
  have e: "returns s1 (Some (True, nmbm_erase_range drv a b k s1))" for a b k
    using erase_range_decay [of drv a b k s1] by (cases "nmbm_erase_range drv a b k s1") (auto intro: returnsI)
  let ?wb = "nmbm_try_reserve_blocks n1 (mapping_blocks_ba n1) (info_table_spare_blocks n1) 0 (reserve_limit n1 s1)"
  have d: "returns s1 (case ?wb of None \<Rightarrow> Some (False, n1, s1) | Some write_ba \<Rightarrow>
      do {
        (r2, n2, s2) \<leftarrow> write_down_loop drv write_ba (mapping_blocks_ba n1) (mapping_blocks_top_ba n1) n1 s1;
        case r2 of
          None \<Rightarrow> Some (False, n2, s2)
        | Some (start2, end2) \<Rightarrow>
            let (n3, s3) = nmbm_erase_range drv (mapping_blocks_ba n2) start2 n2 s2
            in Some (True, nmbm_mark_tables_clean (n3\<lparr>backup_table_ba := start2, mapping_blocks_ba := end2\<rparr>), s3)
      })" (is "returns s1 ?X")
  proof (cases ?wb)
    case (Some write_ba)
    obtain r2 n2 s2 where "write_down_loop drv write_ba (mapping_blocks_ba n1) (mapping_blocks_top_ba n1) n1 s1 =
        Some (r2, n2, s2)" "io_upd s1 s2"
      using write_down_loop_returns [OF z1(2,1)] by blast
    then show ?thesis
      using Some erase_range_decay [of drv "mapping_blocks_ba n2" _ n2 s2]
      by (auto simp: returns_def Let_def split: option.split prod.split intro: io_upd_trans)
  qed (simp add: returnsI)
  have eq: "nmbm_rescue_single_info_table drv n s = (case r1 of
        Some (start1, end1) \<Rightarrow>
          let n2 = nmbm_mark_tables_clean (n1\<lparr>backup_table_ba := main_table_ba n1, main_table_ba := start1\<rparr>)
          in Some (True, nmbm_erase_range drv end1 (backup_table_ba n2) n2 s1)
      | None \<Rightarrow> ?X)"
    unfolding nmbm_rescue_single_info_table_def w by (simp add: Let_def split: option.split prod.split)
  show ?thesis
    unfolding eq using returns_step [OF e f(2)] returns_step [OF d f(2)]
    by (cases r1) (auto simp: Let_def)
qed

lemma update_single_returns:
  assumes z: "0 < unat (info_table_size n)" and m: "0 < mapping_blocks_ba n"
  shows "returns s (nmbm_update_single_info_table drv um n s)"
proof -
  obtain r n1 s1 where w: "nmbm_write_info_table drv (if um then main_table_ba n else backup_table_ba n)
      (if um then backup_table_ba n else mapping_blocks_top_ba n) n s = (r, n1, s1)"
    by (metis prod_cases3)
  note f = write_info_table_facts [OF w z]
  have "returns s1 (nmbm_rescue_single_info_table drv (n1\<lparr>main_table_ba := backup_table_ba n1, backup_table_ba := 0\<rparr>) s1)"
    using z m decay_fields [OF f(1)] by (intro rescue_single_returns) simp_all
  from returns_step [OF this f(2)] show ?thesis
    using w f(2) by (cases r) (auto simp: nmbm_update_single_info_table_def intro: returnsI)
qed

lemma load_finish_returns:
  assumes z: "0 < unat (info_table_size n)" and m: "0 < mapping_blocks_ba n"
  shows "\<exists>n1 s1. load_finish drv crc a b n s = Some (True, n1, s1) \<and> io_upd s s1"
proof -
  have "returns s (if backup_table_ba n = 0 then nmbm_rescue_single_info_table drv n s
      else if a \<noteq> b then nmbm_update_single_info_table drv (a < b)
             (n\<lparr>block_state_changed := 1, block_mapping_changed := 1\<rparr>) s
      else Some (True, n, s))" (is "returns s ?X")
    using rescue_single_returns [OF z m, of s drv] update_single_returns
      [of "n\<lparr>block_state_changed := 1, block_mapping_changed := 1\<rparr>" s drv "a < b"] z m
    by (simp add: returnsI)
  then obtain ok n1 s1 where "?X = Some (ok, n1, s1)" "io_upd s s1" by (auto simp: returns_def)
  then show ?thesis unfolding load_finish_def by simp
qed

lemma load_info_table_returns:
  assumes z: "0 < unat (info_table_size n)"
  shows "\<exists>ok n1 s1. nmbm_load_info_table drv crc ba limit n s = Some (ok, n1, s1) \<and> io_upd s s1 \<and>
     (\<not> ok \<longrightarrow> info_table_size n1 = info_table_size n)"
proof -
  define n0 where "n0 = n\<lparr>main_table_ba := 0, backup_table_ba := 0,
     info_table := (info_table n)\<lparr>ift_write_count := 0\<rparr>, mapping_blocks_top_ba := signature_ba n - 1,
     data_block_count := sig_mgmt_start_pb (signature n)\<rparr>"
  have z0: "info_table_size n0 = info_table_size n" by (simp add: n0_def)
  obtain r1 n1 s1 where f1: "nmbm_search_info_table drv crc ba limit False n0 s = (r1, n1, s1)" by (metis prod_cases3)
  have l1: "loads n0 s n1 s1" "\<And>a e w tb. r1 = Some (a, e, w, tb) \<Longrightarrow> 0 < e"
    using search_table_frame [OF f1 [unfolded nmbm_search_info_table_def]] z z0 by simp_all
  note z1 = l1(1) [unfolded loads_def z0]
  show ?thesis
  proof (cases r1)
    case None
    then have "nmbm_load_info_table drv crc ba limit n s = Some (False, n1, s1)"
      using f1 by (simp add: nmbm_load_info_table_def Let_def n0_def [symmetric])
    then show ?thesis using z1 by blast
  next
    case (Some q)
    obtain main_ba main_end main_wc main_top where q: "q = (main_ba, main_end, main_wc, main_top)" by (metis prod_cases4)
    obtain r2 n2 s2 where f2: "nmbm_search_info_table drv crc main_end limit True (n1\<lparr>main_table_ba := main_ba\<rparr>) s1 = (r2, n2, s2)"
      by (metis prod_cases3)
    have l2: "loads (n1\<lparr>main_table_ba := main_ba\<rparr>) s1 n2 s2" "\<And>a e w tb. r2 = Some (a, e, w, tb) \<Longrightarrow> 0 < e"
      using search_table_frame [OF f2 [unfolded nmbm_search_info_table_def]] z z1 by simp_all
    obtain table_end backup_wc n3 where t3: "(case r2 of
        None \<Rightarrow> (main_end, 0, n2\<lparr>mapping_blocks_top_ba := main_top\<rparr>)
      | Some (b_ba, b_end, b_wc, b_top) \<Rightarrow> (b_end, b_wc, n2\<lparr>backup_table_ba := b_ba, mapping_blocks_top_ba :=
           (if b_ba = 0 then main_top else if main_wc \<ge> b_wc then main_top else b_top)\<rparr>)) = (table_end, backup_wc, n3)"
      by (rule prod_cases3)
    have e3: "0 < table_end" "info_table_size n3 = info_table_size n"
    proof -
      have e1: "0 < main_end" using l1(2) Some q by blast
      have i2: "info_table_size n2 = info_table_size n" using l2(1) z1 by (simp add: loads_def)
      show "0 < table_end" "info_table_size n3 = info_table_size n"
        using t3 e1 i2 l2(2) by (cases r2; force)+
    qed
    define n4 where "n4 = n3\<lparr>mapping_blocks_ba := table_end, data_block_count :=
       (case last_mapped (block_mapping n3) (unat (sig_mgmt_start_pb (signature n3))) of
          None \<Rightarrow> data_block_count n3 | Some i \<Rightarrow> of_nat i)\<rparr>"
    obtain ch n5 where g: "nmbm_generate_info_table_cache crc n4 = (ch, n5)" by fastforce
    have "info_table_size n5 = info_table_size n" "mapping_blocks_ba n5 = table_end"
      using g e3 by (auto simp: nmbm_generate_info_table_cache_def Let_def n4_def)
    then have "0 < unat (info_table_size n5)" "0 < mapping_blocks_ba n5" using z e3(1) by simp_all
    then obtain n6 s6 where fin: "load_finish drv crc main_wc backup_wc n5 s2 = Some (True, n6, s6)" "io_upd s2 s6"
      using load_finish_returns by blast
    have "nmbm_load_info_table drv crc ba limit n s = load_finish drv crc main_wc backup_wc n5 s2"
      unfolding nmbm_load_info_table_def Let_def n0_def [symmetric] f1 prod.case Some q option.case f2 t3
        n4_def [symmetric] g ..
    then have "nmbm_load_info_table drv crc ba limit n s = Some (True, n6, s6)" by (simp only: fin(1))
    moreover have "io_upd s s6" using z1 l2(1) fin(2) unfolding loads_def by (meson io_upd_trans)
    ultimately show ?thesis by blast
  qed
qed

lemma load_existing_returns:
  assumes "0 < unat (info_table_size n)"
  shows "returns s (nmbm_load_existing drv crc n s)"
proof -
  let ?n0 = "n\<lparr>mgmt_start_ba := sig_mgmt_start_pb (signature n)\<rparr>"
  obtain ok n1 s1 where l: "nmbm_load_info_table drv crc (mgmt_start_ba ?n0) (signature_ba ?n0) ?n0 s = Some (ok, n1, s1)"
    "io_upd s s1" "\<not> ok \<longrightarrow> info_table_size n1 = info_table_size n"
    using load_info_table_returns [of ?n0 drv crc "mgmt_start_ba ?n0" "signature_ba ?n0" s] assms by auto
  obtain n2 s2 where sc: "nmbm_scan_badblocks drv n1 s1 = (n2, s2)" by fastforce
  have sc2: "io_upd s1 s2" "info_table_size n2 = info_table_size n1"
    using scan_badblocks_loop_frame [OF sc [unfolded nmbm_scan_badblocks_def]] scan_size [OF sc] by simp_all
  have "returns s2 (nmbm_create_info_table drv crc (nmbm_build_mapping_table n2) s2)" if "\<not> ok"
    using that l(3) assms sc2(2)
    by (intro create_info_table_returns) (simp add: nmbm_build_mapping_table_def split: prod.split)
  from returns_step [OF this io_upd_trans [OF l(2) sc2(1)]] show ?thesis
    using l(1,2) sc by (auto simp: nmbm_load_existing_def Let_def intro: returnsI)
qed

section \<open>The search for a signature\<close>

lemma find_sig_pages_frame: "find_sig_pages drv crc addr offs buf s = (r, b, t) \<Longrightarrow> io_upd s t"
proof (induction offs arbitrary: buf s)
  case (Cons off offs)
  obtain ret b1 s1 where rd: "nmbn_read_data drv (addr + off) 48 buf s = (ret, b1, s1)" by (metis prod_cases3)
  have "io_upd s s1" using read_data_loop_frame [OF rd [unfolded nmbn_read_data_def]] .
  then show ?case
    using Cons.prems Cons.IH [of b1 s1] rd by (auto split: if_splits intro: io_upd_trans)
qed simp

lemma find_signature_loop_returns:
  assumes "0 < limit"
  shows "\<exists>r t. find_signature_loop drv crc ba limit buf s = Some (r, t) \<and> io_upd s t"
proof (induction "unat ba" arbitrary: ba buf s rule: less_induct)
  case less
  show ?case
  proof (cases "ba \<ge> limit")
    case False
    then show ?thesis by (subst find_signature_loop.simps) simp
  next
    case True
    obtain bad s1 where c: "nmbm_check_bad_phys_block drv (ba - 1) s = (bad, s1)" by fastforce
    obtain r buf1 s2 where p: "find_sig_pages drv crc (ba2addr s1 (ba - 1)) (page_offs s1) buf s1 = (r, buf1, s2)"
      by (metis prod_cases3)
    have i1: "io_upd s s1" using check_bad_frame [OF c] .
    then have i2: "io_upd s s2" using io_upd_trans find_sig_pages_frame [OF p] by blast
    have "0 < ba" using assms True by (rule order.strict_trans2)
    then have dec: "unat (ba - 1) < unat ba" using unat_pred_greater [of 0 ba] by (simp add: word_less_nat_alt)
    note IH = less.hyps [OF dec]
    show ?thesis
      using True c p i1 i2 IH [of buf s1] IH [of buf1 s2]
      by (subst find_signature_loop.simps) (auto simp: Let_def split: option.split intro: io_upd_trans)
  qed
qed

lemma signature_limit_pos:
  assumes "16 \<le> total_blks s" and "max_ratio n \<le> 15"
  shows "0 < signature_limit n (ucast (total_blks s))"
proof -
  let ?b = "ucast (total_blks s) :: u32"
  have b: "16 \<le> unat ?b" "unat ?b < 65536"
    using assms(1) unat_bound [of "total_blks s"] by (simp_all add: word_le_nat_alt)
  have r: "unat (16 - max_ratio n) = 16 - unat (max_ratio n)"
    using assms(2) by (subst unat_sub) (simp_all add: word_le_nat_alt)
  have "unat ?b div 16 * (16 - unat (max_ratio n)) \<le> unat ?b div 16 * 16" by (rule mult_le_mono2) simp
  also have "\<dots> \<le> unat ?b" by simp
  finally have le: "unat ?b div 16 * (16 - unat (max_ratio n)) \<le> unat ?b" .
  have d: "unat (?b div 16) = unat ?b div 16" by (simp add: unat_div)
  have "unat (?b div 16 * (16 - max_ratio n)) = unat (?b div 16) * unat (16 - max_ratio n)"
    by (rule unat_mult_lem [THEN iffD1]) (use le b(2) in \<open>simp only: d r\<close>, simp)
  then have l: "unat (?b div 16 * (16 - max_ratio n)) = unat ?b div 16 * (16 - unat (max_ratio n))" by (simp only: d r)
  have pos: "0 < unat ?b div 16 * (16 - unat (max_ratio n))" using b(1) assms(2) by (simp add: word_le_nat_alt)
  let ?l = "?b div 16 * (16 - max_ratio n)"
  have "0 < ?l" using pos by (simp only: word_less_nat_alt l unat_0)
  moreover have "0 < ?b - max_reserved_blocks n" if "?b - ?l > max_reserved_blocks n"
  proof -
    have "unat (?b - ?l) = unat ?b - unat ?l" using le l by (intro unat_sub) (simp only: word_le_nat_alt)
    then have "unat (max_reserved_blocks n) < unat ?b" using that by (simp only: word_less_nat_alt)
    then show ?thesis by (simp only: word_less_nat_alt unat_0) (simp add: unat_sub word_le_nat_alt)
  qed
  ultimately show ?thesis by (simp add: signature_limit_def Let_def)
qed

lemma nmbm_attach_total:
  assumes lim: "0 < signature_limit (nmbm_init_structure n s) (ucast (total_blks s))"
    and z: "0 < unat (info_table_size (nmbm_init_structure n s))"
  shows "returns s (nmbm_attach drv crc n s)"
proof -
  define n0 where "n0 = nmbm_init_structure n s"
  obtain r s1 where f: "nmbm_find_signature drv crc n0 s = Some (r, s1)" and io: "io_upd s s1"
    using find_signature_loop_returns [OF lim] by (metis n0_def nmbm_find_signature_def)
  have new: "returns s (nmbm_create_new drv crc n0 s1)"
    using returns_step [OF create_new_returns io] z by (simp add: n0_def)
  have ex: "returns s (nmbm_load_existing drv crc (n0\<lparr>signature := g, signature_ba := ba\<rparr>) s1)" for g ba
    using returns_step [OF load_existing_returns io] z by (simp add: n0_def)
  show ?thesis
  proof (cases r)
    case None
    then show ?thesis
      using f io new by (auto simp: nmbm_attach_def Let_def n0_def [symmetric] returns_def)
  next
    case (Some q)
    obtain g ba where q: "q = (g, ba)" by fastforce
    obtain ok n2 s2 where "nmbm_load_existing drv crc (n0\<lparr>signature := g, signature_ba := ba\<rparr>) s1 = Some (ok, n2, s2)" "io_upd s s2"
      using ex [where g = g and ba = ba] unfolding returns_def by blast
    then show ?thesis
      using f io Some q by (simp add: nmbm_attach_def Let_def n0_def [symmetric] returns_def)
  qed
qed

lemma init_nmbm_total:
  assumes "unat (pg_size s) = 2 ^ k" and "k \<le> 24" and "16 \<le> total_blks s"
    and "case dt_bmt_max_ratio np of None \<Rightarrow> True | Some v \<Rightarrow> v \<le> 15" and "ni s = None"
  shows "\<exists>ret t d b sz. mtk_bmt_init_nmbm drv crc np s = Some (ret, t) \<and>
     t = s\<lparr>nand := d, data_buf := b, ni := ni t, mtd := (mtd s)\<lparr>mtd_size := sz\<rparr>\<rparr> \<and>
     (ret = 0 \<longleftrightarrow> ni t \<noteq> None)"
proof -
  let ?n = "nmbm_new_instance np"
  have "max_ratio (nmbm_init_structure ?n s) \<le> 15"
    using assms(4) by (auto simp: nmbm_init_structure_def nmbm_new_instance_def Let_def split: option.splits)
  note lim = signature_limit_pos [OF assms(3) this]
  have "0 < unat (info_table_size (nmbm_init_structure ?n s))"
    using init_structure_layout [OF assms(1,2) refl, of ?n 0] unfolding layout_ok_def by linarith
  then have "returns s (nmbm_attach drv crc ?n s)" by (rule nmbm_attach_total [OF lim])
  then obtain ret n1 s1 where a: "nmbm_attach drv crc ?n s = Some (ret, n1, s1)" and "io_upd s s1"
    unfolding returns_def by blast
  then obtain d b where s1: "s1 = s\<lparr>nand := d, data_buf := b\<rparr>" by (auto elim: io_updE)
  show ?thesis
  proof (cases "alloc_table_ok np")
    case False
    then have "mtk_bmt_init_nmbm drv crc np s = Some (- ENOMEM, s)" by (simp add: mtk_bmt_init_nmbm_def)
    then show ?thesis
      using assms(5) by (intro exI [of _ "- ENOMEM"] exI [of _ s] exI [of _ "nand s"] exI [of _ "data_buf s"]
        exI [of _ "mtd_size (mtd s)"]) simp
  next
    case True
    let ?z = "ucast (push_bit (unat (blk_shift s)) (data_block_count n1)) :: u64"
    let ?t = "if ret = 0 then s1\<lparr>ni := Some n1, mtd := (mtd s1)\<lparr>mtd_size := ?z\<rparr>\<rparr> else s1\<lparr>ni := None\<rparr>"
    have "mtk_bmt_init_nmbm drv crc np s = Some (ret, ?t)"
      using True a s1 by (auto simp: mtk_bmt_init_nmbm_def)
    then show ?thesis
      using s1 by (intro exI [of _ ret] exI [of _ ?t] exI [of _ d] exI [of _ b]
        exI [of _ "if ret = 0 then ?z else mtd_size (mtd s)"]) simp
  qed
qed

section \<open>Properties\<close>



lemma find_signature_loop_endless:
  assumes "find_signature_loop drv crc ba limit buf s = Some y"
  shows "limit = 0 \<longrightarrow> \<not> reports_bad drv (\<lambda>_. True)"
  using assms(1)
proof (rule find_signature_loop.raw_induct [where P = "\<lambda>drv crc ba limit buf s y. limit = 0 \<longrightarrow> \<not> reports_bad drv (\<lambda>_. True)", rotated])
  fix loop :: "'a nand_drv \<Rightarrow> crc_fn \<Rightarrow> u32 \<Rightarrow> u32 \<Rightarrow> byte list \<Rightarrow> 'a bmt_desc \<Rightarrow> ((nmbm_signature \<times> u32) option \<times> 'a bmt_desc) option"
    and drv crc ba limit buf s y
  assume IH: "\<And>drv crc ba limit buf s y. loop drv crc ba limit buf s = Some y \<Longrightarrow> limit = 0 \<longrightarrow> \<not> reports_bad drv (\<lambda>_. True)"
    and step: "(if ba \<ge> limit then let b = ba - 1; (bad, s1) = nmbm_check_bad_phys_block drv b s
        in if bad then loop drv crc b limit buf s1
           else let (r, buf1, s2) = find_sig_pages drv crc (ba2addr s1 b) (page_offs s1) buf s1
                in case r of Some g \<Rightarrow> Some (Some (g, b), s2) | None \<Rightarrow> loop drv crc b limit buf1 s2
      else Some (None, s)) = Some y"
  obtain bad s1 where c: "nmbm_check_bad_phys_block drv (ba - 1) s = (bad, s1)" by fastforce
  show "limit = 0 \<longrightarrow> \<not> reports_bad drv (\<lambda>_. True)"
  proof (intro impI notI)
    assume z: "limit = 0" and rep: "reports_bad drv (\<lambda>_. True)"
    then have "bad" using check_bad_reports [OF rep, of "ba - 1" s] c by simp
    then have "loop drv crc (ba - 1) limit buf s1 = Some y" using step z c by simp
    from IH [OF this] z rep show False by simp
  qed
qed

text \<open>the search for a signature of the nmbm backend does not end on a small chip: with fewer than 16
  blocks the lower bound of the search is block 0, the unsigned block number wraps below it, and
  when the driver reports every block bad the start of the backend never returns.\<close>

theorem nmbm_small_chip_diverges:
  assumes "total_blks s < 16" and "dt_bmt_max_reserved_blocks np = None" and "alloc_table_ok np"
    and "reports_bad drv (\<lambda>_. True)"
  shows "mtk_bmt_init_nmbm drv crc np s = None"
proof -
  let ?n = "nmbm_init_structure (nmbm_new_instance np) s"
  have b: "unat (total_blks s) < 16" using assms(1) by (simp add: word_less_nat_alt)
  have "(ucast (total_blks s) :: u32) div 16 = 0" using b by (intro word_unat_eq_iff [THEN iffD2]) (simp add: unat_div)
  moreover have "\<not> (256 :: u32) < ucast (total_blks s)" using b by (simp add: word_less_nat_alt)
  ultimately have "signature_limit ?n (ucast (total_blks s)) = 0"
    using assms(2) by (simp add: signature_limit_def Let_def nmbm_init_structure_def nmbm_new_instance_def)
  then have "nmbm_find_signature drv crc ?n s = None"
    using find_signature_loop_endless [of drv crc _ 0 _ s] assms(4)
    unfolding nmbm_find_signature_def by (metis not_Some_eq)
  then show ?thesis using assms(3) by (simp add: mtk_bmt_init_nmbm_def nmbm_attach_def Let_def)
qed

theorem nmbm_small_chip_diverges_witness:
  "mtk_bmt_init_nmbm ((ram_drv 4 [])\<lparr>drv_block_isbad := \<lambda>a d. (1, d)\<rparr>) sum_crc ex_env ex_desc = None"
  by (rule nmbm_small_chip_diverges) (simp_all add: ex_desc_def ex_env_def reports_bad_def)

end
