(* ===== verification/Bmt_Attach.thy ===== *)
theory Bmt_Attach
  imports Bmt_V2 Nmbm_Start
begin

text \<open>
  Attaching the stack to a device and detaching it (\<open>mtk_bmt.c\<close>): the choice of the backend from the
  device tree, the exchange of the device's function pointers, and the error path.

  \<open>bmtd.ops\<close> points to one of three constant tables; \<open>bmt_backend\<close> names which. The structure
  \<open>struct mtd_info\<close> of the caller is passed and returned; while the stack is attached it is the one
  \<open>bmtd.mtd\<close> points to, the field \<open>mtd\<close> of the descriptor.
\<close>

section \<open>Function pointers\<close>

definition bmt_fns :: mtd_fns where
  "bmt_fns = \<lparr>fn_read_oob = Bmt_fn, fn_write_oob = Bmt_fn, fn_erase = Bmt_fn,
     fn_block_isbad = Bmt_fn, fn_block_markbad = Bmt_fn\<rparr>"

definition null_fns :: mtd_fns where
  "null_fns = \<lparr>fn_read_oob = Null_fn, fn_write_oob = Null_fn, fn_erase = Null_fn,
     fn_block_isbad = Null_fn, fn_block_markbad = Null_fn\<rparr>"

definition mtk_bmt_replace_ops :: "'d bmt_desc \<Rightarrow> 'd bmt_desc" where
  "mtk_bmt_replace_ops s = s\<lparr>saved_fns := mtd_ops (mtd s), mtd := (mtd s)\<lparr>mtd_ops := bmt_fns\<rparr>\<rparr>"

text \<open>\<open>bmtd\<close> after \<open>memset(&bmtd, 0, sizeof(bmtd))\<close>; the structure behind the null pointer \<open>bmtd.mtd\<close> is
  not meaningful.\<close>

definition null_mtd :: mtd_info where
  "null_mtd = \<lparr>erasesize = 0, erasesize_mask = 0, writesize = 0, oobsize = 0, oobavail = 0,
     mtd_size = 0, bitflip_threshold = 0, ecc_strength = 0, mtd_ops = null_fns\<rparr>"

definition bmtd_zero :: "'d \<Rightarrow> 'd bmt_desc" where
  "bmtd_zero d = \<lparr>nand = d, attached = False, mtd = null_mtd, saved_fns = null_fns,
     bbt_buf = [], data_buf = [], bbt = None, ni = None, debugfs_dir = False, table_size = 0,
     pg_size = 0, blk_size = 0, pg_shift = 0, blk_shift = 0, pool_lba = 0, pool_pba = 0, bb_max = 0,
     total_blks = 0, bmt_blk_idx = 0, bmt_pgs = 0, remap_range = None, oob_offset = 0\<rparr>"

section \<open>Debug files\<close>

text \<open>The four files are created below the directory; only the directory is kept in \<open>bmtd\<close>.\<close>

definition mtk_bmt_add_debugfs :: "bmt_env \<Rightarrow> 'd bmt_desc \<Rightarrow> 'd bmt_desc" where
  "mtk_bmt_add_debugfs np s = s\<lparr>debugfs_dir := debugfs_ok np\<rparr>"

section \<open>Detach\<close>

text \<open>\<open>same\<close> is the comparison \<open>bmtd.mtd == mtd\<close>; then the caller's structure is \<open>mtd s\<close>, else it is the
  argument \<open>m\<close>.\<close>

definition mtk_bmt_detach :: "bool \<Rightarrow> mtd_info \<Rightarrow> 'd bmt_desc \<Rightarrow> mtd_info \<times> 'd bmt_desc" where
  "mtk_bmt_detach same m s =
     (if \<not> same then (m, s)
      else ((mtd s)\<lparr>mtd_ops := saved_fns s, mtd_size := nand_bytes s\<rparr>, bmtd_zero (nand s)))"

section \<open>Attach\<close>

datatype bmt_backend = Backend_v2 | Backend_nmbm | Backend_bbt

definition bmt_choose :: "bmt_env \<Rightarrow> bmt_backend option" where
  "bmt_choose np =
     (if \<not> dt_node np then None
      else if dt_bmt_v2 np then Some Backend_v2
      else if dt_nmbm np then Some Backend_nmbm
      else if dt_bbt np then Some Backend_bbt
      else None)"

text \<open>\<open>mem\<close> says whether the allocation in the debug operation of the v2 table succeeds.\<close>

fun backend_ops :: "'d nand_drv \<Rightarrow> crc_fn \<Rightarrow> bool \<Rightarrow> bmt_backend \<Rightarrow> 'd mtk_bmt_ops" where
  "backend_ops drv crc mem Backend_v2 = mtk_bmt_v2_ops drv mem"
| "backend_ops drv crc mem Backend_nmbm = mtk_bmt_nmbm_ops drv crc"
| "backend_ops drv crc mem Backend_bbt = mtk_bmt_bbt_ops drv"

text \<open>\<open>ffs\<close>: one more than the index of the least significant set bit, 0 for 0.\<close>

definition ffs :: "u32 \<Rightarrow> nat" where
  "ffs w = (case find (bit w) [0..<32] of None \<Rightarrow> 0 | Some i \<Rightarrow> Suc i)"

text \<open>The fields filled before the backend is initialised.\<close>

definition attach_setup :: "bmt_env \<Rightarrow> mtd_info \<Rightarrow> 'd bmt_desc \<Rightarrow> 'd bmt_desc" where
  "attach_setup np m s =
     (let s0 = mtk_bmt_replace_ops (s\<lparr>remap_range := dt_remap_range np, attached := True, mtd := m\<rparr>);
          m1 = (case dt_overridden_oobsize np of
                  None \<Rightarrow> mtd s0
                | Some v \<Rightarrow> if v < oobsize (mtd s0) then (mtd s0)\<lparr>oobsize := v\<rparr> else mtd s0);
          bshift = (of_nat (ffs (erasesize m1)) - 1 :: u16)
      in s0\<lparr>mtd := m1, blk_size := erasesize m1, blk_shift := bshift, pg_size := writesize m1,
            pg_shift := of_nat (ffs (writesize m1)) - 1,
            total_blks := ucast (drop_bit (unat bshift) (mtd_size m1))\<rparr>)"

definition mtk_bmt_attach ::
  "'d nand_drv \<Rightarrow> crc_fn \<Rightarrow> bool \<Rightarrow> bmt_env \<Rightarrow> mtd_info \<Rightarrow> 'd bmt_desc \<Rightarrow> (int \<times> mtd_info \<times> 'd bmt_desc) option"
where
  "mtk_bmt_attach drv crc mem np m s =
     (if attached s then Some (- ENOSPC, m, s)
      else case bmt_choose np of
             None \<Rightarrow> Some (0, m, s)
           | Some be \<Rightarrow>
               let s1 = attach_setup np m s
               in if \<not> alloc_data_buf_ok np then Some (- 1, mtk_bmt_detach True m s1)
                  else do {
                    (ret, s2) \<leftarrow> op_init (backend_ops drv crc mem be) np
                      (s1\<lparr>data_buf := replicate (unat (pg_size s1 + oobsize (mtd s1))) 0xff\<rparr>);
                    if ret \<noteq> 0 then Some (ret, mtk_bmt_detach True m s2)
                    else let s3 = mtk_bmt_add_debugfs np s2 in Some (0, mtd s3, s3)
                  })"

section \<open>Starting a backend\<close>

text \<open>What the start of a backend leaves alone: the wiring of the device. It may change the reported
  size.\<close>

definition wired :: "'d bmt_desc \<Rightarrow> 'd bmt_desc \<Rightarrow> bool" where
  "wired s t \<longleftrightarrow> attached t = attached s \<and> saved_fns t = saved_fns s \<and> blk_shift t = blk_shift s \<and>
     total_blks t = total_blks s \<and> mtd t = (mtd s)\<lparr>mtd_size := mtd_size (mtd t)\<rparr>"

lemma wired_refl [simp]: "wired s s"
  by (simp add: wired_def)

lemma wired_trans [trans]: "wired s t \<Longrightarrow> wired t u \<Longrightarrow> wired s u"
  unfolding wired_def by (metis mtd_info.update_convs(6) mtd_info.surjective)

lemma wired_io: "io_upd s t \<Longrightarrow> wired s t"
  by (auto simp: wired_def elim!: io_updE)

lemma wired_io_trans: "io_upd s t \<Longrightarrow> wired t u \<Longrightarrow> wired s u"
  using wired_io wired_trans by blast

lemma wired_set [simp]:
  "wired s (t\<lparr>nand := d\<rparr>) = wired s t" "wired s (t\<lparr>data_buf := b\<rparr>) = wired s t"
  "wired s (t\<lparr>bbt_buf := b\<rparr>) = wired s t" "wired s (t\<lparr>bbt := x\<rparr>) = wired s t" "wired s (t\<lparr>ni := y\<rparr>) = wired s t"
  "wired s (t\<lparr>bmt_blk_idx := i\<rparr>) = wired s t" "wired s (t\<lparr>bmt_pgs := p\<rparr>) = wired s t" "wired s (t\<lparr>pool_pba := q\<rparr>) = wired s t"
  by (simp_all add: wired_def)

subsection \<open>The table of the bad-block-table backend\<close>

lemma read_bbt_loop_wired: "mtk_bmt_read_bbt_loop drv is oob s = (ret, t) \<Longrightarrow> wired s t"
proof (induction "is" arbitrary: oob s)
  case (Cons i "is")
  obtain r dat ob s1 where rd: "bbt_nand_read drv (push_bit (unat (blk_shift s) - unat (pg_shift s)) (word_of_int i :: u32))
      (unat (pg_size s)) 8 s = (r, dat, ob, s1)" by (metis prod_cases4)
  have w: "wired s s1" using wired_io [OF bbt_nand_read_frame [OF rd]] .
  then have "wired s (s1\<lparr>bbt_buf := memcpy_at (bbt_buf s1) 0 dat\<rparr>)" by simp
  then show ?case
    using Cons.prems Cons.IH wired_trans w rd by (fastforce simp: Let_def split: if_splits)
qed simp

lemma init_bbt_wired: "\<exists>ret t. mtk_bmt_init_bbt drv np s = Some (ret, t) \<and> wired s t"
proof (cases "alloc_table_ok np")
  case True
  let ?s1 = "s\<lparr>bbt_buf := replicate (unat (round_up (drop_bit 2 (ucast (total_blks s))) (blk_size s))) 0xff,
     mtd := (mtd s)\<lparr>mtd_size := mtd_size (mtd s) - ucast (4 * erasesize (mtd s))\<rparr>\<rparr>"
  obtain ret s2 where rd: "mtk_bmt_read_bbt drv ?s1 = (ret, s2)" by fastforce
  have "wired s ?s1" by (simp add: wired_def)
  then have "wired s s2" using read_bbt_loop_wired [OF rd [unfolded mtk_bmt_read_bbt_def]] wired_trans by blast
  then show ?thesis using True rd by (simp add: mtk_bmt_init_bbt_def Let_def)
qed (simp add: mtk_bmt_init_bbt_def)

subsection \<open>The v2 table\<close>

lemma scan_bb_tbl_loop_wired: "scan_bb_tbl_loop drv k i tbl s = (ok, tbl', t) \<Longrightarrow> wired s t"
proof (induction k arbitrary: i tbl s)
  case (Suc k)
  obtain b s1 where f: "find_valid_block drv (cell tbl (i - 1) + 1) s = (b, s1)" by fastforce
  have "wired s s1" using wired_io [OF find_valid_block_frame [OF f]] .
  then show ?case
    using Suc.prems Suc.IH wired_trans f by (fastforce simp: Let_def split: if_splits)
qed simp

lemma scan_pool_loop_wired: "scan_pool_loop drv i blk es s = (j, es', t) \<Longrightarrow> wired s t"
proof (induction drv i blk es s rule: scan_pool_loop.induct)
  case (1 drv i blk es s)
  obtain b s1 where f: "find_valid_block drv blk s = (b, s1)" by fastforce
  have "wired s s1" using wired_io [OF find_valid_block_frame [OF f]] .
  then show ?case
    using 1(1) [OF f [symmetric]] 1(2) f
    by (auto simp: scan_pool_loop.simps [of drv i blk] split: if_splits intro: wired_trans)
qed

lemma scan_bad_blocks_wired:
  assumes "scan_bad_blocks drv b s = (ret, b', t)"
  shows "wired s t"
proof -
  obtain ok tbl s1 where l: "scan_bb_tbl_loop drv (unat (pool_lba s) - 1) 1 ((bb_tbl b)[0 := 0]) s = (ok, tbl, s1)"
    by (metis prod_cases3)
  define s2 where "s2 = s1\<lparr>pool_pba := cell tbl (max 1 (unat (pool_lba s1)) - 1) + 1\<rparr>"
  obtain i es s3 where p: "scan_pool_loop drv 0 (pool_pba s2) (bmt_tbl b) s2 = (i, es, s3)" by (metis prod_cases3)
  have w: "wired s s1" "wired s s2" using scan_bb_tbl_loop_wired [OF l] by (simp_all add: s2_def)
  then have "wired s s3" using scan_pool_loop_wired [OF p] wired_trans by blast
  moreover have "t = s1 \<or> t = s2 \<or> t = s3\<lparr>bmt_blk_idx := of_nat i - 1\<rparr>"
    using assms p unfolding scan_bad_blocks_def Let_def l prod.case s2_def [symmetric] by (auto split: if_splits)
  ultimately show ?thesis using w by auto
qed

lemma upload_cur_wired: "wired s (upload_cur drv b s)"
proof -
  obtain n b1 s1 where u: "upload_bmt_loop drv (nat (uint (bmt_blk_idx s) + 1)) b s = (n, b1, s1)" by (metis prod_cases3)
  show ?thesis
    using wired_io [OF upload_bmt_loop_keeps(1) [OF u]] by (simp add: upload_cur_def upload_bmt_def u)
qed

lemma v2_build_wired: "v2_build drv s = (ret, t) \<Longrightarrow> wired s t"
proof -
  assume v: "v2_build drv s = (ret, t)"
  define b where "b = (bbbt_of (unat (table_size s)) (bbt_buf s))\<lparr>bmt_tbl := replicate (min (unat (table_size s))
      (length (bmt_tbl (bbbt_of (unat (table_size s)) (bbt_buf s))))) \<lparr>bb_block = 0, bb_mapped = 0\<rparr>
      @ drop (unat (table_size s)) (bmt_tbl (bbbt_of (unat (table_size s)) (bbt_buf s)))\<rparr>"
  obtain r b1 s1 where sc: "scan_bad_blocks drv b (s\<lparr>bbt := Some b\<rparr>) = (r, b1, s1)" by (metis prod_cases3)
  have "wired s (s\<lparr>bbt := Some b\<rparr>)" by simp
  then have w: "wired s s1" using scan_bad_blocks_wired [OF sc] by (rule wired_trans)
  then have "wired s (s1\<lparr>bbt := Some b1\<rparr>)" by simp
  then have "wired s (upload_cur drv b1 (s1\<lparr>bbt := Some b1\<rparr>))" using upload_cur_wired by (rule wired_trans)
  moreover have "t = s \<or> t = s1\<lparr>bbt := Some b1\<rparr> \<or> t = upload_cur drv b1 (s1\<lparr>bbt := Some b1\<rparr>)"
    using v unfolding v2_build_def Let_def b_def [symmetric] sc by (auto split: if_splits)
  ultimately show "wired s t" using w by auto
qed

lemma bmt_search_wired:
  assumes "0 < pool_lba s"
  shows "\<exists>t. bmt_search_loop drv bufsz block s = Some t \<and> wired s t"
  using assms
proof (induction "unat block" arbitrary: block s rule: less_induct)
  case less
  show ?case
  proof (cases "bbt s = None \<and> block \<ge> pool_lba s")
    case False
    then show ?thesis by (subst bmt_search_loop.simps) auto
  next
    case True
    obtain ret dat ob s1 where rd: "bbt_nand_read drv (blk_pg s block) (unat bufsz) 4 s = (ret, dat, ob, s1)"
      by (metis prod_cases4)
    define s2 where "s2 = s1\<lparr>bbt_buf := memcpy_at (bbt_buf s1) 0 dat\<rparr>"
    have io: "io_upd s s1" using bbt_nand_read_frame [OF rd] .
    then have w: "wired s s2" "pool_lba s2 = pool_lba s"
      using wired_io [OF io] io_upd_fields(11) [OF io] by (simp_all add: s2_def)
    have "0 < block" using less.prems True by (auto intro: order.strict_trans2)
    then have dec: "unat (block - 1) < unat block" using unat_pred_greater [of 0 block] by (simp add: word_less_nat_alt)
    have IH: "\<exists>t. bmt_search_loop drv bufsz (block - 1) u = Some t \<and> wired s t"
      if "wired s u" "pool_lba u = pool_lba s" for u
      using less.hyps [OF dec, of u] that less.prems wired_trans by metis
    show ?thesis
      using True rd IH [OF w] IH w
      by (subst bmt_search_loop.simps) (simp add: Let_def s2_def [symmetric])
  qed
qed

lemma init_v2_wired:
  assumes "v2_pool_size np < ucast (total_blks s)"
  shows "\<exists>ret t. mtk_bmt_init_v2 drv np s = Some (ret, t) \<and> wired s t"
proof -
  define s1 where "s1 = v2_setup np s"
  have w: "wired s s1" by (simp add: s1_def v2_setup_def Let_def wired_def)
  let ?z = "v2_bufsz (table_size s1) (pg_size s1)"
  let ?s = "s1\<lparr>bbt_buf := replicate (unat ?z) 0xff, bbt := None\<rparr>"
  obtain s2 where s2: "bmt_search_loop drv ?z (total_blks s1 - 1) ?s = Some s2" "wired ?s s2"
    using bmt_search_wired [of ?s drv ?z "total_blks s1 - 1"] v2_pool_lba_pos [OF assms] by (auto simp: s1_def)
  have "wired s ?s" using w by simp
  then have ws: "wired s s2" using s2(2) by (rule wired_trans)
  obtain ret t where b: "v2_build drv s2 = (ret, t)" by fastforce
  have "wired s t" using ws v2_build_wired [OF b] by (rule wired_trans)
  then show ?thesis
    using w ws s2(1) b by (auto simp: mtk_bmt_init_v2_def Let_def s1_def [symmetric])
qed

section \<open>The contract of a backend's start\<close>

text \<open>\<open>ready\<close> says when the backend can be started on a prepared descriptor. Attaching relies on the
  start returning and leaving the wiring alone.\<close>

definition prepared :: "bmt_env \<Rightarrow> mtd_info \<Rightarrow> 'd bmt_desc \<Rightarrow> 'd bmt_desc" where
  "prepared np m s = (attach_setup np m s)\<lparr>data_buf :=
     replicate (unat (pg_size (attach_setup np m s) + oobsize (mtd (attach_setup np m s)))) 0xff\<rparr>"

text \<open>The caller's structure after the stack let go of it: the original functions, the size of the whole
  chip, and the spare size the device tree may have lowered.\<close>

definition released :: "bmt_env \<Rightarrow> mtd_info \<Rightarrow> 'd bmt_desc \<Rightarrow> mtd_info" where
  "released np m s = m\<lparr>oobsize := oobsize (mtd (attach_setup np m s)), mtd_size := nand_bytes (attach_setup np m s)\<rparr>"

lemma setup_wired:
  "attached (attach_setup np m s) = True" "saved_fns (attach_setup np m s) = mtd_ops m"
  "mtd (attach_setup np m s) = m\<lparr>oobsize := oobsize (mtd (attach_setup np m s)), mtd_ops := bmt_fns\<rparr>"
  by (simp_all add: attach_setup_def mtk_bmt_replace_ops_def Let_def split: option.split)

lemma detach_released:
  assumes "wired (prepared np m s) t"
  shows "mtk_bmt_detach True x t = (released np m s, bmtd_zero (nand t))"
proof -
  have w: "saved_fns t = mtd_ops m" "nand_bytes t = nand_bytes (attach_setup np m s)"
    "mtd t = (mtd (attach_setup np m s))\<lparr>mtd_size := mtd_size (mtd t)\<rparr>"
    using assms setup_wired [of np m s] by (simp_all add: wired_def prepared_def nand_bytes_def)
  have "(mtd t)\<lparr>mtd_ops := saved_fns t, mtd_size := nand_bytes t\<rparr> = released np m s"
    unfolding w(1,2) released_def by (subst w(3), subst setup_wired(3)) simp
  then show ?thesis by (simp add: mtk_bmt_detach_def)
qed

definition wiring_of :: "bmt_env \<Rightarrow> mtd_info \<Rightarrow> 'd bmt_desc \<Rightarrow> 'd bmt_desc \<Rightarrow> bool" where
  "wiring_of np m s t \<longleftrightarrow> attached t \<and> mtd_ops (mtd t) = bmt_fns \<and> saved_fns t = mtd_ops m \<and>
     total_blks t = total_blks (attach_setup np m s) \<and> blk_shift t = blk_shift (attach_setup np m s)"

locale bmt_starting =
  fixes ops :: "'d mtk_bmt_ops" and ready :: "bmt_env \<Rightarrow> 'd bmt_desc \<Rightarrow> bool"
  assumes starts: "ready np s \<Longrightarrow> \<exists>ret t. op_init ops np s = Some (ret, t) \<and> wired s t"
begin

lemma attach_outcome:
  assumes "\<not> attached s" and "bmt_choose np = Some be" and "backend_ops drv crc mem be = ops"
    and "ready np (prepared np m s)"
  shows "\<exists>ret m' t. mtk_bmt_attach drv crc mem np m s = Some (ret, m', t) \<and>
     (if ret = 0 then m' = mtd t \<and> wiring_of np m s t \<and>
        mtk_bmt_detach True m' t = (released np m s, bmtd_zero (nand t))
      else m' = released np m s \<and> t = bmtd_zero (nand t))"
proof (cases "alloc_data_buf_ok np")
  case False
  have "mtk_bmt_detach True m (attach_setup np m s) = (released np m s, bmtd_zero (nand (attach_setup np m s)))"
    by (rule detach_released) (simp add: wired_def prepared_def)
  then show ?thesis
    using False assms(1,2) by (simp add: mtk_bmt_attach_def bmtd_zero_def)
next
  case True
  obtain ret t where i: "op_init ops np (prepared np m s) = Some (ret, t)" and w: "wired (prepared np m s) t"
    using starts [OF assms(4)] by blast
  let ?t = "mtk_bmt_add_debugfs np t"
  have w': "wired (prepared np m s) ?t" using w by (simp add: wired_def mtk_bmt_add_debugfs_def)
  have "mtk_bmt_attach drv crc mem np m s = (if ret = 0 then Some (0, mtd ?t, ?t) else Some (ret, mtk_bmt_detach True m t))"
    using True assms(1-3) i by (simp add: mtk_bmt_attach_def prepared_def Let_def)
  moreover have "wiring_of np m s ?t"
    using w' setup_wired [of np m s] by (auto simp: wiring_of_def wired_def prepared_def) (metis mtd_info.select_convs(9) mtd_info.update_convs(9) mtd_info.surjective mtd_info.update_convs(6))
  ultimately show ?thesis
    using detach_released [OF w'] detach_released [OF w] by (auto simp: bmtd_zero_def)
qed

end

text \<open>When each backend can be started.\<close>

fun backend_ready :: "bmt_backend \<Rightarrow> bmt_env \<Rightarrow> 'd bmt_desc \<Rightarrow> bool" where
  "backend_ready Backend_bbt np s = True"
| "backend_ready Backend_v2 np s = (v2_pool_size np < ucast (total_blks s))"
| "backend_ready Backend_nmbm np s =
     ((\<exists>k \<le> 24. unat (pg_size s) = 2 ^ k) \<and> 16 \<le> total_blks s \<and> ni s = None \<and>
      (case dt_bmt_max_ratio np of None \<Rightarrow> True | Some v \<Rightarrow> v \<le> 15))"

lemma init_nmbm_wired:
  assumes "backend_ready Backend_nmbm np s"
  shows "\<exists>ret t. mtk_bmt_init_nmbm drv crc np s = Some (ret, t) \<and> wired s t"
proof -
  obtain k where k: "k \<le> 24" "unat (pg_size s) = 2 ^ k" using assms by auto
  obtain ret t d b sz where i: "mtk_bmt_init_nmbm drv crc np s = Some (ret, t)"
    and t: "t = s\<lparr>nand := d, data_buf := b, ni := ni t, mtd := (mtd s)\<lparr>mtd_size := sz\<rparr>\<rparr>"
    using init_nmbm_total [OF k(2,1), of np drv crc] assms by auto
  have "wired s t" by (subst t) (simp add: wired_def)
  with i show ?thesis by blast
qed

interpretation bbt_start: bmt_starting "mtk_bmt_bbt_ops drv" "backend_ready Backend_bbt"
  by unfold_locales (use init_bbt_wired in \<open>simp add: mtk_bmt_bbt_ops_def\<close>)

interpretation v2_start: bmt_starting "mtk_bmt_v2_ops drv mem" "backend_ready Backend_v2"
  by unfold_locales (use init_v2_wired in \<open>simp add: mtk_bmt_v2_ops_def\<close>)

interpretation nmbm_start: bmt_starting "mtk_bmt_nmbm_ops drv crc" "backend_ready Backend_nmbm"
  by unfold_locales (use init_nmbm_wired in \<open>simp add: mtk_bmt_nmbm_ops_def\<close>)

section \<open>The geometry computed at attach\<close>

lemma ffs_exp:
  assumes "e < 32"
  shows "ffs (2 ^ e) = Suc e"
proof -
  have b: "bit (2 ^ e :: u32) i \<longleftrightarrow> i = e" for i using assms by (auto simp: bit_exp_iff)
  have "find (bit (2 ^ e :: u32)) [0..<32] = Some e"
    using assms by (simp add: find_Some_iff b) (intro exI [of _ e], simp)
  then show ?thesis by (simp add: ffs_def)
qed

lemma shift_of_exp:
  assumes "unat w = 2 ^ e" and "e < 32"
  shows "unat (of_nat (ffs w) - 1 :: u16) = e"
proof -
  have "of_nat (unat w) = (of_nat (2 ^ e) :: u32)" using assms(1) by simp
  then have "w = 2 ^ e" by simp
  then show ?thesis using ffs_exp [OF assms(2)] assms(2) by (simp add: unsigned_of_nat take_bit_nat_eq_self)
qed

lemma nand_bytes_exact:
  assumes "unat (blk_shift t) = e" and "unat (total_blks t) = T" and "T * 2 ^ e < 2 ^ 31"
  shows "unat (nand_bytes t) = T * 2 ^ e"
proof -
  let ?w = "push_bit e (ucast (total_blks t) :: u32)"
  have "unat (ucast (total_blks t) :: u32) = T" using assms(2) by simp
  then have "unat ?w = take_bit 32 (push_bit e T)" by (simp only: unsigned_push_bit_eq) simp
  then have u: "unat ?w = T * 2 ^ e" using assms(3) by (simp only: push_bit_eq_mult) (simp add: take_bit_nat_eq_self)
  then have "sint ?w = uint ?w" using assms(3) by (intro sint_eq_uint) (simp only:)
  then have "nand_bytes t = ucast ?w" by (simp only: nand_bytes_def assms(1) scast_eq ucast_eq)
  then have "unat (nand_bytes t) = take_bit 64 (unat ?w)" by (simp only: unsigned_ucast_eq) simp
  then show ?thesis using assms(3) by (simp only: u) (simp add: take_bit_nat_eq_self)
qed

section \<open>Properties\<close>

text \<open>Attaching computes the geometry of a chip whose erase and page sizes are powers of two and whose
  size is a whole number of blocks below 2 GiB: the shifts are the logarithms, the block count is
  size over erase size, and the size put back at detach is the size found at attach.\<close>

lemma bmt_attach_geometry:
  assumes "unat (erasesize m) = 2 ^ e" and "unat (writesize m) = 2 ^ p" and "e < 32" "p < 32"
    and "erasesize_mask m = erasesize m - 1" and "unat (mtd_size m) = T * 2 ^ e" and "T < 2 ^ 16"
    and "T * 2 ^ e < 2 ^ 31" and t: "t = attach_setup np m s"
  shows "pages_ok t \<and> unat (blk_shift t) = e \<and> unat (pg_shift t) = p \<and> unat (total_blks t) = T \<and>
     nand_bytes t = mtd_size m"
proof -
  have f: "blk_size t = erasesize m" "pg_size t = writesize m" "erasesize (mtd t) = erasesize m"
    "erasesize_mask (mtd t) = erasesize_mask m" "blk_shift t = of_nat (ffs (erasesize m)) - 1"
    "pg_shift t = of_nat (ffs (writesize m)) - 1"
    "total_blks t = ucast (drop_bit (unat (blk_shift t)) (mtd_size m))"
    by (simp_all add: t attach_setup_def mtk_bmt_replace_ops_def Let_def split: option.split)
  have bs: "unat (blk_shift t) = e" and ps: "unat (pg_shift t) = p"
    using shift_of_exp assms(1-4) by (simp_all add: f)
  have tb: "unat (total_blks t) = T"
  proof -
    have "unat (drop_bit e (mtd_size m)) = T" using assms(6) by (simp add: unat_drop_bit)
    then show ?thesis unfolding f(7) bs using assms(7) by (simp add: take_bit_nat_eq_self unsigned_ucast_eq)
  qed
  have "pages_ok t"
    using assms(1,2,5,8) bs ps tb f by (simp add: pages_ok_def geom_ok_def chip_fits_def)
  moreover have "nand_bytes t = mtd_size m"
    using nand_bytes_exact [OF bs tb assms(8)] assms(6) by (simp only: word_unat_eq_iff)
  ultimately show ?thesis using bs ps tb by simp
qed



end
