(* ===== verification/Owip_Cidr.thy ===== *)
theory Owip_Cidr
  imports Bmt_Prelude
begin

text \<open>
  The address calculator \<open>owipcalc\<close> (\<open>owipcalc.c\<close>): addresses with a prefix length, the stack of
  intermediate results, and the operations on them.

  A \<open>struct cidr\<close> holds the 16 bytes of its address union in memory order; an IPv4 address is the
  first four. Its text buffer is only used inside the parsing and printing functions and is left
  out. \<open>malloc\<close> may fail: \<open>mallocs\<close> lists the outcomes of the coming calls, and calls beyond the list
  succeed. Output to \<open>stdout\<close> is collected in \<open>out\<close>; messages to \<open>stderr\<close> are left out.
\<close>

section \<open>The machine\<close>

text \<open>What the source leaves to the machine: the byte order, the value of \<open>1 << k\<close> for \<open>k\<close> from 32 on,
  which C does not define, and the largest \<open>unsigned long\<close>.\<close>

record cpu =
  little :: bool
  shl_out :: "u32 \<Rightarrow> u32"
  ulong_max :: int

definition shl1 :: "cpu \<Rightarrow> u32 \<Rightarrow> u32" where
  "shl1 c k = (if k < 32 then push_bit (unat k) 1 else shl_out c k)"

definition htonl :: "cpu \<Rightarrow> u32 \<Rightarrow> u32" where
  "htonl c w = (if little c then le32_of (rev (le32_bytes w)) else w)"

definition ntohl :: "cpu \<Rightarrow> u32 \<Rightarrow> u32" where
  "ntohl c w = htonl c w"

text \<open>The functions of \<open>arpa/inet.h\<close>: text to address bytes and back, \<open>None\<close> for a failure.\<close>

record inet =
  pton4 :: "string \<Rightarrow> byte list option"
  pton6 :: "string \<Rightarrow> byte list option"
  ntop4 :: "byte list \<Rightarrow> string option"
  ntop6 :: "byte list \<Rightarrow> string option"

section \<open>Data\<close>

datatype af = AF_INET | AF_INET6

record cidr =
  family :: af
  prefix :: u32
  addr :: "byte list"

record owip =
  stack :: "cidr list"
  quiet :: bool
  printed :: bool
  out :: string
  mallocs :: "bool list"

text \<open>A call returns, ends the program with a status, or has undefined behaviour: a null pointer is read,
  or a byte outside the address.\<close>

datatype 'a outcome = Ret 'a owip | Exit int owip | Undef

fun bind_out :: "'a outcome \<Rightarrow> ('a \<Rightarrow> owip \<Rightarrow> 'b outcome) \<Rightarrow> 'b outcome" where
  "bind_out (Ret x st) f = f x st"
| "bind_out (Exit n st) f = Exit n st"
| "bind_out Undef f = Undef"

definition malloc :: "owip \<Rightarrow> bool \<times> owip" where
  "malloc st = (case mallocs st of [] \<Rightarrow> (True, st) | b # bs \<Rightarrow> (b, st\<lparr>mallocs := bs\<rparr>))"

text \<open>The macro \<open>qprintf\<close>.\<close>

definition qprintf :: "string \<Rightarrow> owip \<Rightarrow> owip" where
  "qprintf t st = st\<lparr>out := (if quiet st then out st else out st @ t), printed := True\<rparr>"

text \<open>\<open>if (printed) qprintf(" ");\<close>\<close>

definition sep :: "owip \<Rightarrow> owip" where
  "sep st = (if printed st then qprintf '' '' st else st)"

text \<open>\<open>s_addr\<close> of the IPv4 member: a 32-bit load and store in the byte order of the machine.\<close>

definition s_addr :: "cpu \<Rightarrow> byte list \<Rightarrow> u32" where
  "s_addr c bs = (if little c then le32_of bs else le32_of (rev (take 4 bs)))"

definition put_s_addr :: "cpu \<Rightarrow> u32 \<Rightarrow> byte list \<Rightarrow> byte list" where
  "put_s_addr c w bs = (if little c then le32_bytes w else rev (le32_bytes w)) @ drop 4 bs"

text \<open>Changes through the pointer to the top of the stack.\<close>

fun top_upd :: "(cidr \<Rightarrow> cidr) \<Rightarrow> owip \<Rightarrow> owip" where
  "top_upd f st = (case stack st of [] \<Rightarrow> st | a # as \<Rightarrow> st\<lparr>stack := f a # as\<rparr>)"

section \<open>The stack\<close>

definition cidr_push :: "cidr option \<Rightarrow> owip \<Rightarrow> owip" where
  "cidr_push a st = (case a of None \<Rightarrow> st | Some x \<Rightarrow> st\<lparr>stack := x # stack st\<rparr>)"

definition cidr_pop :: "cidr \<Rightarrow> owip \<Rightarrow> bool outcome" where
  "cidr_pop a st = (case stack st of [] \<Rightarrow> Ret False st | x # xs \<Rightarrow> Ret True (st\<lparr>stack := xs\<rparr>))"

definition cidr_clone :: "cidr \<Rightarrow> owip \<Rightarrow> unit outcome" where
  "cidr_clone a st =
     (let (ok, st1) = malloc st
      in if ok then Ret () (cidr_push (Some a) st1) else Exit 255 st1)"

section \<open>IPv4\<close>

definition cidr_add4 :: "cpu \<Rightarrow> cidr \<Rightarrow> cidr \<Rightarrow> owip \<Rightarrow> bool outcome" where
  "cidr_add4 c a b st =
     (let x = ntohl c (s_addr c (addr a)); y = ntohl c (s_addr c (addr b))
      in bind_out (cidr_clone a st) (\<lambda>_ st1.
           if family a \<noteq> AF_INET \<or> family b \<noteq> AF_INET then Ret False st1
           else if x + y < x then Ret False st1
           else Ret True (top_upd (\<lambda>n. n\<lparr>addr := put_s_addr c (htonl c (x + y)) (addr n)\<rparr>) st1)))"

definition cidr_sub4 :: "cpu \<Rightarrow> cidr \<Rightarrow> cidr \<Rightarrow> owip \<Rightarrow> bool outcome" where
  "cidr_sub4 c a b st =
     (let x = ntohl c (s_addr c (addr a)); y = ntohl c (s_addr c (addr b))
      in bind_out (cidr_clone a st) (\<lambda>_ st1.
           if family a \<noteq> AF_INET \<or> family b \<noteq> AF_INET then Ret False st1
           else if x - y > x then Ret False st1
           else Ret True (top_upd (\<lambda>n. n\<lparr>addr := put_s_addr c (htonl c (x - y)) (addr n)\<rparr>) st1)))"

text \<open>\<open>(1 << (32 - prefix)) - 1\<close>, computed on 32 bits with wrap-around.\<close>

definition hostbits4 :: "cpu \<Rightarrow> u32 \<Rightarrow> u32" where
  "hostbits4 c p = shl1 c (32 - p) - 1"

definition cidr_network4 :: "cpu \<Rightarrow> cidr \<Rightarrow> owip \<Rightarrow> bool outcome" where
  "cidr_network4 c a st = bind_out (cidr_clone a st) (\<lambda>_ st1.
     Ret True (top_upd (\<lambda>n. n\<lparr>addr := put_s_addr c
        (s_addr c (addr n) AND htonl c (NOT (hostbits4 c (prefix n)))) (addr n), prefix := 32\<rparr>) st1))"

definition cidr_broadcast4 :: "cpu \<Rightarrow> cidr \<Rightarrow> owip \<Rightarrow> bool outcome" where
  "cidr_broadcast4 c a st = bind_out (cidr_clone a st) (\<lambda>_ st1.
     Ret True (top_upd (\<lambda>n. n\<lparr>addr := put_s_addr c
        (s_addr c (addr n) OR htonl c (hostbits4 c (prefix n))) (addr n), prefix := 32\<rparr>) st1))"

text \<open>The tail of the test functions: \<open>1\<close> or \<open>0\<close> is printed and returned.\<close>

definition answer :: "bool \<Rightarrow> owip \<Rightarrow> bool outcome" where
  "answer b st = Ret b (qprintf (if b then ''1'' else ''0'') (sep st))"

definition cidr_contains4 :: "cpu \<Rightarrow> cidr \<Rightarrow> cidr \<Rightarrow> owip \<Rightarrow> bool outcome" where
  "cidr_contains4 c a b st =
     (let m = htonl c (NOT (hostbits4 c (prefix a)));
          net1 = s_addr c (addr a) AND m;
          net2 = s_addr c (addr b) AND m
      in answer (prefix a = 0 \<or> prefix b \<ge> prefix a \<and> net1 = net2) st)"

definition cidr_netmask4 :: "cpu \<Rightarrow> cidr \<Rightarrow> owip \<Rightarrow> bool outcome" where
  "cidr_netmask4 c a st = bind_out (cidr_clone a st) (\<lambda>_ st1.
     Ret True (top_upd (\<lambda>n. n\<lparr>addr := put_s_addr c (htonl c (NOT (hostbits4 c (prefix n)))) (addr n),
        prefix := 32\<rparr>) st1))"

definition cidr_private4 :: "cpu \<Rightarrow> cidr \<Rightarrow> owip \<Rightarrow> bool outcome" where
  "cidr_private4 c a st =
     (let x = ntohl c (s_addr c (addr a))
      in answer (x \<ge> 0x0A000000 \<and> x \<le> 0x0AFFFFFF \<or> x \<ge> 0xAC100000 \<and> x \<le> 0xAC1FFFFF \<or>
                 x \<ge> 0xC0A80000 \<and> x \<le> 0xC0A8FFFF) st)"

definition cidr_linklocal4 :: "cpu \<Rightarrow> cidr \<Rightarrow> owip \<Rightarrow> bool outcome" where
  "cidr_linklocal4 c a st =
     (let x = ntohl c (s_addr c (addr a)) in answer (x \<ge> 0xA9FE0000 \<and> x \<le> 0xA9FEFFFF) st)"

definition cidr_prev4 :: "cpu \<Rightarrow> cidr \<Rightarrow> cidr \<Rightarrow> owip \<Rightarrow> bool outcome" where
  "cidr_prev4 c a b st = bind_out (cidr_clone a st) (\<lambda>_ st1.
     Ret True (top_upd (\<lambda>n. n\<lparr>prefix := prefix b,
        addr := put_s_addr c (s_addr c (addr n) - htonl c (shl1 c (32 - prefix b))) (addr n)\<rparr>) st1))"

definition cidr_next4 :: "cpu \<Rightarrow> cidr \<Rightarrow> cidr \<Rightarrow> owip \<Rightarrow> bool outcome" where
  "cidr_next4 c a b st = bind_out (cidr_clone a st) (\<lambda>_ st1.
     Ret True (top_upd (\<lambda>n. n\<lparr>prefix := prefix b,
        addr := put_s_addr c (s_addr c (addr n) + htonl c (shl1 c (32 - prefix b))) (addr n)\<rparr>) st1))"

text \<open>The sixteen bytes after \<open>memset\<close> and the six assignments.\<close>

definition cidr_6to4 :: "cpu \<Rightarrow> cidr \<Rightarrow> owip \<Rightarrow> bool outcome" where
  "cidr_6to4 c a st = bind_out (cidr_clone a st) (\<lambda>_ st1.
     let x = s_addr c (addr a)
     in Ret True (top_upd (\<lambda>n. n\<lparr>family := AF_INET6, prefix := 48,
          addr := [0x20, 0x02, ucast (drop_bit 24 x), ucast (drop_bit 16 x AND 0xFF),
                   ucast (drop_bit 8 x AND 0xFF), ucast (x AND 0xFF)] @ replicate 10 0\<rparr>) st1))"

text \<open>\<open>%u\<close>\<close>

fun dec :: "nat \<Rightarrow> string" where
  "dec n = (if n < 10 then [char_of (48 + n)] else dec (n div 10) @ [char_of (48 + n mod 10)])"

declare dec.simps [simp del]

text \<open>The common tail of both printing functions: the text, the prefix when it is not the whole
  address, and the pop of the stack.\<close>

definition print_tail :: "cidr \<Rightarrow> u32 \<Rightarrow> string \<Rightarrow> owip \<Rightarrow> bool outcome" where
  "print_tail a whole t st =
     (let st1 = qprintf t (sep st);
          st2 = (if prefix a < whole then qprintf (''/'' @ dec (unat (prefix a))) st1 else st1)
      in bind_out (cidr_pop a st2) (\<lambda>_ st3. Ret True st3))"

definition cidr_print4 :: "inet \<Rightarrow> cidr option \<Rightarrow> owip \<Rightarrow> bool outcome" where
  "cidr_print4 lib a st =
     (case a of
        None \<Rightarrow> Ret False st
      | Some x \<Rightarrow>
          if family x \<noteq> AF_INET then Ret False st
          else case ntop4 lib (take 4 (addr x)) of
                 None \<Rightarrow> Ret False st
               | Some t \<Rightarrow> print_tail x 32 t st)"

section \<open>IPv6\<close>

text \<open>The loop \<open>do { ... } while (idx-- > 0)\<close> of \<open>cidr_add6\<close>: the bytes and the carry at the end.\<close>

fun add6_loop :: "nat \<Rightarrow> byte list \<Rightarrow> byte list \<Rightarrow> byte \<Rightarrow> byte list \<times> byte" where
  "add6_loop idx x y carry =
     (let s = unat (x ! idx) + unat (y ! idx) + unat carry;
          x1 = x[idx := x ! idx + (y ! idx + carry)];
          carry1 = (if s \<ge> 256 then 1 else 0)
      in case idx of 0 \<Rightarrow> (x1, carry1) | Suc i \<Rightarrow> add6_loop i x1 y carry1)"

declare add6_loop.simps [simp del]

definition cidr_add6 :: "cidr \<Rightarrow> cidr \<Rightarrow> owip \<Rightarrow> bool outcome" where
  "cidr_add6 a b st = bind_out (cidr_clone a st) (\<lambda>_ st1.
     if family a \<noteq> AF_INET6 \<or> family b \<noteq> AF_INET6 then Ret False st1
     else let (x, carry) = add6_loop 15 (addr a) (addr b) 0
          in Ret (carry = 0) (top_upd (\<lambda>n. n\<lparr>addr := x\<rparr>) st1))"

fun sub6_loop :: "nat \<Rightarrow> byte list \<Rightarrow> byte list \<Rightarrow> byte \<Rightarrow> byte list \<times> byte" where
  "sub6_loop idx x y carry =
     (let s = int (unat (x ! idx)) - int (unat (y ! idx)) - int (unat carry);
          x1 = x[idx := x ! idx - (y ! idx + carry)];
          carry1 = (if s < 0 then 1 else 0)
      in case idx of 0 \<Rightarrow> (x1, carry1) | Suc i \<Rightarrow> sub6_loop i x1 y carry1)"

declare sub6_loop.simps [simp del]

definition cidr_sub6 :: "cidr \<Rightarrow> cidr \<Rightarrow> owip \<Rightarrow> bool outcome" where
  "cidr_sub6 a b st = bind_out (cidr_clone a st) (\<lambda>_ st1.
     if family a \<noteq> AF_INET6 \<or> family b \<noteq> AF_INET6 then Ret False st1
     else let (x, carry) = sub6_loop 15 (addr a) (addr b) 0
          in Ret (carry = 0) (top_upd (\<lambda>n. n\<lparr>addr := x\<rparr>) st1))"

text \<open>The loops of \<open>cidr_prev6\<close> and \<open>cidr_next6\<close>, and the byte index they start at, a \<open>uint8_t\<close>.\<close>

fun prev6_loop :: "nat \<Rightarrow> byte list \<Rightarrow> byte \<Rightarrow> byte list \<times> byte" where
  "prev6_loop idx x carry =
     (let x1 = x[idx := x ! idx - carry];
          carry1 = (if unat (x ! idx) < unat carry then 1 else 0)
      in case idx of 0 \<Rightarrow> (x1, carry1) | Suc i \<Rightarrow> prev6_loop i x1 carry1)"

declare prev6_loop.simps [simp del]

fun next6_loop :: "nat \<Rightarrow> byte list \<Rightarrow> byte \<Rightarrow> byte list \<times> byte" where
  "next6_loop idx x carry =
     (let x1 = x[idx := x ! idx + carry];
          carry1 = (if unat (x ! idx) + unat carry \<ge> 256 then 1 else 0)
      in case idx of 0 \<Rightarrow> (x1, carry1) | Suc i \<Rightarrow> next6_loop i x1 carry1)"

declare next6_loop.simps [simp del]

definition prefix_idx :: "u32 \<Rightarrow> nat" where
  "prefix_idx p = unat (ucast ((p - 1) div 8) :: byte)"

definition cidr_prev6 :: "cidr \<Rightarrow> cidr \<Rightarrow> owip \<Rightarrow> bool outcome" where
  "cidr_prev6 a b st = bind_out (cidr_clone a st) (\<lambda>_ st1.
     if prefix b = 0 then Ret False st1
     else if prefix_idx (prefix b) > 15 then Undef
     else let (x, carry) = prev6_loop (prefix_idx (prefix b)) (addr a) 1;
              st2 = top_upd (\<lambda>n. n\<lparr>addr := x\<rparr>) st1
          in if carry \<noteq> 0 then Ret False st2
             else Ret True (top_upd (\<lambda>n. n\<lparr>prefix := prefix b\<rparr>) st2))"

definition cidr_next6 :: "cidr \<Rightarrow> cidr \<Rightarrow> owip \<Rightarrow> bool outcome" where
  "cidr_next6 a b st = bind_out (cidr_clone a st) (\<lambda>_ st1.
     if prefix b = 0 then Ret False st1
     else if prefix_idx (prefix b) > 15 then Undef
     else let (x, carry) = next6_loop (prefix_idx (prefix b)) (addr a) 1;
              st2 = top_upd (\<lambda>n. n\<lparr>addr := x\<rparr>) st1
          in if carry \<noteq> 0 then Ret False st2
             else Ret True (top_upd (\<lambda>n. n\<lparr>prefix := prefix b\<rparr>) st2))"

text \<open>\<open>128 - prefix\<close> on unsigned 32-bit values, as a number.\<close>

definition hostlen6 :: "u32 \<Rightarrow> nat" where
  "hostlen6 p = unat (128 - p)"

text \<open>\<open>~((1 << k) - 1)\<close> truncated to a byte, for \<open>k < 8\<close>.\<close>

definition highmask :: "nat \<Rightarrow> byte" where
  "highmask k = NOT (push_bit k 1 - 1)"

fun clear_low :: "nat \<Rightarrow> byte list \<Rightarrow> byte list" where
  "clear_low 0 x = x"
| "clear_low (Suc i) x = (clear_low i x)[15 - i := 0]"

text \<open>With a prefix above 128 the difference wraps and the loop writes outside the address.\<close>

definition cidr_network6 :: "cidr \<Rightarrow> owip \<Rightarrow> bool outcome" where
  "cidr_network6 a st = bind_out (cidr_clone a st) (\<lambda>_ st1.
     if prefix a > 128 then Undef
     else Ret True (top_upd (\<lambda>n.
       let q = hostlen6 (prefix n) div 8; r = hostlen6 (prefix n) mod 8;
           x = clear_low q (addr n)
       in n\<lparr>addr := (if r \<noteq> 0 then x[15 - q := x ! (15 - q) AND highmask r] else x)\<rparr>) st1))"

definition cidr_contains6 :: "cidr \<Rightarrow> cidr \<Rightarrow> owip \<Rightarrow> bool outcome" where
  "cidr_contains6 a b st =
     (let x = addr a; y = addr b;
          i = hostlen6 (prefix a) div 8 mod 16;
          m = highmask (hostlen6 (prefix a) mod 8);
          net1 = x ! (15 - i) AND m;
          net2 = y ! (15 - i) AND m
      in answer (prefix a = 0 \<or>
           prefix b \<ge> prefix a \<and> net1 = net2 \<and> (i = 15 \<or> memcmp_eq x y (15 - i))) st)"

definition cidr_linklocal6 :: "cidr \<Rightarrow> owip \<Rightarrow> bool outcome" where
  "cidr_linklocal6 a st =
     answer (addr a ! 0 = 0xFE \<and> addr a ! 1 \<ge> 0x80 \<and> addr a ! 1 \<le> 0xBF) st"

definition cidr_ula6 :: "cidr \<Rightarrow> owip \<Rightarrow> bool outcome" where
  "cidr_ula6 a st = answer (addr a ! 0 \<ge> 0xFC \<and> addr a ! 0 \<le> 0xFD) st"

definition cidr_print6 :: "inet \<Rightarrow> cidr option \<Rightarrow> owip \<Rightarrow> bool outcome" where
  "cidr_print6 lib a st =
     (case a of
        None \<Rightarrow> Ret False st
      | Some x \<Rightarrow>
          if family x \<noteq> AF_INET6 then Ret False st
          else case ntop6 lib (addr x) of
                 None \<Rightarrow> Ret False st
               | Some t \<Rightarrow> print_tail x 128 t st)"

section \<open>Both families\<close>

definition cidr_howmany :: "cpu \<Rightarrow> cidr \<Rightarrow> cidr \<Rightarrow> owip \<Rightarrow> bool outcome" where
  "cidr_howmany c a b st =
     Ret True (qprintf (if prefix b < prefix a then ''0''
                        else dec (unat (shl1 c (prefix b - prefix a)))) (sep st))"

text \<open>\<open>a\<close> is the top of the stack.\<close>

definition cidr_prefix :: "cidr \<Rightarrow> cidr \<Rightarrow> owip \<Rightarrow> bool outcome" where
  "cidr_prefix a b st = Ret True (top_upd (\<lambda>n. n\<lparr>prefix := prefix b\<rparr>) st)"

definition cidr_quiet :: "cidr \<Rightarrow> owip \<Rightarrow> bool outcome" where
  "cidr_quiet a st = Ret True (st\<lparr>quiet := True\<rparr>)"

section \<open>Byte order\<close>

text \<open>An IPv4 address as a number, its first byte the most significant.\<close>

definition host4 :: "byte list \<Rightarrow> u32" where
  "host4 bs = le32_of (rev (take 4 bs))"

definition bswap :: "u32 \<Rightarrow> u32" where
  "bswap w = le32_of (rev (le32_bytes w))"

lemma bit_byte_high: "bit (b :: byte) n \<Longrightarrow> n < 8"
  using bit_imp_le_length [of b n] by simp

lemma le32_bytes_of: "le32_bytes (le32_of (a # b # c # d # r)) = [a, b, c, d]"
  unfolding le32_bytes_def le32_of.simps
  by (simp, intro conjI; rule bit_word_eqI) (auto simp: bit_simps dest: bit_byte_high)

lemma le32_bytes_bswap: "le32_bytes (bswap w) = rev (le32_bytes w)"
  unfolding bswap_def by (subst (2 3) le32_bytes_def) (simp only: rev.simps append.simps le32_bytes_of)

lemma bswap_bswap [simp]: "bswap (bswap w) = w"
  using le32_of_bytes [of w "[]"] by (simp add: bswap_def [of "bswap w"] le32_bytes_bswap)

lemma bit_bswap:
  "n < 32 \<Longrightarrow> bit (bswap w) n = bit w (if n < 8 then 24 + n else if n < 16 then 8 + n else if n < 24 then n - 8 else n - 24)"
  by (auto simp: bswap_def le32_bytes_def bit_simps)

lemma bswap_bits: "bswap (x AND y) = bswap x AND bswap y" "bswap (x OR y) = bswap x OR bswap y"
  by (rule bit_word_eqI, simp add: bit_bswap bit_and_iff bit_or_iff)+

lemma htonl_eq: "htonl c w = (if little c then bswap w else w)"
  by (simp add: htonl_def bswap_def)

lemma htonl_htonl [simp]: "htonl c (htonl c w) = w"
  by (simp add: htonl_eq)

lemma htonl_bits: "htonl c x AND htonl c y = htonl c (x AND y)" "htonl c x OR htonl c y = htonl c (x OR y)"
  by (simp_all add: htonl_eq bswap_bits)

lemma list4:
  assumes "4 \<le> length bs"
  obtains a b c d r where "bs = a # b # c # d # r"
  using assms by (cases bs rule: list.exhaust; cases "tl bs"; cases "tl (tl bs)"; cases "tl (tl (tl bs))") auto

lemma s_addr_host: "4 \<le> length bs \<Longrightarrow> s_addr c bs = htonl c (host4 bs)"
proof -
  assume "4 \<le> length bs"
  then obtain p q r s t where bs: "bs = p # q # r # s # t" by (rule list4)
  show ?thesis
    using le32_bytes_of [of s r q p "[]"] by (simp only: s_addr_def htonl_eq host4_def bs bswap_def) simp
qed

lemma take_put_s_addr: "take 4 (put_s_addr c (htonl c w) bs) = rev (le32_bytes w)"
  by (simp add: put_s_addr_def htonl_eq le32_bytes_bswap)

lemma host4_put [simp]: "host4 (put_s_addr c (htonl c w) bs) = w"
  using le32_of_bytes [of w "[]"] by (simp add: host4_def take_put_s_addr)

lemma length_put [simp]: "4 \<le> length bs \<Longrightarrow> length (put_s_addr c w bs) = length bs"
  by (simp add: put_s_addr_def)

section \<open>Addresses as numbers\<close>

definition val :: "byte list \<Rightarrow> nat" where
  "val bs = foldl (\<lambda>v b. v * 256 + unat b) 0 bs"

lemma val_Nil [simp]: "val [] = 0"
  by (simp add: val_def)

lemma val_snoc [simp]: "val (bs @ [b]) = val bs * 256 + unat b"
  by (simp add: val_def)

lemma val_append: "val (xs @ ys) = val xs * 256 ^ length ys + val ys"
proof (induction ys rule: rev_induct)
  case (snoc y ys)
  have "val (xs @ ys @ [y]) = val ((xs @ ys) @ [y])" by simp
  also have "\<dots> = (val xs * 256 ^ length ys + val ys) * 256 + unat y" by (simp only: val_snoc snoc)
  finally show ?case by (simp add: algebra_simps)
qed simp

lemma val_bound: "val bs < 256 ^ length bs"
proof (induction bs rule: rev_induct)
  case (snoc b bs)
  have "unat b < 256" using unat_bound [of b] by simp
  then have "val bs * 256 + unat b < (val bs + 1) * 256" by simp
  also have "\<dots> \<le> 256 ^ length bs * 256" using snoc by (intro mult_le_mono1) simp
  finally show ?case by (simp add: mult.commute)
qed simp

lemma val_take_Suc: "i < length x \<Longrightarrow> val (take (Suc i) x) = val (take i x) * 256 + unat (x ! i)"
  by (simp add: take_Suc_conv_app_nth)

lemma val_inj: "length xs = length ys \<Longrightarrow> val xs = val ys \<Longrightarrow> xs = ys"
proof (induction xs arbitrary: ys rule: rev_induct)
  case (snoc x xs)
  then obtain ys' y where ys: "ys = ys' @ [y]" by (metis length_0_conv rev_exhaust snoc_eq_iff_butlast)
  have b: "unat x < 256" "unat y < 256" using unat_bound [of x] unat_bound [of y] by simp_all
  have e: "val xs * 256 + unat x = val ys' * 256 + unat y" using snoc.prems(2) ys by simp
  from arg_cong [OF e, of "\<lambda>n. n div 256"] arg_cong [OF e, of "\<lambda>n. n mod 256"] b
  have "val xs = val ys'" "unat x = unat y" by simp_all
  then show ?case using snoc ys unat_inj by auto
qed simp

lemma unat_host4: "4 \<le> length bs \<Longrightarrow> unat (host4 bs) = val (take 4 bs)"
proof -
  assume "4 \<le> length bs"
  then obtain p q r s t where bs: "bs = p # q # r # s # t" by (rule list4)
  define A B C D where "A = (ucast s :: u32)" and "B = (push_bit 8 (ucast r) :: u32)"
    and "C = (push_bit 16 (ucast q) :: u32)" and "D = (push_bit 24 (ucast p) :: u32)"
  have "A AND (B OR C OR D) = 0" "B AND (C OR D) = 0" "C AND D = 0"
    unfolding A_def B_def C_def D_def by (rule bit_word_eqI, auto simp: bit_simps dest: bit_byte_high)+
  then have "A OR B OR C OR D = A + (B + (C + D))" by (simp add: disjunctive_add_eq_or [symmetric])
  moreover have "host4 bs = A OR B OR C OR D" by (simp add: host4_def bs A_def B_def C_def D_def)
  ultimately have "host4 bs = A + (B + (C + D))" by simp
  also have "\<dots> = of_nat (val [p, q, r, s])"
    by (simp add: A_def B_def C_def D_def val_def push_bit_eq_mult algebra_simps)
  finally have "host4 bs = of_nat (val [p, q, r, s])" .
  moreover have "val [p, q, r, s] < 2 ^ 32" using val_bound [of "[p, q, r, s]"] by simp
  ultimately show ?thesis by (simp add: bs unsigned_of_nat take_bit_nat_eq_self)
qed

section \<open>Carries\<close>

lemma mod_256: "s < 512 \<Longrightarrow> s mod 256 = (if 256 \<le> s then s - 256 else s)" for s :: nat
  by (auto simp: le_mod_geq)

lemma byte_carry:
  fixes a b c :: byte
  assumes "unat c \<le> 1"
  shows "unat (a + (b + c)) + (if 256 \<le> unat a + unat b + unat c then 256 else 0) = unat a + unat b + unat c"
proof -
  have b: "unat a < 256" "unat b < 256" using unat_bound [of a] unat_bound [of b] by simp_all
  have "unat (a + (b + c)) = (unat a + unat b + unat c) mod 256"
    by (simp add: unat_word_ariths mod_simps add.assoc)
  moreover have "s mod 256 + (if 256 \<le> s then 256 else 0) = s" if "s < 512" for s :: nat using that mod_256 [OF that] by simp
  ultimately show ?thesis using b assms by simp
qed

lemma add6_loop_val:
  "add6_loop i x y c = (x', c') \<Longrightarrow> i < length x \<Longrightarrow> i < length y \<Longrightarrow> unat c \<le> 1 \<Longrightarrow>
   length x' = length x \<and> drop (Suc i) x' = drop (Suc i) x \<and> unat c' \<le> 1 \<and>
   val (take (Suc i) x') + unat c' * 256 ^ Suc i = val (take (Suc i) x) + val (take (Suc i) y) + unat c"
proof (induction i arbitrary: x c)
  case 0
  then show ?case
    using byte_carry [OF 0(4), of "x ! 0" "y ! 0"]
    by (cases x; cases y) (auto simp: add6_loop.simps [of 0] Let_def val_def split: if_splits)
next
  case (Suc i)
  let ?x1 = "x[Suc i := x ! Suc i + (y ! Suc i + c)]"
  let ?c1 = "if 256 \<le> unat (x ! Suc i) + unat (y ! Suc i) + unat c then 1 else 0 :: byte"
  have l: "add6_loop i ?x1 y ?c1 = (x', c')"
    using Suc.prems(1) by (simp add: add6_loop.simps [of "Suc i"] Let_def)
  have IH: "length x' = length x" "drop (Suc i) x' = drop (Suc i) ?x1" "unat c' \<le> 1"
    "val (take (Suc i) x') + unat c' * 256 ^ Suc i = val (take (Suc i) x) + val (take (Suc i) y) + unat ?c1"
    using Suc.IH [OF l] Suc.prems by simp_all
  have d: "drop (Suc (Suc i)) x' = drop (Suc (Suc i)) x"
    using arg_cong [OF IH(2), of "drop 1"] by (simp only: drop_drop) simp
  have "x' ! Suc i = ?x1 ! Suc i"
    using arg_cong [OF IH(2), of hd] IH(1) Suc.prems(2) by (simp add: hd_drop_conv_nth)
  then have top: "x' ! Suc i = x ! Suc i + (y ! Suc i + c)" using Suc.prems(2) by simp
  have "val (take (Suc (Suc i)) x') + unat c' * 256 ^ Suc (Suc i) =
      (val (take (Suc i) x') + unat c' * 256 ^ Suc i) * 256 + unat (x' ! Suc i)"
    using IH(1) Suc.prems(2) by (subst val_take_Suc) (simp_all add: algebra_simps)
  also have "\<dots> = val (take (Suc i) x) * 256 + val (take (Suc i) y) * 256 + (unat ?c1 * 256 + unat (x' ! Suc i))"
    unfolding IH(4) by (simp add: algebra_simps)
  also have "unat ?c1 * 256 + unat (x' ! Suc i) = unat (x ! Suc i) + unat (y ! Suc i) + unat c"
    unfolding top using byte_carry [OF Suc.prems(4), of "x ! Suc i" "y ! Suc i"] by (simp split: if_splits)
  also have "val (take (Suc i) x) * 256 + val (take (Suc i) y) * 256 + (unat (x ! Suc i) + unat (y ! Suc i) + unat c) =
      val (take (Suc (Suc i)) x) + val (take (Suc (Suc i)) y) + unat c"
    using val_take_Suc [OF Suc.prems(2)] val_take_Suc [OF Suc.prems(3)] by simp
  finally show ?case using IH(1,3) d by blast
qed

lemma byte_borrow:
  fixes a b c :: byte
  assumes "unat c \<le> 1"
  shows "unat a + (if unat a < unat b + unat c then 256 else 0) = unat (a - (b + c)) + unat b + unat c"
proof -
  let ?d = "unat (a - (b + c))"
  have "a - (b + c) + (b + c) = a" by simp
  then have e: "unat a = (?d + unat b + unat c) mod 256"
    using unat_word_ariths(1) [of "a - (b + c)" "b + c"] unat_word_ariths(1) [of b c] by (simp add: mod_simps add.assoc)
  have b: "?d < 256" "unat b < 256" using unat_bound [of "a - (b + c)"] unat_bound [of b] by simp_all
  then have "?d + unat b + unat c < 512" using assms by linarith
  note e [unfolded mod_256 [OF this]]
  moreover have "x + (if x < z + u then 256 else 0) = d + z + u"
    if "x = (if 256 \<le> d + z + u then d + z + u - 256 else d + z + u)" "d < 256" "z < 256" "u \<le> 1" for x d z u :: nat
    using that by (auto split: if_splits)
  ultimately show ?thesis using b assms by blast
qed

lemma borrow_iff: "int (unat a) - int (unat b) - int (unat c) < 0 \<longleftrightarrow> unat a < unat b + unat c" for a b c :: byte
  by linarith

lemma sub6_loop_eq:
  "sub6_loop i x y c =
     (let x1 = x[i := x ! i - (y ! i + c)]; c1 = (if unat (x ! i) < unat (y ! i) + unat c then 1 else 0)
      in case i of 0 \<Rightarrow> (x1, c1) | Suc j \<Rightarrow> sub6_loop j x1 y c1)"
  by (simp only: sub6_loop.simps [of i] Let_def borrow_iff)

lemma sub6_loop_val:
  "sub6_loop i x y c = (x', c') \<Longrightarrow> i < length x \<Longrightarrow> i < length y \<Longrightarrow> unat c \<le> 1 \<Longrightarrow>
   length x' = length x \<and> drop (Suc i) x' = drop (Suc i) x \<and> unat c' \<le> 1 \<and>
   val (take (Suc i) x) + unat c' * 256 ^ Suc i = val (take (Suc i) x') + val (take (Suc i) y) + unat c"
proof (induction i arbitrary: x c)
  case 0
  from 0 show ?case
    using byte_borrow [OF 0(4), of "x ! 0" "y ! 0"]
    by (cases x; cases y) (auto simp: sub6_loop_eq [of 0] Let_def val_def split: if_splits)
next
  case (Suc i)
  let ?x1 = "x[Suc i := x ! Suc i - (y ! Suc i + c)]"
  let ?c1 = "if unat (x ! Suc i) < unat (y ! Suc i) + unat c then 1 else 0 :: byte"
  have l: "sub6_loop i ?x1 y ?c1 = (x', c')"
    using Suc.prems(1) by (simp add: sub6_loop_eq [of "Suc i"] Let_def)
  have IH: "length x' = length x" "drop (Suc i) x' = drop (Suc i) ?x1" "unat c' \<le> 1"
    "val (take (Suc i) x) + unat c' * 256 ^ Suc i = val (take (Suc i) x') + val (take (Suc i) y) + unat ?c1"
    using Suc.IH [OF l] Suc.prems by simp_all
  have d: "drop (Suc (Suc i)) x' = drop (Suc (Suc i)) x"
    using arg_cong [OF IH(2), of "drop 1"] by (simp only: drop_drop) simp
  have "x' ! Suc i = ?x1 ! Suc i"
    using arg_cong [OF IH(2), of hd] IH(1) Suc.prems(2) by (simp add: hd_drop_conv_nth)
  then have top: "x' ! Suc i = x ! Suc i - (y ! Suc i + c)" using Suc.prems(2) by simp
  have "val (take (Suc (Suc i)) x) + unat c' * 256 ^ Suc (Suc i) =
      (val (take (Suc i) x) + unat c' * 256 ^ Suc i) * 256 + unat (x ! Suc i)"
    using val_take_Suc [OF Suc.prems(2)] by (simp add: algebra_simps)
  also have "\<dots> = val (take (Suc i) x') * 256 + val (take (Suc i) y) * 256 + (unat (x ! Suc i) + unat ?c1 * 256)"
    unfolding IH(4) by (simp add: algebra_simps)
  also have "unat (x ! Suc i) + unat ?c1 * 256 = unat (x' ! Suc i) + unat (y ! Suc i) + unat c"
    unfolding top using byte_borrow [OF Suc.prems(4), of "x ! Suc i" "y ! Suc i"] by (simp split: if_splits)
  also have "val (take (Suc i) x') * 256 + val (take (Suc i) y) * 256 + (unat (x' ! Suc i) + unat (y ! Suc i) + unat c) =
      val (take (Suc (Suc i)) x') + val (take (Suc (Suc i)) y) + unat c"
    using val_take_Suc [of "Suc i" x'] IH(1) val_take_Suc [OF Suc.prems(3)] Suc.prems(2) by simp
  finally show ?case using IH(1,3) d by blast
qed

text \<open>Stepping to a neighbour adds or subtracts one at a byte.\<close>

lemma next6_loop_add: "i < 16 \<Longrightarrow> next6_loop i x c = add6_loop i x (replicate 16 0) c"
  by (induction i arbitrary: x c) (simp_all add: next6_loop.simps add6_loop.simps Let_def)

lemma prev6_loop_sub: "i < 16 \<Longrightarrow> prev6_loop i x c = sub6_loop i x (replicate 16 0) c"
proof (induction i arbitrary: x c)
  case 0
  then show ?case by (simp add: prev6_loop.simps sub6_loop_eq Let_def)
next
  case (Suc i)
  then show ?case by (simp add: prev6_loop.simps [of "Suc i"] sub6_loop_eq [of "Suc i"] Let_def)
qed

lemma val_zeros [simp]: "val (replicate n 0) = 0"
  by (induction n) (simp_all add: replicate_append_same [symmetric] del: replicate.simps(2), simp add: replicate_append_same [symmetric])

section \<open>The addresses of a prefix\<close>

text \<open>The specification: a \<open>cidr\<close> stands for the addresses that agree with it in the first \<open>prefix\<close> bits.\<close>

fun width :: "af \<Rightarrow> nat" where
  "width AF_INET = 32"
| "width AF_INET6 = 128"

definition num :: "cidr \<Rightarrow> nat" where
  "num a = (case family a of AF_INET \<Rightarrow> val (take 4 (addr a)) | AF_INET6 \<Rightarrow> val (addr a))"

definition wf_cidr :: "cidr \<Rightarrow> bool" where
  "wf_cidr a \<longleftrightarrow> length (addr a) = 16 \<and> unat (prefix a) \<le> width (family a)"

definition hostlen :: "cidr \<Rightarrow> nat" where
  "hostlen a = width (family a) - unat (prefix a)"

definition net_of :: "nat \<Rightarrow> nat \<Rightarrow> nat set" where
  "net_of h v = {w. w div 2 ^ h = v div 2 ^ h}"

definition addrs :: "cidr \<Rightarrow> nat set" where
  "addrs a = net_of (hostlen a) (num a)"

lemma div_eq_interval:
  fixes w n q :: nat
  assumes "0 < n"
  shows "w div n = q \<longleftrightarrow> q * n \<le> w \<and> w < (q + 1) * n"
proof
  assume "w div n = q"
  then show "q * n \<le> w \<and> w < (q + 1) * n"
    using div_mult_mod_eq [of w n] mod_less_divisor [OF assms, of w] by (auto simp: div_times_less_eq_dividend dividend_less_div_times assms)
next
  assume "q * n \<le> w \<and> w < (q + 1) * n"
  then show "w div n = q" by (intro div_nat_eqI) (simp_all add: mult.commute)
qed

lemma net_of_interval: "net_of h v = {v div 2 ^ h * 2 ^ h ..< (v div 2 ^ h + 1) * 2 ^ h}"
  by (auto simp: net_of_def div_eq_interval)

lemma net_of_subset:
  "net_of h v \<subseteq> net_of k u \<longleftrightarrow> h \<le> k \<and> v div 2 ^ k = u div 2 ^ k"
proof
  assume sub: "net_of h v \<subseteq> net_of k u"
  have v: "v \<in> net_of h v" by (simp add: net_of_def)
  then have eq: "v div 2 ^ k = u div 2 ^ k" using sub by (auto simp: net_of_def)
  have "h \<le> k"
  proof (rule ccontr)
    assume "\<not> h \<le> k"
    then have lt: "(2 :: nat) ^ k < 2 ^ h" by (intro power_strict_increasing) simp_all
    let ?lo = "v div 2 ^ h * 2 ^ h"
    have in_net: "?lo \<in> net_of h v" "?lo + 2 ^ k \<in> net_of h v" using lt by (auto simp: net_of_interval)
    note in_net [THEN subsetD [OF sub], unfolded net_of_def mem_Collect_eq]
    then have "?lo div 2 ^ k = (?lo + 2 ^ k) div 2 ^ k" by (simp only:)
    moreover have "(?lo + 2 ^ k) div 2 ^ k = ?lo div 2 ^ k + 1" by (rule div_add_self2) simp
    ultimately show False by linarith
  qed
  with eq show "h \<le> k \<and> v div 2 ^ k = u div 2 ^ k" by simp
next
  assume h: "h \<le> k \<and> v div 2 ^ k = u div 2 ^ k"
  then have p: "(2 :: nat) ^ k = 2 ^ h * 2 ^ (k - h)" by (simp add: power_add [symmetric])
  show "net_of h v \<subseteq> net_of k u"
  proof
    fix w assume "w \<in> net_of h v"
    then have "w div 2 ^ h div 2 ^ (k - h) = v div 2 ^ h div 2 ^ (k - h)" by (simp add: net_of_def)
    then have "w div 2 ^ k = v div 2 ^ k" by (simp only: p div_mult2_eq)
    with h show "w \<in> net_of k u" by (simp add: net_of_def)
  qed
qed

lemma num_bound: "wf_cidr a \<Longrightarrow> num a < 2 ^ width (family a)"
  using val_bound [of "take 4 (addr a)"] val_bound [of "addr a"]
  by (cases "family a") (simp_all add: num_def wf_cidr_def min_def)

subsection \<open>IPv4\<close>

lemma num4: "wf_cidr a \<Longrightarrow> family a = AF_INET \<Longrightarrow> num a = unat (host4 (addr a))"
  by (simp add: num_def wf_cidr_def unat_host4)

lemma unat_sub_prefix: "unat p \<le> 32 \<Longrightarrow> unat (32 - p :: u32) = 32 - unat p"
  by (subst unat_sub) (simp_all add: word_le_nat_alt)

lemma shl1_small: "0 < p \<Longrightarrow> p \<le> 32 \<Longrightarrow> shl1 c (32 - p) = 2 ^ (32 - unat p)"
proof -
  assume p: "0 < p" "p \<le> 32"
  then have u: "unat (32 - p) = 32 - unat p" "0 < unat p" by (simp_all add: unat_sub_prefix word_le_nat_alt word_less_nat_alt)
  then have "32 - p < 32" by (simp add: word_less_nat_alt)
  then show ?thesis by (simp add: shl1_def u push_bit_eq_mult)
qed

lemma hostbits4_mask: "0 < p \<Longrightarrow> p \<le> 32 \<Longrightarrow> hostbits4 c p = mask (32 - unat p)"
  by (simp add: hostbits4_def shl1_small mask_eq_exp_minus_1)

lemma contains4_bits:
  assumes "wf_cidr a" "wf_cidr b" "family a = AF_INET" "family b = AF_INET" "0 < prefix a"
  shows "s_addr c (addr a) AND htonl c (NOT (hostbits4 c (prefix a))) =
         s_addr c (addr b) AND htonl c (NOT (hostbits4 c (prefix a))) \<longleftrightarrow>
         num b div 2 ^ hostlen a = num a div 2 ^ hostlen a"
proof -
  have p: "prefix a \<le> 32" using assms(1,3) by (simp add: wf_cidr_def word_le_nat_alt)
  have l: "4 \<le> length (addr a)" "4 \<le> length (addr b)" using assms(1,2) by (simp_all add: wf_cidr_def)
  have "s_addr c (addr a) AND htonl c (NOT (hostbits4 c (prefix a))) =
         s_addr c (addr b) AND htonl c (NOT (hostbits4 c (prefix a))) \<longleftrightarrow>
        host4 (addr a) AND NOT (mask (32 - unat (prefix a))) = host4 (addr b) AND NOT (mask (32 - unat (prefix a)))"
    unfolding s_addr_host [OF l(1)] s_addr_host [OF l(2)] htonl_bits hostbits4_mask [OF assms(5) p]
    by (metis htonl_htonl)
  then show ?thesis
    using num4 [OF assms(1,3)] num4 [OF assms(2,4)] assms(3) by (auto simp: and_not_mask_eq_iff hostlen_def)
qed

lemma contains4_answer:
  assumes "wf_cidr a" "wf_cidr b" "family a = AF_INET" "family b = AF_INET"
  shows "cidr_contains4 c a b st = answer (addrs b \<subseteq> addrs a) st"
proof -
  have "addrs b \<subseteq> addrs a \<longleftrightarrow> hostlen b \<le> hostlen a \<and> num b div 2 ^ hostlen a = num a div 2 ^ hostlen a"
    by (simp add: addrs_def net_of_subset)
  moreover have "hostlen b \<le> hostlen a \<longleftrightarrow> prefix b \<ge> prefix a"
    using assms by (auto simp: hostlen_def wf_cidr_def word_le_nat_alt)
  moreover have "num b div 2 ^ hostlen a = num a div 2 ^ hostlen a" if "prefix a = 0"
    using num_bound [OF assms(1)] num_bound [OF assms(2)] assms(3,4) that by (simp add: hostlen_def)
  ultimately show ?thesis
    using contains4_bits [OF assms] by (cases "prefix a = 0") (auto simp: cidr_contains4_def word_gt_0)
qed

subsection \<open>IPv6\<close>

lemma val_prefix:
  assumes "length x = 16" and "q \<le> 15" and "r < 8"
  shows "val x div 2 ^ (8 * q + r) = val (take (15 - q) x) * 2 ^ (8 - r) + unat (x ! (15 - q)) div 2 ^ r"
proof -
  let ?n = "16 - q"
  have n: "?n = Suc (15 - q)" using assms(2) by simp
  have "val x = val (take ?n x @ drop ?n x)" by simp
  also have "\<dots> = val (take ?n x) * 256 ^ q + val (drop ?n x)"
    using assms(1,2) by (simp only: val_append) simp
  finally have v: "val x = val (take ?n x) * 256 ^ q + val (drop ?n x)" .
  have "val (drop ?n x) < 256 ^ q" using val_bound [of "drop ?n x"] assms(1,2) by simp
  then have "val x div 256 ^ q = val (take ?n x)" unfolding v by simp
  also have "\<dots> = val (take (15 - q) x) * 256 + unat (x ! (15 - q))"
    unfolding n using assms(1) by (intro val_take_Suc) simp
  finally have d: "val x div 256 ^ q = val (take (15 - q) x) * 256 + unat (x ! (15 - q))" .
  have "(2 :: nat) ^ (8 * q + r) = 256 ^ q * 2 ^ r" by (simp add: power_add power_mult)
  then have "val x div 2 ^ (8 * q + r) = (val (take (15 - q) x) * 256 + unat (x ! (15 - q))) div 2 ^ r"
    by (simp only: div_mult2_eq d)
  moreover have "(256 :: nat) = 2 ^ (8 - r) * 2 ^ r" using assms(3) by (simp add: power_add [symmetric])
  ultimately show ?thesis by (simp add: mult.assoc [symmetric])
qed

lemma byte_high: "r \<le> 8 \<Longrightarrow> unat (b :: byte) div 2 ^ r < 2 ^ (8 - r)"
proof -
  assume "r \<le> 8"
  then have "(2 :: nat) ^ (8 - r) * 2 ^ r = 256" by (simp add: power_add [symmetric])
  moreover have "unat b < 256" using unat_bound [of b] by simp
  ultimately show ?thesis by (simp add: div_less_iff_less_mult)
qed

lemma prefix_eq_iff:
  assumes "length x = 16" "length y = 16" "q \<le> 15" "r < 8"
  shows "val x div 2 ^ (8 * q + r) = val y div 2 ^ (8 * q + r) \<longleftrightarrow>
    take (15 - q) x = take (15 - q) y \<and> unat (x ! (15 - q)) div 2 ^ r = unat (y ! (15 - q)) div 2 ^ r"
proof -
  have split: "A * M + u = B * M + w \<longleftrightarrow> A = B \<and> u = w" if "u < M" "w < M" for A B M u w :: nat
    using that by (metis add_left_imp_eq div_mult_self3 div_less add.right_neutral less_nat_zero_code)
  have "val (take (15 - q) x) = val (take (15 - q) y) \<longleftrightarrow> take (15 - q) x = take (15 - q) y"
    using assms(1,2) by (auto intro: val_inj)
  then show ?thesis
    unfolding val_prefix [OF assms(1,3,4)] val_prefix [OF assms(2,3,4)]
    using assms(4) by (simp add: split byte_high)
qed

lemma hostlen6_eq: "wf_cidr a \<Longrightarrow> family a = AF_INET6 \<Longrightarrow> hostlen6 (prefix a) = hostlen a"
  by (simp add: hostlen6_def hostlen_def wf_cidr_def unat_sub word_le_nat_alt)

lemma highmask_eq: "highmask k = NOT (mask k)"
  by (simp add: highmask_def mask_eq_exp_minus_1 push_bit_eq_mult)

lemma contains6_answer:
  assumes "wf_cidr a" "wf_cidr b" "family a = AF_INET6" "family b = AF_INET6"
  shows "cidr_contains6 a b st = answer (addrs b \<subseteq> addrs a) st"
proof -
  let ?h = "hostlen a"
  let ?q = "?h div 8" and ?r = "?h mod 8"
  have n: "num a = val (addr a)" "num b = val (addr b)" using assms(3,4) by (simp_all add: num_def)
  have len: "length (addr a) = 16" "length (addr b) = 16" using assms(1,2) by (simp_all add: wf_cidr_def)
  have sub: "addrs b \<subseteq> addrs a \<longleftrightarrow> prefix b \<ge> prefix a \<and> num b div 2 ^ ?h = num a div 2 ^ ?h"
    using assms by (auto simp: addrs_def net_of_subset hostlen_def wf_cidr_def word_le_nat_alt)
  show ?thesis
  proof (cases "prefix a = 0")
    case True
    have "num b div 2 ^ ?h = num a div 2 ^ ?h"
      using num_bound [OF assms(1)] num_bound [OF assms(2)] assms(3,4) True by (simp add: hostlen_def)
    then show ?thesis using True sub by (simp add: cidr_contains6_def)
  next
    case False
    then have "?h \<le> 127" using assms(1,3) by (simp add: hostlen_def) (metis One_nat_def Suc_leI diff_le_mono2 unat_gt_0 diff_Suc_1 numeral_nat)
    then have q: "?q \<le> 15" "?q mod 16 = ?q" by simp_all
    have "?r < 8" "8 * ?q + ?r = ?h" by simp_all
    note eq = prefix_eq_iff [OF len(2,1) q(1) this(1), unfolded this(2)]
    have "addrs b \<subseteq> addrs a \<longleftrightarrow> prefix b \<ge> prefix a \<and>
        addr a ! (15 - ?q) AND highmask ?r = addr b ! (15 - ?q) AND highmask ?r \<and>
        (?q = 15 \<or> memcmp_eq (addr a) (addr b) (15 - ?q))"
      unfolding sub n eq highmask_eq and_not_mask_eq_iff memcmp_eq_def by auto
    then show ?thesis
      using False q(2) by (simp only: cidr_contains6_def Let_def hostlen6_eq [OF assms(1,3)]) simp
  qed
qed

section \<open>Results of the operations\<close>

lemma net_of_ends:
  "v div 2 ^ h * 2 ^ h \<in> net_of h v" "v div 2 ^ h * 2 ^ h + (2 ^ h - 1) \<in> net_of h v"
  "\<forall>w \<in> net_of h v. v div 2 ^ h * 2 ^ h \<le> w \<and> w \<le> v div 2 ^ h * 2 ^ h + (2 ^ h - 1)"
proof -
  define P :: nat where "P = 2 ^ h"
  define L where "L = v div P * P"
  have i: "net_of h v = {L..<L + P}" by (simp add: net_of_interval L_def P_def add.commute)
  have "0 < P" by (simp add: P_def)
  then show "v div 2 ^ h * 2 ^ h \<in> net_of h v" "v div 2 ^ h * 2 ^ h + (2 ^ h - 1) \<in> net_of h v"
    "\<forall>w \<in> net_of h v. v div 2 ^ h * 2 ^ h \<le> w \<and> w \<le> v div 2 ^ h * 2 ^ h + (2 ^ h - 1)"
    unfolding P_def [symmetric] L_def [symmetric] i by auto
qed

lemma clone_ok:
  "fst (malloc st) \<Longrightarrow> cidr_clone a st = Ret () ((snd (malloc st))\<lparr>stack := a # stack st\<rparr>)"
  by (auto simp: cidr_clone_def malloc_def cidr_push_def split: list.splits prod.splits)

lemma top_upd_pushed [simp]: "top_upd f (st\<lparr>stack := a # as\<rparr>) = st\<lparr>stack := f a # as\<rparr>"
  by simp

lemma unat_and_not_mask: "unat (w AND NOT (mask k)) = unat w div 2 ^ k * 2 ^ k" for w :: "'a::len word"
proof -
  have "unat w div 2 ^ k * 2 ^ k \<le> unat w" by (simp add: div_times_less_eq_dividend)
  then have b: "unat w div 2 ^ k * 2 ^ k < 2 ^ LENGTH('a)" using unat_bound [of w] by (rule order.strict_trans1)
  have "unat (w AND NOT (mask k)) = take_bit LENGTH('a) (push_bit k (unat w div 2 ^ k))"
    unfolding and_not_mask by (simp only: unsigned_push_bit_eq unat_drop_bit)
  then show ?thesis using b by (simp only: push_bit_eq_mult) (simp add: take_bit_nat_eq_self)
qed

lemma unat_or_mask: "unat (w OR mask k) = unat w div 2 ^ k * 2 ^ k + (2 ^ k - 1)" if "k \<le> LENGTH('a)" for w :: "'a::len word"
proof -
  have d: "(w AND NOT (mask k)) AND mask k = 0" by (rule bit_word_eqI) (auto simp: bit_simps)
  have "w OR mask k = (w AND NOT (mask k)) OR mask k" by (rule bit_word_eqI) (auto simp: bit_simps)
  also have "\<dots> = (w AND NOT (mask k)) + mask k" using disjunctive_add_eq_or [OF d] by simp
  finally have e: "w OR mask k = (w AND NOT (mask k)) + mask k" .
  have m: "unat (mask k :: 'a word) = 2 ^ k - 1"
  proof -
    have "(2 :: nat) ^ k \<le> 2 ^ LENGTH('a)" using that by (intro power_increasing) simp_all
    then have "(2 :: nat) ^ k - 1 < 2 ^ LENGTH('a)" by (rule order.strict_trans2 [rotated]) simp
    moreover have "(mask k :: 'a word) = of_nat (2 ^ k - 1)"
      by (metis of_nat_mask_eq mask_eq_exp_minus_1)
    ultimately show ?thesis by (simp only: unsigned_of_nat take_bit_nat_eq_self of_nat_id)
  qed
  have "unat (w AND NOT (mask k)) + unat (mask k :: 'a word) < 2 ^ LENGTH('a)"
  proof -
    have "unat w div 2 ^ k < 2 ^ (LENGTH('a) - k)"
      using unat_bound [of w] that by (simp add: div_less_iff_less_mult power_add [symmetric])
    then have "unat w div 2 ^ k + 1 \<le> 2 ^ (LENGTH('a) - k)" by simp
    then have "(unat w div 2 ^ k + 1) * 2 ^ k \<le> 2 ^ (LENGTH('a) - k) * 2 ^ k" by (rule mult_le_mono1)
    then have "unat w div 2 ^ k * 2 ^ k + 2 ^ k \<le> 2 ^ LENGTH('a)" using that by (simp add: power_add [symmetric])
    moreover have "(0 :: nat) < 2 ^ k" by simp
    ultimately show ?thesis unfolding unat_and_not_mask m by linarith
  qed
  then have "unat (w OR mask k) = unat (w AND NOT (mask k)) + unat (mask k :: 'a word)"
    unfolding e by (rule unat_add_lem [THEN iffD1])
  then show ?thesis by (simp only: unat_and_not_mask m)
qed

lemma clear_low_eq: "length x = 16 \<Longrightarrow> q \<le> 16 \<Longrightarrow> clear_low q x = take (16 - q) x @ replicate q 0"
proof (induction q)
  case (Suc q)
  have n: "16 - q = Suc (15 - q)" using Suc.prems(2) by simp
  have "take (16 - q) x = take (15 - q) x @ [x ! (15 - q)]"
    unfolding n using Suc.prems(1) by (intro take_Suc_conv_app_nth) simp
  then have "clear_low (Suc q) x = (take (15 - q) x @ x ! (15 - q) # replicate q 0)[15 - q := 0]"
    using Suc by simp
  also have "\<dots> = take (15 - q) x @ 0 # replicate q 0"
    using Suc.prems(1) by (simp add: list_update_append)
  finally show ?case using Suc.prems(2) by simp
qed simp

text \<open>The bytes \<open>cidr_network6\<close> computes.\<close>

lemma network6_val:
  assumes "length x = 16" and "h \<le> 128"
  defines "y \<equiv> (let q = h div 8; r = h mod 8; z = clear_low q x
                in if r \<noteq> 0 then z[15 - q := z ! (15 - q) AND highmask r] else z)"
  shows "length y = 16" "val y = val x div 2 ^ h * 2 ^ h"
proof -
  let ?q = "h div 8" and ?r = "h mod 8"
  have q: "?q \<le> 16" using assms(2) by simp
  have z: "clear_low ?q x = take (16 - ?q) x @ replicate ?q 0" using clear_low_eq [OF assms(1) q] .
  have "length y = 16 \<and> val y = val x div 2 ^ h * 2 ^ h"
  proof (cases "?r = 0")
    case True
    then have h: "h = 8 * ?q" using mult_div_mod_eq [of 8 h] by linarith
    have "(2 :: nat) ^ (8 * ?q) = 256 ^ ?q" by (simp only: power_mult) simp
    then have p: "(2 :: nat) ^ h = 256 ^ ?q" by (simp only: h [symmetric])
    have "val x = val (take (16 - ?q) x) * 256 ^ ?q + val (drop (16 - ?q) x)"
      using val_append [of "take (16 - ?q) x" "drop (16 - ?q) x"] assms(1) q by simp
    moreover have "val (drop (16 - ?q) x) < 256 ^ ?q" using val_bound [of "drop (16 - ?q) x"] assms(1) q by simp
    ultimately have "val x div 2 ^ h = val (take (16 - ?q) x)" unfolding p by simp
    then show ?thesis using True z assms(1) q unfolding y_def Let_def by (simp add: val_append p)
  next
    case False
    then have q15: "?q \<le> 15" using assms(2) q mult_div_mod_eq [of 8 h] by linarith
    have n: "16 - ?q = Suc (15 - ?q)" using q15 by simp
    have t: "take (16 - ?q) x = take (15 - ?q) x @ [x ! (15 - ?q)]"
      unfolding n using assms(1) by (intro take_Suc_conv_app_nth) simp
    have y: "y = take (15 - ?q) x @ (x ! (15 - ?q) AND NOT (mask ?r)) # replicate ?q 0"
      using False assms(1) q15 unfolding y_def Let_def z t highmask_eq by (simp add: list_update_append nth_append)
    have "val y = (val (take (15 - ?q) x) * 256 + unat (x ! (15 - ?q) AND NOT (mask ?r))) * 256 ^ ?q"
      using val_append [of "take (15 - ?q) x @ [x ! (15 - ?q) AND NOT (mask ?r)]" "replicate ?q 0"] by (simp add: y)
    also have "\<dots> = (val (take (15 - ?q) x) * 2 ^ (8 - ?r) + unat (x ! (15 - ?q)) div 2 ^ ?r) * 2 ^ h"
    proof -
      have "(2 :: nat) ^ h = 2 ^ (?r + 8 * ?q)" by simp
      also have "\<dots> = 2 ^ ?r * 256 ^ ?q" by (simp only: power_add power_mult) simp
      finally have "(2 :: nat) ^ h = 2 ^ ?r * 256 ^ ?q" .
      moreover have "(256 :: nat) = 2 ^ (8 - ?r) * 2 ^ ?r" by (simp add: power_add [symmetric])
      moreover have "(V * E + B * R) * Q = (V * M + B) * N" if "N = R * Q" "E = M * R" for V E B R Q M N :: nat
        using that by (simp add: algebra_simps)
      ultimately show ?thesis unfolding unat_and_not_mask by blast
    qed
    also have "\<dots> = val x div 2 ^ h * 2 ^ h"
      using val_prefix [OF assms(1) q15, of ?r] by simp
    finally show ?thesis using y assms(1) q15 by simp
  qed
  then show "length y = 16" "val y = val x div 2 ^ h * 2 ^ h" by simp_all
qed

lemma num_upd:
  "wf_cidr a \<Longrightarrow> family a = AF_INET \<Longrightarrow> num (a\<lparr>addr := put_s_addr c (htonl c w) (addr a), prefix := p\<rparr>) = unat w"
  using unat_host4 [of "put_s_addr c (htonl c w) (addr a)"] by (simp add: num_def wf_cidr_def)

lemma network4_result:
  assumes "wf_cidr a" "family a = AF_INET" "0 < prefix a" "fst (malloc st)"
  shows "\<exists>st' n. cidr_network4 c a st = Ret True st' \<and> stack st' = n # stack st \<and> family n = AF_INET \<and>
     prefix n = 32 \<and> num n = num a div 2 ^ hostlen a * 2 ^ hostlen a"
proof -
  have p: "prefix a \<le> 32" and l: "4 \<le> length (addr a)" using assms(1,2) by (simp_all add: wf_cidr_def word_le_nat_alt)
  let ?w = "host4 (addr a) AND NOT (mask (32 - unat (prefix a)))"
  let ?n = "a\<lparr>addr := put_s_addr c (htonl c ?w) (addr a), prefix := 32\<rparr>"
  have "cidr_network4 c a st = Ret True ((snd (malloc st))\<lparr>stack := ?n # stack st\<rparr>)"
    using assms(4) by (simp add: cidr_network4_def clone_ok s_addr_host [OF l] htonl_bits hostbits4_mask [OF assms(3) p]
        del: top_upd.simps)
  moreover have "num ?n = num a div 2 ^ hostlen a * 2 ^ hostlen a"
    using num_upd [OF assms(1,2)] num4 [OF assms(1,2)] assms(2) by (simp add: unat_and_not_mask hostlen_def)
  ultimately show ?thesis using assms(2) by (intro exI [of _ "(snd (malloc st))\<lparr>stack := ?n # stack st\<rparr>"] exI [of _ ?n]) simp
qed

lemma broadcast4_result:
  assumes "wf_cidr a" "family a = AF_INET" "0 < prefix a" "fst (malloc st)"
  shows "\<exists>st' n. cidr_broadcast4 c a st = Ret True st' \<and> stack st' = n # stack st \<and> family n = AF_INET \<and>
     prefix n = 32 \<and> num n = num a div 2 ^ hostlen a * 2 ^ hostlen a + (2 ^ hostlen a - 1)"
proof -
  have p: "prefix a \<le> 32" and l: "4 \<le> length (addr a)" using assms(1,2) by (simp_all add: wf_cidr_def word_le_nat_alt)
  let ?w = "host4 (addr a) OR mask (32 - unat (prefix a))"
  let ?n = "a\<lparr>addr := put_s_addr c (htonl c ?w) (addr a), prefix := 32\<rparr>"
  have "cidr_broadcast4 c a st = Ret True ((snd (malloc st))\<lparr>stack := ?n # stack st\<rparr>)"
    using assms(4) by (simp add: cidr_broadcast4_def clone_ok s_addr_host [OF l] htonl_bits hostbits4_mask [OF assms(3) p]
        del: top_upd.simps)
  moreover have "num ?n = num a div 2 ^ hostlen a * 2 ^ hostlen a + (2 ^ hostlen a - 1)"
    using num_upd [OF assms(1,2)] num4 [OF assms(1,2)] assms(2) by (simp add: unat_or_mask hostlen_def)
  ultimately show ?thesis using assms(2) by (intro exI [of _ "(snd (malloc st))\<lparr>stack := ?n # stack st\<rparr>"] exI [of _ ?n]) simp
qed

lemma network6_result:
  assumes "wf_cidr a" "family a = AF_INET6" "fst (malloc st)"
  shows "\<exists>st' n. cidr_network6 a st = Ret True st' \<and> stack st' = n # stack st \<and> family n = AF_INET6 \<and>
     prefix n = prefix a \<and> num n = num a div 2 ^ hostlen a * 2 ^ hostlen a"
proof -
  have h: "hostlen a \<le> 128" and l: "length (addr a) = 16" and p: "\<not> prefix a > 128"
    using assms(1,2) by (simp_all add: wf_cidr_def hostlen_def word_less_nat_alt)
  let ?h = "hostlen6 (prefix a)"
  let ?y = "let q = ?h div 8; r = ?h mod 8; z = clear_low q (addr a)
            in if r \<noteq> 0 then z[15 - q := z ! (15 - q) AND highmask r] else z"
  let ?n = "a\<lparr>addr := ?y\<rparr>"
  have "cidr_network6 a st = Ret True ((snd (malloc st))\<lparr>stack := ?n # stack st\<rparr>)"
    using assms(3) p by (simp add: cidr_network6_def clone_ok Let_def del: top_upd.simps)
  moreover have "num ?n = num a div 2 ^ hostlen a * 2 ^ hostlen a"
    using network6_val(2) [OF l h] hostlen6_eq [OF assms(1,2)] assms(2) by (simp add: num_def)
  ultimately show ?thesis using assms(2) by (intro exI [of _ "(snd (malloc st))\<lparr>stack := ?n # stack st\<rparr>"] exI [of _ ?n]) simp
qed

lemma add6_result:
  assumes "wf_cidr a" "wf_cidr b" "family a = AF_INET6" "family b = AF_INET6" "fst (malloc st)"
  shows "\<exists>st' n. cidr_add6 a b st = Ret (num a + num b < 2 ^ 128) st' \<and> stack st' = n # stack st \<and>
     family n = AF_INET6 \<and> prefix n = prefix a \<and> length (addr n) = 16 \<and> num n = (num a + num b) mod 2 ^ 128"
proof -
  obtain x k where lp: "add6_loop 15 (addr a) (addr b) 0 = (x, k)" by fastforce
  have len: "length (addr a) = 16" "length (addr b) = 16" using assms(1,2) by (simp_all add: wf_cidr_def)
  have f: "length x = 16" "unat k \<le> 1" "val x + unat k * 2 ^ 128 = num a + num b"
    using add6_loop_val [OF lp] len assms(3,4) by (auto simp: num_def)
  have "val x < 2 ^ 128" using val_bound [of x] f(1) by simp
  then have r: "k = 0 \<longleftrightarrow> num a + num b < 2 ^ 128" "val x = (num a + num b) mod 2 ^ 128"
    using f(2,3) unat_eq_zero [of k] by (auto simp flip: f(3))
  let ?n = "a\<lparr>addr := x\<rparr>"
  have "cidr_add6 a b st = Ret (k = 0) ((snd (malloc st))\<lparr>stack := ?n # stack st\<rparr>)"
    using assms(3-5) lp by (simp add: cidr_add6_def clone_ok del: top_upd.simps)
  then show ?thesis
    using r f(1) assms(3) by (intro exI [of _ "(snd (malloc st))\<lparr>stack := ?n # stack st\<rparr>"] exI [of _ ?n]) (simp add: num_def)
qed

lemma sub6_result:
  assumes "wf_cidr a" "wf_cidr b" "family a = AF_INET6" "family b = AF_INET6" "fst (malloc st)"
  shows "\<exists>st' n. cidr_sub6 a b st = Ret (num b \<le> num a) st' \<and> stack st' = n # stack st \<and>
     family n = AF_INET6 \<and> prefix n = prefix a \<and> length (addr n) = 16 \<and> (num n + num b) mod 2 ^ 128 = num a"
proof -
  obtain x k where lp: "sub6_loop 15 (addr a) (addr b) 0 = (x, k)" by fastforce
  have len: "length (addr a) = 16" "length (addr b) = 16" using assms(1,2) by (simp_all add: wf_cidr_def)
  have f: "length x = 16" "unat k \<le> 1" "num a + unat k * 2 ^ 128 = val x + num b"
    using sub6_loop_val [OF lp] len assms(3,4) by (auto simp: num_def)
  have "val x < 2 ^ 128" "num a < 2 ^ 128" "num b < 2 ^ 128"
    using val_bound [of x] f(1) num_bound [OF assms(1)] num_bound [OF assms(2)] assms(3,4) by simp_all
  then have r: "unat k = 0 \<longleftrightarrow> num b \<le> num a" "(val x + num b) mod 2 ^ 128 = num a"
    using f(2) f(3) [symmetric] by (cases "unat k = 0"; simp)+
  let ?n = "a\<lparr>addr := x\<rparr>"
  have "cidr_sub6 a b st = Ret (k = 0) ((snd (malloc st))\<lparr>stack := ?n # stack st\<rparr>)"
    using assms(3-5) lp by (simp add: cidr_sub6_def clone_ok del: top_upd.simps)
  then show ?thesis
    using r f(1) assms(3) unat_eq_zero [of k]
    by (intro exI [of _ "(snd (malloc st))\<lparr>stack := ?n # stack st\<rparr>"] exI [of _ ?n]) (simp add: num_def)
qed

lemma prefix_idx_eq: "0 < p \<Longrightarrow> p \<le> 128 \<Longrightarrow> prefix_idx p = (unat p - 1) div 8 \<and> prefix_idx p < 16"
proof -
  assume p: "0 < p" "p \<le> 128"
  have u: "unat (p - 1) = unat p - 1" using unat_pred_greater [OF p(1)] .
  have b: "unat p \<le> 128" using p(2) by (simp add: word_le_nat_alt)
  have "unat ((p - 1) div 8) = (unat p - 1) div 8" by (simp only: unat_div u) simp
  moreover have "(unat p - 1) div 8 < 16" using b by simp
  ultimately show ?thesis by (simp add: prefix_idx_def unsigned_ucast_eq take_bit_nat_eq_self)
qed

lemma next6_result:
  assumes "wf_cidr a" "family a = AF_INET6" "0 < prefix b" "prefix b \<le> 128" "fst (malloc st)"
    and s: "s = 2 ^ (128 - 8 * ((unat (prefix b) + 7) div 8))"
  shows "\<exists>st' n. cidr_next6 a b st = Ret (num a + s < 2 ^ 128) st' \<and> stack st' = n # stack st \<and>
     length (addr n) = 16 \<and> num n = (num a + s) mod 2 ^ 128 \<and>
     (num a + s < 2 ^ 128 \<longrightarrow> prefix n = prefix b)"
proof -
  let ?i = "prefix_idx (prefix b)"
  have i: "?i < 16" "?i = (unat (prefix b) - 1) div 8" using prefix_idx_eq [OF assms(3,4)] by simp_all
  have pb: "0 < unat (prefix b)" using assms(3) by (simp add: word_less_nat_alt)
  have "(unat (prefix b) + 7) div 8 = Suc ?i" using pb i(2) by (cases "unat (prefix b)") simp_all
  then have "s = 2 ^ (8 * (15 - ?i))" using s i(1) by simp
  also have "\<dots> = 256 ^ (15 - ?i)" by (simp only: power_mult) simp
  finally have s2: "s = 256 ^ (15 - ?i)" .
  obtain x k where lp: "next6_loop ?i (addr a) 1 = (x, k)" by fastforce
  have len: "length (addr a) = 16" using assms(1) by (simp add: wf_cidr_def)
  note lp' = lp [unfolded next6_loop_add [OF i(1)]]
  have f: "length x = 16" "drop (Suc ?i) x = drop (Suc ?i) (addr a)" "unat k \<le> 1"
    "val (take (Suc ?i) x) + unat k * 256 ^ Suc ?i = val (take (Suc ?i) (addr a)) + 1"
    using add6_loop_val [OF lp'] len i(1) val_zeros [of "Suc ?i"] by (simp_all add: take_replicate)
  have split: "val z = val (take (Suc ?i) z) * s + val (drop (Suc ?i) z)" if "length z = 16" for z
    using val_append [of "take (Suc ?i) z" "drop (Suc ?i) z"] that by (simp add: s2)
  have "val x + unat k * 2 ^ 128 = (val (take (Suc ?i) x) + unat k * 256 ^ Suc ?i) * s + val (drop (Suc ?i) x)"
  proof -
    have "(256 :: nat) ^ Suc ?i * s = 256 ^ (Suc ?i + (15 - ?i))" by (simp only: s2 power_add)
    also have "\<dots> = 2 ^ 128" using i(1) by simp
    finally have "(256 :: nat) ^ Suc ?i * s = 2 ^ 128" .
    then show ?thesis using split [OF f(1)] by (simp only: distrib_right mult.assoc)
  qed
  also have "\<dots> = val (addr a) + s" unfolding f(4) f(2) using split [OF len] by simp
  finally have e: "val x + unat k * 2 ^ 128 = num a + s" using assms(2) by (simp add: num_def)
  have "val x < 2 ^ 128" using val_bound [of x] f(1) by simp
  then have r: "k = 0 \<longleftrightarrow> num a + s < 2 ^ 128" "val x = (num a + s) mod 2 ^ 128"
    using f(3) e unat_eq_zero [of k] by (auto simp flip: e)
  let ?n = "if k = 0 then a\<lparr>addr := x, prefix := prefix b\<rparr> else a\<lparr>addr := x\<rparr>"
  have "cidr_next6 a b st = Ret (k = 0) ((snd (malloc st))\<lparr>stack := ?n # stack st\<rparr>)"
    using assms(3,5) i(1) lp by (simp add: cidr_next6_def clone_ok word_gt_0 del: top_upd.simps)
  then show ?thesis
    using r f(1) assms(2) by (intro exI [of _ "(snd (malloc st))\<lparr>stack := ?n # stack st\<rparr>"] exI [of _ ?n]) (simp add: num_def)
qed

section \<open>Properties\<close>

definition ex_cpu :: cpu where
  "ex_cpu = \<lparr>little = True, shl_out = (\<lambda>k. push_bit (unat k mod 32) 1), ulong_max = 2 ^ 64 - 1\<rparr>"

definition ex_owip :: owip where
  "ex_owip = \<lparr>stack = [], quiet = False, printed = False, out = [], mallocs = []\<rparr>"

definition v4 :: "byte list \<Rightarrow> u32 \<Rightarrow> cidr" where
  "v4 bs p = \<lparr>family = AF_INET, prefix = p, addr = bs @ replicate 12 0\<rparr>"

definition v6 :: "byte list \<Rightarrow> byte list \<Rightarrow> u32 \<Rightarrow> cidr" where
  "v6 hi lo p = \<lparr>family = AF_INET6, prefix = p, addr = hi @ replicate (16 - length hi - length lo) 0 @ lo\<rparr>"

lemma num_v6:
  "length hi + length lo \<le> 16 \<Longrightarrow> num (v6 hi lo p) = val hi * 256 ^ (16 - length hi) + val lo"
  by (simp add: num_def v6_def val_append power_add [symmetric])

text \<open>C6: the \<open>contains\<close> test of \<open>owipcalc\<close> decides containment of address sets: for two well-formed IPv4
  prefixes, and for two IPv6 prefixes, it answers true exactly when every address of the argument is an address of
  the base, on a machine of either byte order and for every prefix length, 0 included.\<close>

theorem owip_contains_refines:
  assumes "wf_cidr a" and "wf_cidr b" and "family a = family b"
  shows "(case family a of AF_INET \<Rightarrow> cidr_contains4 c a b st | AF_INET6 \<Rightarrow> cidr_contains6 a b st) =
     answer (addrs b \<subseteq> addrs a) st"
  using assms contains4_answer [OF assms(1,2)] contains6_answer [OF assms(1,2)] by (cases "family a") auto

theorem owip_contains_refines_witness:
  "answer (addrs (v4 [10, 1, 2, 0] 24) \<subseteq> addrs (v4 [10, 1, 0, 0] 16)) ex_owip =
     cidr_contains4 ex_cpu (v4 [10, 1, 0, 0] 16) (v4 [10, 1, 2, 0] 24) ex_owip"
  using owip_contains_refines [of "v4 [10, 1, 0, 0] 16" "v4 [10, 1, 2, 0] 24" ex_cpu ex_owip]
  by (simp add: wf_cidr_def v4_def)

text \<open>\<open>network\<close> pushes the lowest and \<open>broadcast\<close> the highest address of the prefix, for IPv4 prefixes of
  length 1 to 32; \<open>network\<close> of an IPv6 prefix does so for every length. The base stays below on the
  stack.\<close>

theorem owip_network_bounds:
  assumes "wf_cidr a" and "fst (malloc st)" and "family a = AF_INET \<longrightarrow> 0 < prefix a"
  shows "(\<exists>st' n. (case family a of AF_INET \<Rightarrow> cidr_network4 c a st | AF_INET6 \<Rightarrow> cidr_network6 a st) = Ret True st' \<and>
       stack st' = n # stack st \<and> num n \<in> addrs a \<and> (\<forall>v \<in> addrs a. num n \<le> v)) \<and>
     (family a = AF_INET \<longrightarrow> (\<exists>st' n. cidr_broadcast4 c a st = Ret True st' \<and>
       stack st' = n # stack st \<and> num n \<in> addrs a \<and> (\<forall>v \<in> addrs a. v \<le> num n)))"
proof (cases "family a")
  case AF_INET
  then have p: "0 < prefix a" using assms(3) by simp
  obtain s1 n1 where "cidr_network4 c a st = Ret True s1" "stack s1 = n1 # stack st"
    "num n1 = num a div 2 ^ hostlen a * 2 ^ hostlen a"
    using network4_result [OF assms(1) AF_INET p assms(2)] by blast
  moreover obtain s2 n2 where "cidr_broadcast4 c a st = Ret True s2" "stack s2 = n2 # stack st"
    "num n2 = num a div 2 ^ hostlen a * 2 ^ hostlen a + (2 ^ hostlen a - 1)"
    using broadcast4_result [OF assms(1) AF_INET p assms(2)] by blast
  ultimately show ?thesis using net_of_ends [where v = "num a" and h = "hostlen a"] AF_INET by (auto simp: addrs_def)
next
  case AF_INET6
  obtain s1 n1 where "cidr_network6 a st = Ret True s1" "stack s1 = n1 # stack st"
    "num n1 = num a div 2 ^ hostlen a * 2 ^ hostlen a"
    using network6_result [OF assms(1) AF_INET6 assms(2)] by blast
  then show ?thesis using net_of_ends [where v = "num a" and h = "hostlen a"] AF_INET6 by (auto simp: addrs_def)
qed

theorem owip_network_bounds_witness:
  "\<exists>st' n. cidr_broadcast4 ex_cpu (v4 [192, 168, 1, 1] 24) ex_owip = Ret True st' \<and> stack st' = [n] \<and>
     num n \<in> addrs (v4 [192, 168, 1, 1] 24)"
  using owip_network_bounds [of "v4 [192, 168, 1, 1] 24" ex_owip ex_cpu]
  by (simp add: wf_cidr_def v4_def ex_owip_def malloc_def) blast

text \<open>C37: \<open>add\<close> and \<open>sub\<close> on IPv6 addresses are addition and subtraction of 128-bit numbers done byte by byte:
  the new top of the stack is the sum or difference modulo \<open>2 ^ 128\<close>, and the operation succeeds exactly
  when there is no overflow or underflow.\<close>

theorem owip_arith6_exact:
  assumes "wf_cidr a" and "wf_cidr b" and "family a = AF_INET6" and "family b = AF_INET6" and "fst (malloc st)"
  shows "(\<exists>st' n. cidr_add6 a b st = Ret (num a + num b < 2 ^ 128) st' \<and> stack st' = n # stack st \<and>
       prefix n = prefix a \<and> num n = (num a + num b) mod 2 ^ 128) \<and>
     (\<exists>st' n. cidr_sub6 a b st = Ret (num b \<le> num a) st' \<and> stack st' = n # stack st \<and>
       prefix n = prefix a \<and> (num n + num b) mod 2 ^ 128 = num a)"
  using add6_result [OF assms] sub6_result [OF assms] by blast

theorem owip_arith6_exact_witness:
  "\<exists>st' n. cidr_add6 (v6 [0x20, 1] [0xff, 0xff] 128) (v6 [] [1] 128) ex_owip = Ret True st' \<and> stack st' = [n] \<and>
     num n = num (v6 [0x20, 1] [1, 0, 0] 128)"
proof -
  let ?a = "v6 [0x20, 1] [0xff, 0xff] 128" and ?b = "v6 [] [1] 128"
  have n: "num ?a + num ?b = num (v6 [0x20, 1] [1, 0, 0] 128)" "num (v6 [0x20, 1] [1, 0, 0] 128) < 2 ^ 128"
    by (simp_all add: num_v6) (simp_all add: val_def)
  have "wf_cidr ?a" "wf_cidr ?b" "family ?a = AF_INET6" "family ?b = AF_INET6" "fst (malloc ex_owip)"
    by (simp_all add: wf_cidr_def v6_def malloc_def ex_owip_def)
  from owip_arith6_exact [OF this] n show ?thesis by (auto simp: ex_owip_def)
qed

text \<open>\<open>next\<close> on an IPv6 address steps by whole bytes: it adds \<open>2 ^ (128 - 8 * k)\<close> where \<open>k\<close> is the number of
  bytes the prefix length reaches into. That is the next prefix of the given length exactly when the
  length is a multiple of 8.\<close>

theorem owip_next6_step:
  assumes "wf_cidr a" and "family a = AF_INET6" and "0 < prefix b" and "prefix b \<le> 128" and "fst (malloc st)"
  shows "\<exists>st' n s. cidr_next6 a b st = Ret (num a + s < 2 ^ 128) st' \<and> stack st' = n # stack st \<and>
     num n = (num a + s) mod 2 ^ 128 \<and> s = 2 ^ (128 - 8 * ((unat (prefix b) + 7) div 8)) \<and>
     (s = 2 ^ (128 - unat (prefix b)) \<longleftrightarrow> 8 dvd unat (prefix b))"
proof -
  let ?p = "unat (prefix b)"
  have "?p \<le> 128" using assms(4) by (simp add: word_le_nat_alt)
  then have "(2 :: nat) ^ (128 - 8 * ((?p + 7) div 8)) = 2 ^ (128 - ?p) \<longleftrightarrow> 128 - 8 * ((?p + 7) div 8) = 128 - ?p"
    by simp
  also have "\<dots> \<longleftrightarrow> 8 dvd ?p" using \<open>?p \<le> 128\<close> by presburger
  finally show ?thesis using next6_result [OF assms refl] by blast
qed

theorem owip_next6_step_witness:
  "\<exists>st' n s. cidr_next6 (v6 [0x20, 1] [] 60) (v6 [] [] 60) ex_owip = Ret (num (v6 [0x20, 1] [] 60) + s < 2 ^ 128) st' \<and>
     stack st' = [n] \<and> s = 2 ^ 64"
proof -
  let ?a = "v6 [0x20, 1] [] 60"
  have "wf_cidr ?a" "family ?a = AF_INET6" "0 < prefix (v6 [] [] 60)" "prefix (v6 [] [] 60) \<le> 128" "fst (malloc ex_owip)"
    by (simp_all add: wf_cidr_def v6_def malloc_def ex_owip_def)
  from owip_next6_step [OF this] show ?thesis by (auto simp: ex_owip_def v6_def)
qed

text \<open>\<open>next\<close> on an IPv4 address adds to the address in network byte order without conversion. On a big-endian
  machine the result is the next prefix; on a little-endian one the carry out of an octet goes to the
  octet behind it: the prefix after 10.0.255.0/24 is 10.0.0.1/24 instead of 10.1.0.0/24.\<close>

theorem owip_next4_carry:
  assumes "fst (malloc st)"
  shows "cidr_next4 c (v4 [10, 0, 255, 0] 24) (v4 [0, 0, 0, 24] 24) st =
     Ret True ((snd (malloc st))\<lparr>stack :=
       v4 (if little c then [10, 0, 0, 1] else [10, 1, 0, 0]) 24 # stack st\<rparr>)"
proof -
  have "shl1 c (32 - 24) = 256" by (simp add: shl1_def)
  then have "put_s_addr c (s_addr c ([10, 0, 255, 0] @ replicate 12 0) + htonl c (shl1 c (32 - 24)))
      ([10, 0, 255, 0] @ replicate 12 0) = (if little c then [10, 0, 0, 1] else [10, 1, 0, 0]) @ replicate 12 0"
    by (simp add: put_s_addr_def s_addr_def htonl_def le32_bytes_def)
  then show ?thesis
    using assms by (simp add: cidr_next4_def clone_ok v4_def del: top_upd.simps)
qed

theorem owip_next4_carry_witness:
  "\<exists>st'. cidr_next4 ex_cpu (v4 [10, 0, 255, 0] 24) (v4 [0, 0, 0, 24] 24) ex_owip = Ret True st' \<and>
     stack st' = [v4 [10, 0, 0, 1] 24]"
  using owip_next4_carry [of ex_owip ex_cpu] by (simp add: malloc_def ex_owip_def ex_cpu_def)

text \<open>\<open>6to4\<close> takes the IPv4 address without conversion to host byte order. On a big-endian machine the
  result is \<open>2002:\<close> followed by the address; on a little-endian one its octets come out reversed.\<close>

lemma owip_6to4_octets:
  assumes "fst (malloc st)" and "4 \<le> length (addr a)"
  shows "\<exists>st' n. cidr_6to4 c a st = Ret True st' \<and> stack st' = n # stack st \<and> family n = AF_INET6 \<and> prefix n = 48 \<and>
     addr n = [0x20, 0x02] @ (if little c then rev (take 4 (addr a)) else take 4 (addr a)) @ replicate 10 0"
proof -
  let ?x = "s_addr c (addr a)"
  have ff: "(0xFF :: u32) = mask 8" by (simp add: mask_eq_exp_minus_1)
  have "ucast (w AND 0xFF) = (ucast w :: byte)" for w :: u32
    unfolding ff by (rule bit_word_eqI) (auto simp: bit_simps)
  then have "[ucast (drop_bit 24 ?x), ucast (drop_bit 16 ?x AND 0xFF), ucast (drop_bit 8 ?x AND 0xFF), ucast (?x AND 0xFF)] =
      rev (le32_bytes ?x)" by (simp add: le32_bytes_def)
  moreover obtain p q r s t where bs: "addr a = p # q # r # s # t" using assms(2) by (rule list4)
  then have "rev (le32_bytes ?x) = (if little c then rev (take 4 (addr a)) else take 4 (addr a))"
    using le32_bytes_of [of p q r s t] le32_bytes_of [of s r q p "[]"] by (simp only: s_addr_def bs) simp
  ultimately show ?thesis
    using assms(1) by (simp add: cidr_6to4_def clone_ok Let_def del: top_upd.simps)
qed

end
