(* ===== verification/C_Numbers.thy ===== *)
theory C_Numbers
  imports Bmt_Prelude
begin

text \<open>
  Numbers in C strings: the function \<open>strtoul\<close> of the C library, used by \<open>owipcalc\<close> and \<open>nvram\<close>.
\<close>

section \<open>Numbers\<close>

definition is_space :: "char \<Rightarrow> bool" where
  "is_space ch \<longleftrightarrow> ch \<in> set [CHR '' '', CHR 0x09, CHR 0x0A, CHR 0x0B, CHR 0x0C, CHR 0x0D]"

definition digit_of :: "char \<Rightarrow> nat option" where
  "digit_of ch =
     (let n = of_char ch :: nat
      in if 48 \<le> n \<and> n \<le> 57 then Some (n - 48)
         else if 65 \<le> n \<and> n \<le> 90 then Some (n - 55)
         else if 97 \<le> n \<and> n \<le> 122 then Some (n - 87)
         else None)"

definition is_digit :: "nat \<Rightarrow> char \<Rightarrow> bool" where
  "is_digit base ch \<longleftrightarrow> (case digit_of ch of None \<Rightarrow> False | Some d \<Rightarrow> d < base)"

fun digits_val :: "nat \<Rightarrow> int \<Rightarrow> string \<Rightarrow> int" where
  "digits_val base acc [] = acc"
| "digits_val base acc (ch # s) = digits_val base (acc * int base + (case digit_of ch of None \<Rightarrow> 0 | Some d \<Rightarrow> int d)) s"

text \<open>\<open>strtoul(s, &r, base)\<close> for the bases 0 and 10: the value and the rest \<open>r\<close>. Without any digit the
  rest is \<open>s\<close>. A value above \<open>ULONG_MAX\<close>, here \<open>ulmax\<close>, is replaced by it; a minus sign negates modulo the range.\<close>

definition strtoul :: "int \<Rightarrow> nat \<Rightarrow> string \<Rightarrow> int \<times> string" where
  "strtoul ulmax base0 s =
     (let s1 = dropWhile is_space s;
          neg = (s1 \<noteq> [] \<and> hd s1 = CHR ''-'');
          s2 = (if s1 \<noteq> [] \<and> (hd s1 = CHR ''-'' \<or> hd s1 = CHR ''+'') then tl s1 else s1);
          hex = (base0 = 0 \<and> length s2 > 2 \<and> s2 ! 0 = CHR ''0'' \<and> (s2 ! 1 = CHR ''x'' \<or> s2 ! 1 = CHR ''X'') \<and>
                 is_digit 16 (s2 ! 2));
          base = (if base0 \<noteq> 0 then base0 else if hex then 16
                  else if s2 \<noteq> [] \<and> hd s2 = CHR ''0'' then 8 else 10);
          s3 = (if hex then drop 2 s2 else s2);
          ds = takeWhile (is_digit base) s3;
          v = digits_val base 0 ds
      in if ds = [] then (0, s)
         else (if v > ulmax then ulmax
               else if neg then (ulmax + 1 - v) mod (ulmax + 1) else v,
               drop (length ds) s3))"

end
