(* ===== verification/Owip_Main.thy ===== *)
theory Owip_Main
  imports Owip_Cidr C_Numbers
begin

text \<open>
  The front end of \<open>owipcalc\<close>: parsing of addresses and numbers (\<open>owipcalc.c\<close>), the table of
  operations and the interpreter of the command line (\<open>main.c\<close>).
\<close>

section \<open>Addresses\<close>

text \<open>The text before the first slash, and the text behind it if there is one.\<close>

definition split_slash :: "string \<Rightarrow> string \<times> string option" where
  "split_slash s =
     (let b = takeWhile (\<lambda>ch. ch \<noteq> CHR ''/'') s
      in (b, if CHR ''/'' \<in> set s then Some (drop (length b + 1) s) else None))"

fun popcount_loop :: "nat \<Rightarrow> u32 \<Rightarrow> u32 \<Rightarrow> u32" where
  "popcount_loop 0 w acc = acc"
| "popcount_loop (Suc k) w acc = (if w = 0 then acc else popcount_loop k (drop_bit 1 w) (acc + (w AND 1)))"

text \<open>The prefix behind the slash, \<open>None\<close> for an error. The value of \<open>strtoul\<close> is stored in 32 bits
  before it is compared. Thirty-two rounds empty the mask.\<close>

definition parse_prefix4 :: "cpu \<Rightarrow> inet \<Rightarrow> string \<Rightarrow> u32 option" where
  "parse_prefix4 c lib p =
     (if CHR ''.'' \<in> set p
      then (case pton4 lib p of None \<Rightarrow> None | Some m \<Rightarrow> Some (popcount_loop 32 (s_addr c m) 0))
      else let (v, r) = strtoul (ulong_max c) 10 p; w = (word_of_int v :: u32)
           in if r = p \<or> r \<noteq> [] \<or> w > 32 then None else Some w)"

text \<open>Bytes of the union that are not assigned are taken as zeros.\<close>

definition cidr_parse4 :: "cpu \<Rightarrow> inet \<Rightarrow> string \<Rightarrow> owip \<Rightarrow> cidr option \<times> owip" where
  "cidr_parse4 c lib s st =
     (let (ok, st1) = malloc st
      in if \<not> ok \<or> length s \<ge> 33 then (None, st1)
         else let (b, p) = split_slash s
         in case (case p of None \<Rightarrow> Some 32 | Some q \<Rightarrow> parse_prefix4 c lib q) of
              None \<Rightarrow> (None, st1)
            | Some pl \<Rightarrow>
                case (if b = [] \<and> p \<noteq> None then Some (replicate 4 0) else pton4 lib b) of
                  None \<Rightarrow> (None, st1)
                | Some v \<Rightarrow> (Some \<lparr>family = AF_INET, prefix = pl, addr = v @ replicate 12 0\<rparr>, st1))"

definition parse_prefix6 :: "cpu \<Rightarrow> string \<Rightarrow> u32 option" where
  "parse_prefix6 c p =
     (let (v, r) = strtoul (ulong_max c) 10 p; w = (word_of_int v :: u32)
      in if r = p \<or> r \<noteq> [] \<or> w > 128 then None else Some w)"

definition cidr_parse6 :: "cpu \<Rightarrow> inet \<Rightarrow> string \<Rightarrow> owip \<Rightarrow> cidr option \<times> owip" where
  "cidr_parse6 c lib s st =
     (let (ok, st1) = malloc st
      in if \<not> ok \<or> length s \<ge> 51 then (None, st1)
         else let (b, p) = split_slash s
         in case (case p of None \<Rightarrow> Some 128 | Some q \<Rightarrow> parse_prefix6 c q) of
              None \<Rightarrow> (None, st1)
            | Some pl \<Rightarrow>
                case (if b = [] \<and> p \<noteq> None then Some (replicate 16 0) else pton6 lib b) of
                  None \<Rightarrow> (None, st1)
                | Some v \<Rightarrow> (Some \<lparr>family = AF_INET6, prefix = pl, addr = v\<rparr>, st1))"

text \<open>The bytes of a number in the low end of an IPv6 address.\<close>

fun num_bytes :: "nat \<Rightarrow> u32 \<Rightarrow> byte list" where
  "num_bytes 0 w = []"
| "num_bytes (Suc k) w = num_bytes k (drop_bit 8 w) @ [ucast (w mod 256)]"

definition cidr_parse :: "cpu \<Rightarrow> inet \<Rightarrow> string \<Rightarrow> af \<Rightarrow> owip \<Rightarrow> cidr option outcome" where
  "cidr_parse c lib s af_hint st =
     (let (v, r) = strtoul (ulong_max c) 0 s; total = (word_of_int v :: u32)
      in if r \<noteq> s \<and> r = [] then
           let (ok, st1) = malloc st
           in if \<not> ok then Ret None st1
              else if af_hint = AF_INET
              then Ret (Some \<lparr>family = AF_INET, prefix = total,
                         addr = put_s_addr c (htonl c total) (replicate 16 0)\<rparr>) st1
              else Ret (Some \<lparr>family = AF_INET6, prefix = total, addr = num_bytes 16 total\<rparr>) st1
         else let (a, st1) = (if CHR '':'' \<in> set s then cidr_parse6 c lib s st else cidr_parse4 c lib s st)
         in case a of
              None \<Rightarrow> Ret None st1
            | Some x \<Rightarrow> if family x \<noteq> af_hint then Exit 4 st1 else Ret (Some x) st1)"

section \<open>The operations\<close>

record op =
  op_name :: string
  f4_a1 :: "(cidr \<Rightarrow> owip \<Rightarrow> bool outcome) option"
  f4_a2 :: "(cidr \<Rightarrow> cidr \<Rightarrow> owip \<Rightarrow> bool outcome) option"
  f6_a1 :: "(cidr \<Rightarrow> owip \<Rightarrow> bool outcome) option"
  f6_a2 :: "(cidr \<Rightarrow> cidr \<Rightarrow> owip \<Rightarrow> bool outcome) option"

definition ops :: "cpu \<Rightarrow> inet \<Rightarrow> op list" where
  "ops c lib =
     [\<lparr>op_name = ''add'', f4_a1 = None, f4_a2 = Some (cidr_add4 c), f6_a1 = None, f6_a2 = Some cidr_add6\<rparr>,
      \<lparr>op_name = ''sub'', f4_a1 = None, f4_a2 = Some (cidr_sub4 c), f6_a1 = None, f6_a2 = Some cidr_sub6\<rparr>,
      \<lparr>op_name = ''next'', f4_a1 = None, f4_a2 = Some (cidr_next4 c), f6_a1 = None, f6_a2 = Some cidr_next6\<rparr>,
      \<lparr>op_name = ''prev'', f4_a1 = None, f4_a2 = Some (cidr_prev4 c), f6_a1 = None, f6_a2 = Some cidr_prev6\<rparr>,
      \<lparr>op_name = ''network'', f4_a1 = Some (cidr_network4 c), f4_a2 = None, f6_a1 = Some cidr_network6, f6_a2 = None\<rparr>,
      \<lparr>op_name = ''broadcast'', f4_a1 = Some (cidr_broadcast4 c), f4_a2 = None, f6_a1 = None, f6_a2 = None\<rparr>,
      \<lparr>op_name = ''prefix'', f4_a1 = None, f4_a2 = Some cidr_prefix, f6_a1 = None, f6_a2 = Some cidr_prefix\<rparr>,
      \<lparr>op_name = ''netmask'', f4_a1 = Some (cidr_netmask4 c), f4_a2 = None, f6_a1 = None, f6_a2 = None\<rparr>,
      \<lparr>op_name = ''6to4'', f4_a1 = Some (cidr_6to4 c), f4_a2 = None, f6_a1 = None, f6_a2 = None\<rparr>,
      \<lparr>op_name = ''howmany'', f4_a1 = None, f4_a2 = Some (cidr_howmany c), f6_a1 = None, f6_a2 = Some (cidr_howmany c)\<rparr>,
      \<lparr>op_name = ''contains'', f4_a1 = None, f4_a2 = Some (cidr_contains4 c), f6_a1 = None, f6_a2 = Some cidr_contains6\<rparr>,
      \<lparr>op_name = ''private'', f4_a1 = Some (cidr_private4 c), f4_a2 = None, f6_a1 = None, f6_a2 = None\<rparr>,
      \<lparr>op_name = ''linklocal'', f4_a1 = Some (cidr_linklocal4 c), f4_a2 = None, f6_a1 = Some cidr_linklocal6, f6_a2 = None\<rparr>,
      \<lparr>op_name = ''ula'', f4_a1 = None, f4_a2 = None, f6_a1 = Some cidr_ula6, f6_a2 = None\<rparr>,
      \<lparr>op_name = ''quiet'', f4_a1 = Some cidr_quiet, f4_a2 = None, f6_a1 = Some cidr_quiet, f6_a2 = None\<rparr>,
      \<lparr>op_name = ''pop'', f4_a1 = Some cidr_pop, f4_a2 = None, f6_a1 = Some cidr_pop, f6_a2 = None\<rparr>,
      \<lparr>op_name = ''print'', f4_a1 = Some (\<lambda>a. cidr_print4 lib (Some a)), f4_a2 = None,
       f6_a1 = Some (\<lambda>a. cidr_print6 lib (Some a)), f6_a2 = None\<rparr>]"

text \<open>One call of \<open>runop\<close>: whether it returned true, the status and the arguments left. \<open>status\<close> keeps its
  value when no operation is run.\<close>

definition runop2 :: "cpu \<Rightarrow> inet \<Rightarrow> op \<Rightarrow> string list \<Rightarrow> int \<Rightarrow> owip \<Rightarrow> (bool \<times> int \<times> string list) outcome" where
  "runop2 c lib q arg status st =
     (case tl arg of
        [] \<Rightarrow> Ret (False, 2, arg) st
      | arg2 # rest \<Rightarrow>
          (case stack st of
             [] \<Rightarrow> Undef
           | a # _ \<Rightarrow> bind_out (cidr_parse c lib arg2 (family a) st) (\<lambda>r st1.
               case r of
                 None \<Rightarrow> Ret (False, 3, arg) st1
               | Some b \<Rightarrow>
                   (case (if family a = AF_INET then f4_a2 q else f6_a2 q) of
                      None \<Rightarrow> Ret (False, 5, rest) st1
                    | Some f \<Rightarrow> bind_out (f a b st1) (\<lambda>ok st2. Ret (True, if ok then 0 else 1, rest) st2)))))"

definition runop1 :: "op \<Rightarrow> string list \<Rightarrow> int \<Rightarrow> owip \<Rightarrow> (bool \<times> int \<times> string list) outcome" where
  "runop1 q arg status st =
     (case stack st of
        [] \<Rightarrow> Undef
      | a # _ \<Rightarrow>
          (case (if family a = AF_INET then f4_a1 q else f6_a1 q) of
             None \<Rightarrow> Ret (False, 5, tl arg) st
           | Some f \<Rightarrow> bind_out (f a st) (\<lambda>ok st1. Ret (True, if ok then 0 else 1, tl arg) st1)))"

definition runop :: "cpu \<Rightarrow> inet \<Rightarrow> string list \<Rightarrow> int \<Rightarrow> owip \<Rightarrow> (bool \<times> int \<times> string list) outcome" where
  "runop c lib arg status st =
     (case arg of
        [] \<Rightarrow> Ret (False, status, arg) st
      | arg1 # _ \<Rightarrow>
          (case find (\<lambda>q. op_name q = arg1) (ops c lib) of
             None \<Rightarrow> Ret (False, status, arg) st
           | Some q \<Rightarrow> if f4_a2 q \<noteq> None \<or> f6_a2 q \<noteq> None then runop2 c lib q arg status st
                       else runop1 q arg status st))"

lemma bind_out_Ret: "bind_out m f = Ret y s \<longleftrightarrow> (\<exists>z t. m = Ret z t \<and> f z t = Ret y s)"
  by (cases m) auto

lemma runop1_args: "runop1 q arg status st = Ret (True, status1, arg1) st1 \<Longrightarrow> arg1 = tl arg"
  by (auto simp: runop1_def bind_out_Ret split: option.splits list.splits)

lemma runop2_args:
  "runop2 c lib q arg status st = Ret (True, status1, arg1) st1 \<Longrightarrow> tl arg \<noteq> [] \<and> arg1 = tl (tl arg)"
  by (auto simp: runop2_def bind_out_Ret split: option.splits list.splits)

lemma runop_shrinks:
  assumes "runop c lib arg status st = Ret (True, status1, arg1) st1"
  shows "length arg1 < length arg"
proof -
  obtain x xs where arg: "arg = x # xs" using assms by (cases arg) (auto simp: runop_def)
  show ?thesis
  proof (cases "find (\<lambda>q. op_name q = x) (ops c lib)")
    case None
    then show ?thesis using assms unfolding runop_def arg by simp
  next
    case (Some q)
    then have "(if f4_a2 q \<noteq> None \<or> f6_a2 q \<noteq> None then runop2 c lib q arg status st else runop1 q arg status st) =
        Ret (True, status1, arg1) st1"
      using assms unfolding runop_def arg by simp
    then consider "runop2 c lib q arg status st = Ret (True, status1, arg1) st1"
      | "runop1 q arg status st = Ret (True, status1, arg1) st1" by (metis (full_types))
    then show ?thesis
    proof cases
      case 1
      from runop2_args [OF this] arg show ?thesis by (cases xs) auto
    next
      case 2
      from runop1_args [OF this] arg show ?thesis by simp
    qed
  qed
qed

section \<open>The program\<close>

text \<open>\<open>while (runop(&arg, &status));\<close>\<close>

function run_loop :: "cpu \<Rightarrow> inet \<Rightarrow> string list \<Rightarrow> int \<Rightarrow> owip \<Rightarrow> (int \<times> string list) outcome" where
  "run_loop c lib arg status st =
     (case runop c lib arg status st of
        Ret (go, status1, arg1) st1 \<Rightarrow>
          if go then run_loop c lib arg1 status1 st1 else Ret (status1, arg1) st1
      | Exit n st1 \<Rightarrow> Exit n st1
      | Undef \<Rightarrow> Undef)"
  by pat_completeness auto
termination
  by (relation "measure (\<lambda>(c, lib, arg, status, st). length arg)") (auto intro: runop_shrinks)

declare run_loop.simps [simp del]

text \<open>\<open>main\<close> with the arguments behind the program name and the outcomes of \<open>malloc\<close>. It ends by
  \<open>exit\<close>.\<close>

definition finish :: "inet \<Rightarrow> int \<Rightarrow> owip \<Rightarrow> bool outcome" where
  "finish lib status st =
     (if \<not> printed st \<and> status < 2 then
        (case stack st of
           [] \<Rightarrow> Undef
         | a # _ \<Rightarrow> if family a = AF_INET then cidr_print4 lib (Some a) st else cidr_print6 lib (Some a) st)
      else Ret True st)"

definition owipcalc :: "cpu \<Rightarrow> inet \<Rightarrow> bool list \<Rightarrow> string list \<Rightarrow> unit outcome" where
  "owipcalc c lib ms args =
     (let st0 = \<lparr>stack = [], quiet = False, printed = False, out = [], mallocs = ms\<rparr>
      in if length args < 2 then Exit 1 st0
         else let (a, st1) = (if CHR '':'' \<in> set (args ! 0) then cidr_parse6 c lib (args ! 0) st0
                              else cidr_parse4 c lib (args ! 0) st0)
         in case a of
              None \<Rightarrow> Exit 1 st1
            | Some x \<Rightarrow>
                bind_out (run_loop c lib (tl args) 0 (cidr_push (Some x) st1)) (\<lambda>(status, arg) st2.
                  if arg \<noteq> [] then Exit 6 st2
                  else bind_out (finish lib status st2) (\<lambda>_ st3. Exit status (qprintf ''\<newline>'' st3))))"

section \<open>Exit status\<close>

lemma parse_exit: "cidr_parse c lib s h st = Exit n st' \<Longrightarrow> n = 4"
  by (auto simp: cidr_parse_def Let_def split: prod.splits if_splits option.splits)

lemma bind_out_Exit: "bind_out m f = Exit n s \<longleftrightarrow> m = Exit n s \<or> (\<exists>z t. m = Ret z t \<and> f z t = Exit n s)"
  by (cases m) auto

lemma clone_exit: "cidr_clone a st = Exit n st' \<Longrightarrow> n = 255"
  by (auto simp: cidr_clone_def split: prod.splits if_splits)

text \<open>An operation ends the program only when a copy of its operand cannot be allocated.\<close>

definition exits_255 :: "bool outcome \<Rightarrow> bool" where
  "exits_255 r \<longleftrightarrow> (\<forall>n st. r = Exit n st \<longrightarrow> n = 255)"

lemma exits_clone: "(\<And>st1 n st. f () st1 = Exit n st \<Longrightarrow> n = 255) \<Longrightarrow> exits_255 (bind_out (cidr_clone a st) f)"
  by (auto simp: exits_255_def bind_out_Exit dest: clone_exit)

lemma exits_others:
  "exits_255 (answer b st)" "exits_255 (Ret x st)" "exits_255 (cidr_pop a st)" "exits_255 (print_tail a w t st)"
  by (auto simp: exits_255_def answer_def cidr_pop_def print_tail_def Let_def bind_out_Exit split: list.splits)

lemma op_exits:
  assumes "q \<in> set (ops c lib)"
  shows "f4_a1 q = Some f \<Longrightarrow> exits_255 (f a st)" "f6_a1 q = Some f \<Longrightarrow> exits_255 (f a st)"
    "f4_a2 q = Some g \<Longrightarrow> exits_255 (g a b st)" "f6_a2 q = Some g \<Longrightarrow> exits_255 (g a b st)"
  using assms
  by (auto simp: ops_def cidr_add4_def cidr_sub4_def cidr_next4_def cidr_prev4_def cidr_network4_def cidr_broadcast4_def
      cidr_netmask4_def cidr_6to4_def cidr_howmany_def cidr_contains4_def cidr_private4_def cidr_linklocal4_def
      cidr_add6_def cidr_sub6_def cidr_next6_def cidr_prev6_def cidr_network6_def cidr_contains6_def cidr_linklocal6_def
      cidr_ula6_def cidr_prefix_def cidr_quiet_def cidr_print4_def cidr_print6_def Let_def exits_others
      simp del: top_upd.simps split: option.split prod.splits if_splits intro!: exits_clone)

lemma find_op: "find P (ops c lib) = Some q \<Longrightarrow> q \<in> set (ops c lib)"
  by (auto simp: find_Some_iff)

lemma op_exitD:
  assumes "q \<in> set (ops c lib)"
  shows "(if b then f4_a1 q else f6_a1 q) = Some f \<Longrightarrow> f a st = Exit n st' \<Longrightarrow> n = 255"
    "(if b then f4_a2 q else f6_a2 q) = Some g \<Longrightarrow> g a d st = Exit n st' \<Longrightarrow> n = 255"
proof -
  show "n = 255" if "(if b then f4_a1 q else f6_a1 q) = Some f" "f a st = Exit n st'"
    using op_exits(1,2) [OF assms, of f a st] that by (cases b) (simp_all add: exits_255_def)
  show "n = 255" if "(if b then f4_a2 q else f6_a2 q) = Some g" "g a d st = Exit n st'"
    using op_exits(3,4) [OF assms, of g a d st] that by (cases b) (simp_all add: exits_255_def)
qed

lemma runop1_status:
  assumes "q \<in> set (ops c lib)"
  shows "runop1 q arg status st = Exit n st' \<Longrightarrow> n = 255"
    "runop1 q arg status st = Ret (go, status', arg') st' \<Longrightarrow> if go then status' \<in> {0, 1} else status' = 5"
proof -
  show "n = 255" if r: "runop1 q arg status st = Exit n st'"
  proof (cases "stack st")
    case (Cons a as)
    obtain f where f: "(if family a = AF_INET then f4_a1 q else f6_a1 q) = Some f"
      using r Cons by (cases "if family a = AF_INET then f4_a1 q else f6_a1 q") (simp_all add: runop1_def)
    then have "f a st = Exit n st'" using r Cons by (auto simp: runop1_def bind_out_Exit)
    with op_exitD(1) [OF assms f] show ?thesis .
  qed (use r in \<open>simp add: runop1_def\<close>)
  show "if go then status' \<in> {0, 1} else status' = 5" if "runop1 q arg status st = Ret (go, status', arg') st'"
    using that by (auto simp: runop1_def bind_out_Ret split: list.splits option.splits if_splits)
qed

lemma runop2_status:
  assumes "q \<in> set (ops c lib)" and "arg \<noteq> []"
  shows "runop2 c lib q arg status st = Exit n st' \<Longrightarrow> n \<in> {4, 255}"
    "runop2 c lib q arg status st = Ret (go, status', arg') st' \<Longrightarrow>
     if go then status' \<in> {0, 1} else status' = 5 \<or> arg' \<noteq> []"
proof -
  show "n \<in> {4, 255}" if r: "runop2 c lib q arg status st = Exit n st'"
  proof -
    obtain arg2 rest where t: "tl arg = arg2 # rest" using r by (cases "tl arg") (simp_all add: runop2_def)
    obtain a as where s: "stack st = a # as" using r t by (cases "stack st") (simp_all add: runop2_def)
    let ?p = "cidr_parse c lib arg2 (family a) st" and ?f = "if family a = AF_INET then f4_a2 q else f6_a2 q"
    show ?thesis
    proof (cases ?p)
      case (Ret b st1)
      obtain y where y: "b = Some y" using r t s Ret by (cases b) (simp_all add: runop2_def)
      obtain g where g: "?f = Some g" using r t s Ret y by (cases ?f) (simp_all add: runop2_def)
      have "g a y st1 = Exit n st'" using r t s Ret y g by (auto simp: runop2_def bind_out_Exit)
      with op_exitD(2) [OF assms(1) g] show ?thesis by simp
    next
      case (Exit m st1)
      then show ?thesis using parse_exit [OF Exit] r t s by (simp add: runop2_def)
    qed (use r t s in \<open>simp add: runop2_def\<close>)
  qed
  show "if go then status' \<in> {0, 1} else status' = 5 \<or> arg' \<noteq> []"
    if r: "runop2 c lib q arg status st = Ret (go, status', arg') st'"
  proof (cases "tl arg")
    case (Cons arg2 rest)
    obtain a as where s: "stack st = a # as" using r Cons by (cases "stack st") (simp_all add: runop2_def)
    let ?p = "cidr_parse c lib arg2 (family a) st" and ?f = "if family a = AF_INET then f4_a2 q else f6_a2 q"
    obtain b st1 where p: "?p = Ret b st1" using r Cons s by (cases ?p) (simp_all add: runop2_def)
    show ?thesis
    proof (cases b)
      case (Some y)
      show ?thesis
        using r Cons s p Some by (cases ?f) (auto simp: runop2_def bind_out_Ret split: if_splits)
    qed (use r Cons s p assms(2) in \<open>auto simp: runop2_def\<close>)
  qed (use r assms(2) in \<open>auto simp: runop2_def\<close>)
qed

lemma runop_status:
  shows "runop c lib arg status st = Exit n st' \<Longrightarrow> n \<in> {4, 255}"
    "runop c lib arg status st = Ret (go, status', arg') st' \<Longrightarrow>
     if go then status' \<in> {0, 1} else arg' = [] \<longrightarrow> status' \<in> {status, 5}"
proof -
  have *: "(runop c lib arg status st = Exit n st' \<longrightarrow> n \<in> {4, 255}) \<and>
    (runop c lib arg status st = Ret (go, status', arg') st' \<longrightarrow>
     (if go then status' \<in> {0, 1} else arg' = [] \<longrightarrow> status' \<in> {status, 5}))"
  proof (cases arg)
    case (Cons x xs)
    show ?thesis
    proof (cases "find (\<lambda>q. op_name q = x) (ops c lib)")
      case None
      then show ?thesis by (auto simp: runop_def Cons)
    next
      case (Some q)
      note m = find_op [OF Some]
      have "runop c lib arg status st = (if f4_a2 q \<noteq> None \<or> f6_a2 q \<noteq> None then runop2 c lib q arg status st else runop1 q arg status st)"
        using Some by (simp add: runop_def Cons)
      moreover have ne: "arg \<noteq> []" by (simp add: Cons)
      ultimately show ?thesis
        using runop1_status(1) [OF m, of arg status st n st'] runop1_status(2) [OF m, of arg status st go status' arg' st']
          runop2_status(1) [OF m ne, of status st n st'] runop2_status(2) [OF m ne, of status st go status' arg' st']
        by (cases "f4_a2 q \<noteq> None \<or> f6_a2 q \<noteq> None"; cases go) auto
    qed
  qed (auto simp: runop_def)
  then show "runop c lib arg status st = Exit n st' \<Longrightarrow> n \<in> {4, 255}"
    "runop c lib arg status st = Ret (go, status', arg') st' \<Longrightarrow>
     if go then status' \<in> {0, 1} else arg' = [] \<longrightarrow> status' \<in> {status, 5}" by blast+
qed

lemma run_loop_status:
  "status \<in> {0, 1} \<Longrightarrow> (run_loop c lib arg status st = Exit n st' \<longrightarrow> n \<in> {4, 255}) \<and>
   (run_loop c lib arg status st = Ret (status', arg') st' \<longrightarrow> arg' = [] \<longrightarrow> status' \<in> {0, 1, 5})"
proof (induction c lib arg status st rule: run_loop.induct)
  case (1 c lib arg status st)
  show ?case
  proof (cases "runop c lib arg status st")
    case (Ret r st1)
    obtain go status1 arg1 where r: "r = (go, status1, arg1)" by (metis prod_cases3)
    note s = runop_status(2) [OF Ret [unfolded r]]
    show ?thesis
    proof (cases go)
      case True
      then show ?thesis
        using 1(1) [OF Ret r [symmetric] refl True] s Ret r by (simp add: run_loop.simps [of c lib arg])
    next
      case False
      then show ?thesis using s Ret r 1(2) by (auto simp: run_loop.simps [of c lib arg])
    qed
  next
    case (Exit m st1)
    then show ?thesis using runop_status(1) [OF Exit] by (auto simp: run_loop.simps [of c lib arg])
  next
    case Undef
    then show ?thesis by (simp add: run_loop.simps [of c lib arg])
  qed
qed

lemma finish_no_exit: "finish lib status st \<noteq> Exit n st'"
  using exits_others(4)
  by (auto simp: finish_def cidr_print4_def cidr_print6_def print_tail_def Let_def bind_out_Exit cidr_pop_def split: list.splits option.splits)

section \<open>Addresses on the stack\<close>

definition typed :: "owip \<Rightarrow> bool" where
  "typed st \<longleftrightarrow> (\<forall>a \<in> set (stack st). length (addr a) = 16)"

fun out_typed :: "'a outcome \<Rightarrow> bool" where
  "out_typed (Ret x st) = typed st"
| "out_typed (Exit n st) = typed st"
| "out_typed Undef = True"

lemma typed_fields [simp]:
  "typed (qprintf t st) = typed st" "typed (sep st) = typed st" "typed (st\<lparr>quiet := b\<rparr>) = typed st"
  "typed (st\<lparr>mallocs := ms\<rparr>) = typed st" "typed (snd (malloc st)) = typed st" "typed (st\<lparr>stack := []\<rparr>)"
  "typed (st\<lparr>stack := a # as\<rparr>) \<longleftrightarrow> length (addr a) = 16 \<and> typed (st\<lparr>stack := as\<rparr>)"
  by (auto simp: typed_def qprintf_def sep_def malloc_def split: list.split)

lemma typed_malloc: "malloc st = (ok, st') \<Longrightarrow> typed st' = typed st"
  using typed_fields(5) [of st] by simp

lemma typed_top:
  "typed st \<Longrightarrow> (\<And>n. length (addr n) = 16 \<Longrightarrow> length (addr (f n)) = 16) \<Longrightarrow> typed (top_upd f st)"
  by (auto simp: typed_def split: list.split)

lemma out_typed_bind: "out_typed m \<Longrightarrow> (\<And>x s. m = Ret x s \<Longrightarrow> typed s \<Longrightarrow> out_typed (f x s)) \<Longrightarrow> out_typed (bind_out m f)"
  by (cases m) auto

lemma typed_clone: "typed st \<Longrightarrow> length (addr a) = 16 \<Longrightarrow> out_typed (cidr_clone a st)"
  by (auto simp: cidr_clone_def cidr_push_def typed_def malloc_def split: prod.splits list.splits)

lemma add6_loop_length: "length (fst (add6_loop i x y c)) = length x"
  by (induction i arbitrary: x c) (simp_all add: add6_loop.simps Let_def)

lemma sub6_loop_length: "length (fst (sub6_loop i x y c)) = length x"
  by (induction i arbitrary: x c) (simp_all add: sub6_loop.simps Let_def)

lemma next6_loop_length: "length (fst (next6_loop i x c)) = length x"
  by (induction i arbitrary: x c) (simp_all add: next6_loop.simps Let_def)

lemma prev6_loop_length: "length (fst (prev6_loop i x c)) = length x"
  by (induction i arbitrary: x c) (simp_all add: prev6_loop.simps Let_def)

lemma clear_low_length: "length (clear_low q x) = length x"
  by (induction q) simp_all

lemma typed_answers:
  "typed st \<Longrightarrow> out_typed (answer b st)" "typed st \<Longrightarrow> out_typed (cidr_pop a st)" "typed st \<Longrightarrow> out_typed (print_tail a w t st)"
proof -
  show "typed st \<Longrightarrow> out_typed (answer b st)" by (simp add: answer_def)
  show p: "typed st \<Longrightarrow> out_typed (cidr_pop a st)" for a st
    by (auto simp: cidr_pop_def typed_def split: list.split)
  show "typed st \<Longrightarrow> out_typed (print_tail a w t st)"
    by (auto simp: print_tail_def Let_def intro!: out_typed_bind p)
qed

lemma op_typed:
  assumes "q \<in> set (ops c lib)" and "typed st" and "length (addr a) = 16" and "length (addr b) = 16"
  shows "f4_a1 q = Some f \<Longrightarrow> out_typed (f a st)" "f6_a1 q = Some f \<Longrightarrow> out_typed (f a st)"
    "f4_a2 q = Some g \<Longrightarrow> out_typed (g a b st)" "f6_a2 q = Some g \<Longrightarrow> out_typed (g a b st)"
  using assms add6_loop_length [of 15 "addr a" "addr b" 0] sub6_loop_length [of 15 "addr a" "addr b" 0]
    next6_loop_length [of "prefix_idx (prefix b)" "addr a" 1] prev6_loop_length [of "prefix_idx (prefix b)" "addr a" 1]
  by (auto simp: ops_def cidr_add4_def cidr_sub4_def cidr_next4_def cidr_prev4_def cidr_network4_def cidr_broadcast4_def
      cidr_netmask4_def cidr_6to4_def cidr_howmany_def cidr_contains4_def cidr_private4_def cidr_linklocal4_def
      cidr_add6_def cidr_sub6_def cidr_next6_def cidr_prev6_def cidr_network6_def cidr_contains6_def cidr_linklocal6_def
      cidr_ula6_def cidr_prefix_def cidr_quiet_def cidr_print4_def cidr_print6_def Let_def clear_low_length
      simp del: top_upd.simps split: option.split prod.splits
      intro!: out_typed_bind typed_clone typed_answers typed_top)

lemma op1_typed:
  assumes "q \<in> set (ops c lib)" and "typed st" and "length (addr a) = 16"
    and "(if b then f4_a1 q else f6_a1 q) = Some f"
  shows "out_typed (f a st)"
  using op_typed(1,2) [OF assms(1,2,3,3), of f] assms(4) by (cases b) simp_all

text \<open>What \<open>inet_pton\<close> promises: the size of the address it writes.\<close>

definition pton_sizes :: "inet \<Rightarrow> bool" where
  "pton_sizes lib \<longleftrightarrow> (\<forall>s v. pton4 lib s = Some v \<longrightarrow> length v = 4) \<and> (\<forall>s v. pton6 lib s = Some v \<longrightarrow> length v = 16)"

lemma num_bytes_length [simp]: "length (num_bytes k w) = k"
  by (induction k arbitrary: w) simp_all

lemma parse4_typed:
  assumes "pton_sizes lib" and "typed st" and "cidr_parse4 c lib s st = (r, st')"
  shows "typed st'" "r = Some x \<Longrightarrow> length (addr x) = 16 \<and> family x = AF_INET"
  using assms typed_malloc [of st]
  by (auto simp: cidr_parse4_def pton_sizes_def Let_def split: prod.splits if_splits option.splits)

lemma parse6_typed:
  assumes "pton_sizes lib" and "typed st" and "cidr_parse6 c lib s st = (r, st')"
  shows "typed st'" "r = Some x \<Longrightarrow> length (addr x) = 16 \<and> family x = AF_INET6"
  using assms typed_malloc [of st]
  by (auto simp: cidr_parse6_def pton_sizes_def Let_def split: prod.splits if_splits option.splits)

lemma put_s_addr_length: "4 \<le> length bs \<Longrightarrow> length (put_s_addr c w bs) = length bs"
  by (simp add: put_s_addr_def le32_bytes_def)

lemma parse_typed:
  assumes "pton_sizes lib" and "typed st"
  shows "case cidr_parse c lib s h st of Ret r st' \<Rightarrow> typed st' \<and> (\<forall>x. r = Some x \<longrightarrow> length (addr x) = 16)
    | Exit n st' \<Rightarrow> typed st' | Undef \<Rightarrow> True"
proof -
  obtain v e where n: "strtoul (ulong_max c) 0 s = (v, e)" by (rule prod.exhaust)
  obtain ok st1 where m: "malloc st = (ok, st1)" by (rule prod.exhaust)
  obtain r st2 where p: "(if CHR '':'' \<in> set s then cidr_parse6 c lib s st else cidr_parse4 c lib s st) = (r, st2)"
    by (rule prod.exhaust)
  have "typed st2" "r = Some x \<Longrightarrow> length (addr x) = 16" for x
    using p parse4_typed [OF assms, of c s r st2] parse6_typed [OF assms, of c s r st2] by (auto split: if_splits)
  then show ?thesis
    using assms(2) typed_malloc [OF m] unfolding cidr_parse_def n m p Let_def prod.case
    by (cases r) (simp_all add: put_s_addr_length)
qed

lemma typed_Cons: "typed st \<Longrightarrow> stack st = a # as \<Longrightarrow> length (addr a) = 16"
  by (simp add: typed_def)

lemma runop1_typed: "q \<in> set (ops c lib) \<Longrightarrow> typed st \<Longrightarrow> out_typed (runop1 q arg status st)"
  by (auto simp: runop1_def typed_Cons split: list.split option.split intro!: out_typed_bind intro: op1_typed)

lemma runop2_typed:
  assumes "pton_sizes lib" and "q \<in> set (ops c lib)" and "typed st"
  shows "out_typed (runop2 c lib q arg status st)"
proof -
  have p: "out_typed (cidr_parse c lib s h st)" "cidr_parse c lib s h st = Ret (Some x) st' \<Longrightarrow> length (addr x) = 16" for s h x st'
    using parse_typed [OF assms(1,3), of c s h] by (auto split: outcome.splits)
  have o: "out_typed (case (if b then f4_a2 q else f6_a2 q) of None \<Rightarrow> Ret (False, 5 :: int, rest) s
      | Some f \<Rightarrow> bind_out (f a d s) (\<lambda>ok st2. Ret (True, if ok then 0 else 1, rest) st2))"
    if "typed s" "length (addr a) = 16" "length (addr d) = 16" for b rest s a d
    using op_typed(3,4) [OF assms(2) that] that(1) by (auto split: option.split intro!: out_typed_bind)
  show ?thesis
  proof (cases "tl arg"; cases "stack st")
    fix arg2 rest a as
    assume t: "tl arg = arg2 # rest" and s: "stack st = a # as"
    show ?thesis
      unfolding runop2_def t s list.case
    proof (rule out_typed_bind [OF p(1)])
      fix r s1
      assume "cidr_parse c lib arg2 (family a) st = Ret r s1" and "typed s1"
      then show "out_typed (case r of None \<Rightarrow> Ret (False, 3, arg) s1
          | Some b \<Rightarrow> (case if family a = AF_INET then f4_a2 q else f6_a2 q of None \<Rightarrow> Ret (False, 5 :: int, rest) s1
              | Some f \<Rightarrow> bind_out (f a b s1) (\<lambda>ok st2. Ret (True, if ok then 0 else 1, rest) st2)))"
        by (cases r) (auto simp only: option.case out_typed.simps intro!: o typed_Cons [OF assms(3) s] p(2))
    qed
  qed (use assms(3) in \<open>simp_all add: runop2_def\<close>)
qed

lemma runop_typed: "pton_sizes lib \<Longrightarrow> typed st \<Longrightarrow> out_typed (runop c lib arg status st)"
  by (auto simp: runop_def split: list.split option.split intro: runop1_typed runop2_typed find_op)

lemma run_loop_typed: "pton_sizes lib \<Longrightarrow> typed st \<Longrightarrow> out_typed (run_loop c lib arg status st)"
proof (induction c lib arg status st rule: run_loop.induct)
  case (1 c lib arg status st)
  show ?case
  proof (cases "runop c lib arg status st")
    case (Ret r st1)
    obtain go status1 arg1 where r: "r = (go, status1, arg1)" by (rule prod_cases3)
    have "typed st1" using runop_typed [OF 1(2,3), of c arg status] Ret by simp
    then show ?thesis
      using 1(1) [OF Ret r [symmetric] refl _ 1(2)] Ret r by (simp add: run_loop.simps [of c lib arg])
  qed (use runop_typed [OF 1(2,3), of c arg status] in \<open>auto simp: run_loop.simps [of c lib arg]\<close>)
qed

lemma finish_typed: "typed st \<Longrightarrow> out_typed (finish lib status st)"
  by (auto simp: finish_def cidr_print4_def cidr_print6_def split: list.split option.split intro!: typed_answers)

section \<open>IPv4 runs\<close>

text \<open>The stack is not empty and holds IPv4 addresses only; what an operation does to such a stack.\<close>

definition v4_stack :: "owip \<Rightarrow> bool" where
  "v4_stack st \<longleftrightarrow> stack st \<noteq> [] \<and> (\<forall>a \<in> set (stack st). family a = AF_INET)"

fun out_v4 :: "'a outcome \<Rightarrow> bool" where
  "out_v4 (Ret x st) = v4_stack st"
| "out_v4 (Exit n st) = True"
| "out_v4 Undef = False"

lemma v4_fields [simp]:
  "v4_stack (qprintf t st) = v4_stack st" "v4_stack (sep st) = v4_stack st" "v4_stack (st\<lparr>quiet := b\<rparr>) = v4_stack st"
  "v4_stack (snd (malloc st)) = v4_stack st"
  by (auto simp: v4_stack_def qprintf_def sep_def malloc_def split: list.split)

lemma v4_malloc: "malloc st = (ok, st') \<Longrightarrow> v4_stack st' = v4_stack st"
  using v4_fields(4) [of st] by simp

lemma v4_top: "v4_stack st \<Longrightarrow> (\<And>n. family (f n) = family n) \<Longrightarrow> v4_stack (top_upd f st)"
  by (auto simp: v4_stack_def split: list.split)

lemma out_v4_bind: "out_v4 m \<Longrightarrow> (\<And>x s. m = Ret x s \<Longrightarrow> v4_stack s \<Longrightarrow> out_v4 (f x s)) \<Longrightarrow> out_v4 (bind_out m f)"
  by (cases m) auto

lemma v4_clone: "v4_stack st \<Longrightarrow> family a = AF_INET \<Longrightarrow> out_v4 (cidr_clone a st)"
  by (auto simp: cidr_clone_def cidr_push_def v4_stack_def malloc_def split: prod.splits list.splits)

lemma v4_answer: "v4_stack st \<Longrightarrow> out_v4 (answer b st)"
  by (simp add: answer_def)

lemma op_v4:
  assumes "q \<in> set (ops c lib)" and "op_name q \<notin> {''pop'', ''print'', ''6to4''}" and "v4_stack st" and "family a = AF_INET"
  shows "f4_a1 q = Some f \<Longrightarrow> out_v4 (f a st)" "f4_a2 q = Some g \<Longrightarrow> out_v4 (g a b st)"
  using assms
  by (auto simp: ops_def cidr_add4_def cidr_sub4_def cidr_next4_def cidr_prev4_def cidr_network4_def cidr_broadcast4_def
      cidr_netmask4_def cidr_howmany_def cidr_contains4_def cidr_private4_def cidr_linklocal4_def
      cidr_prefix_def cidr_quiet_def Let_def simp del: top_upd.simps
      intro!: out_v4_bind v4_clone v4_answer v4_top)

lemma parse_v4: "v4_stack st \<Longrightarrow> out_v4 (cidr_parse c lib s h st)"
proof -
  assume v: "v4_stack st"
  obtain x e where n: "strtoul (ulong_max c) 0 s = (x, e)" by (rule prod.exhaust)
  obtain ok st1 where m: "malloc st = (ok, st1)" by (rule prod.exhaust)
  obtain r st2 where p: "(if CHR '':'' \<in> set s then cidr_parse6 c lib s st else cidr_parse4 c lib s st) = (r, st2)"
    by (rule prod.exhaust)
  have "st2 = snd (malloc st)"
    using p by (auto simp: cidr_parse4_def cidr_parse6_def Let_def split: prod.splits if_splits option.splits)
  then show ?thesis
    using v v4_malloc [OF m] unfolding cidr_parse_def n m p Let_def prod.case by (cases r) simp_all
qed

lemma runop_v4:
  assumes "v4_stack st" and "set arg \<inter> {''pop'', ''print'', ''6to4''} = {}"
  shows "out_v4 (runop c lib arg status st)"
    "runop c lib arg status st = Ret (go, status', arg') st' \<Longrightarrow> set arg' \<subseteq> set arg"
proof -
  obtain a as where st: "stack st = a # as" and a: "family a = AF_INET"
    using assms(1) by (cases "stack st") (auto simp: v4_stack_def)
  have op: "out_v4 (runop1 q arg status st) \<and> out_v4 (runop2 c lib q arg status st)"
    if "q \<in> set (ops c lib)" "op_name q \<in> set arg" for q
  proof -
    have "op_name q \<notin> {''pop'', ''print'', ''6to4''}" using that(2) assms(2) by blast
    note op = op_v4 [OF that(1) this _ a]
    show ?thesis
      using assms(1) st a
      by (auto simp: runop1_def runop2_def split: list.split option.split intro!: out_v4_bind parse_v4 intro: op)
  qed
  show "out_v4 (runop c lib arg status st)"
  proof (cases arg)
    case (Cons x xs)
    show ?thesis
    proof (cases "find (\<lambda>q. op_name q = x) (ops c lib)")
      case (Some q)
      then have "op_name q = x" by (auto simp: find_Some_iff)
      with op [OF find_op [OF Some]] Some show ?thesis by (simp add: runop_def Cons)
    qed (use assms(1) in \<open>simp add: runop_def Cons\<close>)
  qed (use assms(1) in \<open>simp add: runop_def\<close>)
  show "set arg' \<subseteq> set arg" if "runop c lib arg status st = Ret (go, status', arg') st'"
    using that by (auto simp: runop_def runop1_def runop2_def bind_out_Ret split: list.splits option.splits if_splits
      dest: list.set_sel(2) [rotated])
qed

lemma run_loop_v4:
  "v4_stack st \<Longrightarrow> set arg \<inter> {''pop'', ''print'', ''6to4''} = {} \<Longrightarrow> out_v4 (run_loop c lib arg status st)"
proof (induction c lib arg status st rule: run_loop.induct)
  case (1 c lib arg status st)
  note r = runop_v4(1) [OF 1(2,3), of c lib status]
  show ?case
  proof (cases "runop c lib arg status st")
    case (Ret z st1)
    obtain go status1 arg1 where z: "z = (go, status1, arg1)" by (rule prod_cases3)
    have "v4_stack st1" using r Ret by simp
    moreover have "set arg1 \<inter> {''pop'', ''print'', ''6to4''} = {}"
      using runop_v4(2) [OF 1(2,3) Ret [unfolded z]] 1(3) by blast
    ultimately show ?thesis
      using 1(1) [OF Ret z [symmetric] refl] Ret z by (simp add: run_loop.simps [of c lib arg])
  qed (use r in \<open>auto simp: run_loop.simps [of c lib arg]\<close>)
qed

section \<open>Two steps of the interpreter\<close>

lemma word_sum_no_wrap: "unat x + m < 2 ^ 32 \<Longrightarrow> \<not> x + word_of_int (int m) < x" for x :: u32
proof -
  assume "unat x + m < 2 ^ 32"
  then have "unat (x + word_of_int (int m)) = unat x + m" by (simp add: unat_word_ariths unsigned_of_nat take_bit_nat_eq_self)
  then show ?thesis by (simp add: word_less_nat_alt)
qed

lemma runop_add4:
  assumes "stack st = a # as" and "family a = AF_INET" and "4 \<le> length (addr a)" and "mallocs st = []"
    and "strtoul (ulong_max c) 0 s = (int m, [])" and "s \<noteq> []" and "unat (host4 (addr a)) + m < 2 ^ 32"
  shows "runop c lib (''add'' # s # rest) status st =
    Ret (True, 0, rest) (st\<lparr>stack := a\<lparr>addr := put_s_addr c (htonl c (host4 (addr a) + word_of_int (int m))) (addr a)\<rparr> # a # as\<rparr>)"
proof -
  let ?b = "\<lparr>family = AF_INET, prefix = word_of_int (int m), addr = put_s_addr c (htonl c (word_of_int (int m))) (replicate 16 0)\<rparr>"
  have m: "malloc st = (True, st)" using assms(4) by (simp add: malloc_def)
  have p: "cidr_parse c lib s AF_INET st = Ret (Some ?b) st" using assms(6) by (simp add: cidr_parse_def assms(5) m Let_def)
  have "cidr_add4 c a ?b st =
      Ret True (st\<lparr>stack := a\<lparr>addr := put_s_addr c (htonl c (host4 (addr a) + word_of_int (int m))) (addr a)\<rparr> # a # as\<rparr>)"
    using word_sum_no_wrap [OF assms(7)]
    by (simp add: cidr_add4_def cidr_clone_def cidr_push_def m assms(1,2) ntohl_def s_addr_host [OF assms(3)] s_addr_host [of "put_s_addr c _ _"]
        del: of_int_of_nat_eq)
  then show ?thesis by (simp add: runop_def runop2_def ops_def assms(1,2) p)
qed

lemma runop_print4:
  assumes "stack st = a # as" and "family a = AF_INET" and "ntop4 lib (take 4 (addr a)) = Some t" and "prefix a = 32"
  shows "runop c lib (''print'' # rest) status st = Ret (True, 0, rest) ((qprintf t (sep st))\<lparr>stack := as\<rparr>)"
  using assms by (simp add: runop_def runop1_def ops_def cidr_print4_def print_tail_def cidr_pop_def Let_def sep_def qprintf_def)

section \<open>Properties\<close>

text \<open>C35: whatever the command line, the machine, the library and the outcomes of the allocations, \<open>owipcalc\<close>
  ends with status 0 or 1 (the result of the last operation), 1 or 6 (usage, an unknown operation), 4 (an argument of the
  other family), 5 (an operation the family does not have) or 255 (no memory). The
  statuses 2 and 3, which \<open>runop\<close> sets for a missing and for an invalid argument, are never the exit
  status: the argument is still there, and \<open>main\<close> reports an unknown operation instead.\<close>

theorem owip_exit_codes:
  assumes "owipcalc c lib ms args = Exit n st"
  shows "n \<in> {0, 1, 4, 5, 6, 255}"
proof -
  let ?st0 = "\<lparr>stack = [], quiet = False, printed = False, out = [], mallocs = ms\<rparr>"
  obtain a st1 where p: "(if CHR '':'' \<in> set (args ! 0) then cidr_parse6 c lib (args ! 0) ?st0
      else cidr_parse4 c lib (args ! 0) ?st0) = (a, st1)" by fastforce
  note eq = assms [unfolded owipcalc_def Let_def p prod.case]
  show ?thesis
  proof (cases "length args < 2 \<or> a = None")
    case True
    then show ?thesis using eq by (auto split: if_splits)
  next
    case False
    then obtain x where x: "a = Some x" by auto
    let ?r = "run_loop c lib (tl args) 0 (cidr_push (Some x) st1)"
    show ?thesis
    proof (cases ?r)
      case (Ret z st2)
      obtain status arg where z: "z = (status, arg)" by fastforce
      have "arg \<noteq> [] \<and> n = 6 \<or> arg = [] \<and> n = status"
        using eq False x Ret z finish_no_exit by (auto simp: bind_out_Exit split: if_splits)
      then show ?thesis using run_loop_status [of 0 c lib "tl args" "cidr_push (Some x) st1"] Ret z by fastforce
    next
      case (Exit m st2)
      then show ?thesis
        using run_loop_status [of 0 c lib "tl args" "cidr_push (Some x) st1"] eq False x by fastforce
    qed (use eq False x in simp)
  qed
qed

definition ex_inet :: inet where
  "ex_inet = \<lparr>pton4 = map_of [(''10.0.0.1'', [10, 0, 0, 1])], pton6 = (\<lambda>s. None),
     ntop4 = map_of [([10, 0, 0, 101], ''10.0.0.101''), ([10, 0, 0, 151], ''10.0.0.151'')], ntop6 = (\<lambda>b. None)\<rparr>"

lemma parse_ex: "cidr_parse4 ex_cpu ex_inet ''10.0.0.1'' ex_owip = (Some (v4 [10, 0, 0, 1] 32), ex_owip)"
  by (simp add: cidr_parse4_def malloc_def ex_owip_def ex_inet_def split_slash_def v4_def)

lemma run_ex:
  "owipcalc ex_cpu ex_inet [] [''10.0.0.1'', ''add''] = Exit 6 (ex_owip\<lparr>stack := [v4 [10, 0, 0, 1] 32]\<rparr>)"
  using parse_ex
  by (simp add: owipcalc_def ex_owip_def run_loop.simps [of _ _ "[''add'']"] runop_def runop2_def ops_def cidr_push_def)

theorem owip_exit_codes_witness:
  "\<exists>n st. owipcalc ex_cpu ex_inet [] [''10.0.0.1'', ''add''] = Exit n st \<and> n \<in> {0, 1, 4, 5, 6, 255}"
proof -
  from owip_exit_codes [OF run_ex] run_ex show ?thesis by blast
qed



text \<open>C36: a command line with an IPv4 base and without \<open>pop\<close>, \<open>print\<close> and \<open>6to4\<close> always ends by \<open>exit\<close>: whatever
  the arguments, the library and the memory are, no null pointer is read and no byte outside an address.\<close>

theorem owip_v4_exits:
  assumes "CHR '':'' \<notin> set (args ! 0)" and "set (tl args) \<inter> {''pop'', ''print'', ''6to4''} = {}"
  shows "\<exists>n st. owipcalc c lib ms args = Exit n st"
proof -
  let ?st0 = "\<lparr>stack = [], quiet = False, printed = False, out = [], mallocs = ms\<rparr>"
  obtain r st1 where p: "cidr_parse4 c lib (args ! 0) ?st0 = (r, st1)" by (rule prod.exhaust)
  have s1: "stack st1 = []" "r = Some x \<Longrightarrow> family x = AF_INET" for x
    using p by (auto simp: cidr_parse4_def malloc_def Let_def split: prod.splits if_splits option.splits list.splits)
  note eq = owipcalc_def [of c lib ms args, unfolded Let_def if_not_P [OF assms(1)] p prod.case]
  show ?thesis
  proof (cases "length args < 2 \<or> r = None")
    case False
    then obtain x where x: "r = Some x" by auto
    let ?l = "run_loop c lib (tl args) 0 (cidr_push (Some x) st1)"
    have l: "out_v4 ?l"
      using s1(1) s1(2) [OF x] assms(2) by (intro run_loop_v4) (simp_all add: cidr_push_def v4_stack_def)
    have fin: "\<exists>b st3. finish lib status st2 = Ret b st3" if "v4_stack st2" for status st2
      using that by (auto simp: finish_def v4_stack_def cidr_print4_def print_tail_def cidr_pop_def Let_def
          split: list.split option.split)
    show ?thesis
    proof (cases ?l)
      case (Ret z st2)
      obtain status arg where z: "z = (status, arg)" by (rule prod.exhaust)
      then obtain b st3 where "finish lib status st2 = Ret b st3" using fin [of st2 status] l Ret by auto
      then show ?thesis using eq False x Ret z by simp
    qed (use l eq False x in simp_all)
  qed (use eq in \<open>auto split: option.split\<close>)
qed

theorem owip_v4_exits_witness:
  "\<exists>n st. owipcalc ex_cpu ex_inet [] [''10.0.0.1'', ''prefix'', ''99'', ''network'', ''contains'', ''4''] = Exit n st"
  using owip_v4_exits [of "[''10.0.0.1'', ''prefix'', ''99'', ''network'', ''contains'', ''4'']" ex_cpu ex_inet "[]"] by simp

text \<open>after \<open>pop\<close> of the base address the end of \<open>main\<close> reads \<open>stack->family\<close> through a null pointer: the
  command line of an address that parses and the single operation \<open>pop\<close> has undefined behaviour.\<close>

theorem owip_pop_crashes:
  assumes "CHR '':'' \<notin> set s" and "cidr_parse4 c lib s \<lparr>stack = [], quiet = False, printed = False, out = [], mallocs = ms\<rparr> = (Some a, st)"
  shows "owipcalc c lib ms [s, ''pop''] = Undef"
proof -
  have "stack st = [] \<and> printed st = False \<and> family a = AF_INET"
    using assms(2) by (auto simp: cidr_parse4_def malloc_def Let_def split: prod.splits if_splits option.splits list.splits)
  then show ?thesis
    using assms
    by (simp add: owipcalc_def run_loop.simps [of _ _ "[''pop'']"] run_loop.simps [of _ _ "[]"] runop_def runop1_def ops_def cidr_push_def
        cidr_pop_def finish_def)
qed

theorem owip_pop_crashes_witness: "owipcalc ex_cpu ex_inet [] [''10.0.0.1'', ''pop''] = Undef"
  using owip_pop_crashes [of "''10.0.0.1''" ex_cpu ex_inet "[]"] parse_ex by (simp add: ex_owip_def)

text \<open>\<open>print\<close> takes the printed result from the stack, so a second calculation starts again from the base: with a
  base address without a slash, \<open>add\<close> of a number, \<open>print\<close>, \<open>add\<close> of another number and \<open>print\<close> write the
  base plus the first and the base plus the second number, separated by a space, and leave the base on the
  stack. The usage text of the program shows the sum of both numbers on a line of its own instead.\<close>

theorem owip_print_restores:
  fixes s :: string
  assumes "CHR '':'' \<notin> set s" and "cidr_parse4 c lib s ex_owip = (Some a, ex_owip)" and "prefix a = 32" and "4 \<le> length (addr a)"
    and "strtoul (ulong_max c) 0 s1 = (int m1, [])" "s1 \<noteq> []" "unat (host4 (addr a)) + m1 < 2 ^ 32"
    and "strtoul (ulong_max c) 0 s2 = (int m2, [])" "s2 \<noteq> []" "unat (host4 (addr a)) + m2 < 2 ^ 32"
    and "ntop4 lib (rev (le32_bytes (host4 (addr a) + word_of_int (int m1)))) = Some t1"
    and "ntop4 lib (rev (le32_bytes (host4 (addr a) + word_of_int (int m2)))) = Some t2"
  shows "owipcalc c lib [] [s, ''add'', s1, ''print'', ''add'', s2, ''print''] =
    Exit 0 \<lparr>stack = [a], quiet = False, printed = True, out = t1 @ '' '' @ t2 @ ''\<newline>'', mallocs = []\<rparr>"
proof -
  have f: "family a = AF_INET"
    using assms(2) by (auto simp: cidr_parse4_def Let_def split: prod.splits if_splits option.splits)
  show ?thesis
    using assms f
    by (simp add: owipcalc_def ex_owip_def cidr_push_def finish_def run_loop.simps [of _ _ "_ # _"] run_loop.simps [of _ _ "[]"]
        runop_add4 runop_print4 take_put_s_addr runop_def [of _ _ "[]"] qprintf_def sep_def del: of_int_of_nat_eq)
qed

theorem owip_print_restores_witness:
  "owipcalc ex_cpu ex_inet [] [''10.0.0.1'', ''add'', ''100'', ''print'', ''add'', ''150'', ''print''] =
    Exit 0 \<lparr>stack = [v4 [10, 0, 0, 1] 32], quiet = False, printed = True, out = ''10.0.0.101 10.0.0.151\<newline>'', mallocs = []\<rparr>"
proof -
  have n: "strtoul (ulong_max ex_cpu) 0 ''100'' = (int 100, [])" "strtoul (ulong_max ex_cpu) 0 ''150'' = (int 150, [])"
    by code_simp+
  have h: "host4 (addr (v4 [10, 0, 0, 1] 32)) = 0x0A000001" by (simp add: host4_def v4_def)
  note p = owip_print_restores [of "''10.0.0.1''" ex_cpu ex_inet "v4 [10, 0, 0, 1] 32" "''100''" 100 "''150''" 150
      "''10.0.0.101''" "''10.0.0.151''", OF _ parse_ex]
  have "owipcalc ex_cpu ex_inet [] [''10.0.0.1'', ''add'', ''100'', ''print'', ''add'', ''150'', ''print''] =
    Exit 0 \<lparr>stack = [v4 [10, 0, 0, 1] 32], quiet = False, printed = True, out = ''10.0.0.101'' @ '' '' @ ''10.0.0.151'' @ ''\<newline>'', mallocs = []\<rparr>"
    by (rule p) (simp_all only: n h, simp_all add: v4_def ex_inet_def le32_bytes_def)
  then show ?thesis by simp
qed

end
