(* ===== verification/Nvram_Store.thy ===== *)
theory Nvram_Store
  imports Bmt_Prelude
begin

text \<open>
  The variable store of the \<open>nvram\<close> library (\<open>nvram.h\<close>, first half of \<open>nvram.c\<close>): a handle with a hash table of 257 lists of
  tuples, a list of dead tuples, and the mapped image.

  A C string is the list of its bytes before the NUL. A null pointer is \<open>None\<close>. \<open>malloc\<close> and \<open>realloc\<close> may fail: \<open>mem\<close>
  lists the outcomes of the coming calls, and calls beyond the list succeed. Freed memory is not represented.
\<close>

section \<open>Data\<close>

text \<open>What the source leaves to the machine: whether \<open>char\<close> is signed, the largest \<open>unsigned long\<close>, and the number of bits
  of \<open>size_t\<close>.\<close>

record nv_cpu =
  char_signed :: bool
  nv_ulong_max :: int
  size_bits :: nat

record nvram_tuple =
  tname :: "byte list"
  tvalue :: "byte list option"

text \<open>\<open>area\<close> is the mapped memory and \<open>map_addr\<close> the low 32 bits of its address.\<close>

record nvram_handle =
  area :: "byte list"
  map_addr :: u32
  nv_length :: u32
  nv_offset :: u32
  nvram_hash :: "nvram_tuple list list"
  nvram_dead :: "nvram_tuple list"
  mem :: "bool list"

definition nv_malloc :: "nvram_handle \<Rightarrow> bool \<times> nvram_handle" where
  "nv_malloc h = (case mem h of [] \<Rightarrow> (True, h) | b # bs \<Rightarrow> (b, h\<lparr>mem := bs\<rparr>))"

section \<open>Operations\<close>

text \<open>The loop of \<open>hash\<close>, and the index of the list for a name.\<close>

fun hash :: "nv_cpu \<Rightarrow> u32 \<Rightarrow> byte list \<Rightarrow> u32" where
  "hash c acc [] = acc"
| "hash c acc (b # s) = hash c (31 * acc + (if char_signed c then scast b else ucast b)) s"

abbreviation NVRAM_ARRAYSIZE :: nat where "NVRAM_ARRAYSIZE \<equiv> 257"

definition slot :: "nv_cpu \<Rightarrow> byte list \<Rightarrow> nat" where
  "slot c name = unat (hash c 0 name mod of_nat NVRAM_ARRAYSIZE)"

text \<open>Every list becomes empty.\<close>

definition nvram_free :: "nvram_handle \<Rightarrow> nvram_handle" where
  "nvram_free h = h\<lparr>nvram_hash := map (\<lambda>_. []) (nvram_hash h), nvram_dead := []\<rparr>"

text \<open>The tuple returned, and what has become of the tuple passed in. A failing \<open>realloc\<close> leaves its value null.\<close>

definition nvram_realloc :: "nvram_handle \<Rightarrow> nvram_tuple option \<Rightarrow> byte list \<Rightarrow> byte list \<Rightarrow>
    nvram_tuple option \<times> nvram_tuple option \<times> nvram_handle" where
  "nvram_realloc h t name v =
     (if length v + 1 > unat (nv_length h - nv_offset h) then (None, t, h)
      else
        let (t1, h1) =
              (case t of
                 Some x \<Rightarrow> (Some x, h)
               | None \<Rightarrow> let (ok, h1) = nv_malloc h
                         in (if ok then Some \<lparr>tname = name, tvalue = None\<rparr> else None, h1))
        in case t1 of
             None \<Rightarrow> (None, t, h1)
           | Some x \<Rightarrow>
               if tvalue x \<noteq> Some v then
                 let (ok, h2) = nv_malloc h1;
                     y = x\<lparr>tvalue := (if ok then Some v else None)\<rparr>
                 in (if ok then Some y else None, map_option (\<lambda>_. y) t, h2)
               else (Some x, t, h1))"

text \<open>The loops over one list: the first tuple of a name, the list with this tuple changed, and without it.\<close>

fun tuple_find :: "byte list \<Rightarrow> nvram_tuple list \<Rightarrow> nvram_tuple option" where
  "tuple_find name [] = None"
| "tuple_find name (t # ts) = (if tname t = name then Some t else tuple_find name ts)"

fun tuple_put :: "byte list \<Rightarrow> nvram_tuple \<Rightarrow> nvram_tuple list \<Rightarrow> nvram_tuple list" where
  "tuple_put name x [] = []"
| "tuple_put name x (t # ts) = (if tname t = name then x # ts else t # tuple_put name x ts)"

fun tuple_del :: "byte list \<Rightarrow> nvram_tuple list \<Rightarrow> nvram_tuple list" where
  "tuple_del name [] = []"
| "tuple_del name (t # ts) = (if tname t = name then ts else t # tuple_del name ts)"

definition nvram_get :: "nv_cpu \<Rightarrow> nvram_handle \<Rightarrow> byte list option \<Rightarrow> byte list option" where
  "nvram_get c h nm =
     (case nm of
        None \<Rightarrow> None
      | Some name \<Rightarrow>
          (case tuple_find name (nvram_hash h ! slot c name) of None \<Rightarrow> None | Some t \<Rightarrow> tvalue t))"

text \<open>\<open>_nvram_realloc\<close> returns the tuple it was given, so the branch that moves an old tuple to the dead list is not
  taken.\<close>

definition nvram_set :: "nv_cpu \<Rightarrow> nvram_handle \<Rightarrow> byte list \<Rightarrow> byte list \<Rightarrow> int \<times> nvram_handle" where
  "nvram_set c h name v =
     (let i = slot c name;
          b = nvram_hash h ! i;
          t = tuple_find name b;
          (u, t1, h1) = nvram_realloc h t name v;
          b1 = (case t1 of None \<Rightarrow> b | Some x \<Rightarrow> tuple_put name x b)
      in case u of
           None \<Rightarrow> (- ENOMEM, h1\<lparr>nvram_hash := (nvram_hash h)[i := b1]\<rparr>)
         | Some x \<Rightarrow>
             if t \<noteq> None then (0, h1\<lparr>nvram_hash := (nvram_hash h)[i := b1]\<rparr>)
             else (0, h1\<lparr>nvram_hash := (nvram_hash h)[i := x # b]\<rparr>))"

definition nvram_unset :: "nv_cpu \<Rightarrow> nvram_handle \<Rightarrow> byte list option \<Rightarrow> int \<times> nvram_handle" where
  "nvram_unset c h nm =
     (case nm of
        None \<Rightarrow> (0, h)
      | Some name \<Rightarrow>
          let i = slot c name;
              b = nvram_hash h ! i
          in case tuple_find name b of
               None \<Rightarrow> (0, h)
             | Some t \<Rightarrow> (0, h\<lparr>nvram_hash := (nvram_hash h)[i := tuple_del name b], nvram_dead := t # nvram_dead h\<rparr>))"

text \<open>The list grows at its front; a failing \<open>malloc\<close> leaves the list of one hash value only.\<close>

fun getall_bucket :: "nvram_tuple list \<Rightarrow> nvram_tuple list \<Rightarrow> nvram_handle \<Rightarrow> nvram_tuple list \<times> nvram_handle" where
  "getall_bucket [] l h = (l, h)"
| "getall_bucket (t # ts) l h =
     (let (ok, h1) = nv_malloc h in if ok then getall_bucket ts (t # l) h1 else (l, h1))"

fun getall_loop :: "nvram_tuple list list \<Rightarrow> nvram_tuple list \<Rightarrow> nvram_handle \<Rightarrow> nvram_tuple list \<times> nvram_handle" where
  "getall_loop [] l h = (l, h)"
| "getall_loop (b # bs) l h = (let (l1, h1) = getall_bucket b l h in getall_loop bs l1 h1)"

definition nvram_getall :: "nvram_handle \<Rightarrow> nvram_tuple list \<times> nvram_handle" where
  "nvram_getall h = getall_loop (nvram_hash h) [] h"

section \<open>The store as a map\<close>

text \<open>Each tuple is in the list of its hash value, and a list holds a name once.\<close>

definition nv_inv :: "nv_cpu \<Rightarrow> nvram_handle \<Rightarrow> bool" where
  "nv_inv c h \<longleftrightarrow> length (nvram_hash h) = NVRAM_ARRAYSIZE \<and>
     (\<forall>i < NVRAM_ARRAYSIZE. distinct (map tname (nvram_hash h ! i)) \<and> (\<forall>t \<in> set (nvram_hash h ! i). slot c (tname t) = i))"

abbreviation nv_lookup :: "nv_cpu \<Rightarrow> nvram_handle \<Rightarrow> byte list \<Rightarrow> byte list option" where
  "nv_lookup c h \<equiv> \<lambda>name. nvram_get c h (Some name)"

definition nv_fits :: "nvram_handle \<Rightarrow> byte list \<Rightarrow> bool" where
  "nv_fits h v \<longleftrightarrow> length v + 1 \<le> unat (nv_length h - nv_offset h)"

lemma slot_less [simp]: "slot c name < 257"
  by (simp add: slot_def unat_mod)

lemma tuple_find_Some: "tuple_find name ts = Some t \<Longrightarrow> t \<in> set ts \<and> tname t = name"
  by (induction ts) (auto split: if_splits)

lemma tuple_find_None: "tuple_find name ts = None \<longleftrightarrow> name \<notin> tname ` set ts"
  by (induction ts) auto

lemma tuple_find_put:
  "tname x = name \<Longrightarrow> tuple_find n (tuple_put name x ts) =
     (if n = name \<and> name \<in> tname ` set ts then Some x else tuple_find n ts)"
  by (induction ts) auto

lemma tuple_put_names: "tname x = name \<Longrightarrow> map tname (tuple_put name x ts) = map tname ts"
  by (induction ts) auto

lemma tuple_find_del:
  "distinct (map tname ts) \<Longrightarrow> tuple_find n (tuple_del name ts) = (if n = name then None else tuple_find n ts)"
  by (induction ts) (auto simp: tuple_find_None)

lemma tuple_del_names: "map tname (tuple_del name ts) = remove1 name (map tname ts)"
  by (induction ts) auto

lemma names_slots: "(\<forall>t \<in> set ts. slot c (tname t) = i) \<longleftrightarrow> (\<forall>n \<in> set (map tname ts). slot c n = i)"
  by simp

lemma nth_update_at: "j < length xs \<Longrightarrow> xs[i := x] ! j = (if j = i then x else xs ! j)"
  by (cases "j = i") simp_all

lemma nv_inv_update:
  assumes "nv_inv c h" and "distinct (map tname b)" and "\<forall>t \<in> set b. slot c (tname t) = i"
    and "nvram_hash h' = (nvram_hash h)[i := b]"
  shows "nv_inv c h'"
  using assms by (auto simp: nv_inv_def nth_update_at split: if_splits)

lemma nv_lookup_update:
  assumes "nv_inv c h" and "nvram_hash h' = (nvram_hash h)[slot c name := b]"
    and "\<And>n. n \<noteq> name \<Longrightarrow> tuple_find n b = tuple_find n (nvram_hash h ! slot c name)"
  shows "nv_lookup c h' = (nv_lookup c h)(name := case tuple_find name b of None \<Rightarrow> None | Some t \<Rightarrow> tvalue t)"
  using assms by (auto simp: fun_eq_iff nvram_get_def nv_inv_def nth_update_at)

text \<open>The outcome of \<open>_nvram_realloc\<close>, by what it returns.\<close>

lemma realloc_frame:
  assumes "nvram_realloc h t name v = (u, t1, h1)"
  shows "h1 = h\<lparr>mem := mem h1\<rparr>" "mem h = [] \<Longrightarrow> mem h1 = []"
  using assms by (auto simp: nvram_realloc_def nv_malloc_def Let_def split: if_splits option.splits prod.splits list.splits)

lemma realloc_ok:
  assumes "nvram_realloc h t name v = (Some x, t1, h1)"
  shows "nv_fits h v" "tvalue x = Some v" "tname x = (case t of None \<Rightarrow> name | Some y \<Rightarrow> tname y)" "t1 = map_option (\<lambda>_. x) t"
  using assms by (auto simp: nvram_realloc_def nv_fits_def Let_def split: if_splits option.splits prod.splits)

lemma realloc_fails:
  assumes "nvram_realloc h t name v = (None, t1, h1)"
  shows "t1 = t \<or> t1 = map_option (\<lambda>y. y\<lparr>tvalue := None\<rparr>) t" "\<not> nv_fits h v \<or> mem h \<noteq> []" "\<not> nv_fits h v \<Longrightarrow> t1 = t"
  using assms by (auto simp: nvram_realloc_def nv_fits_def nv_malloc_def Let_def split: if_splits option.splits prod.splits list.splits)

lemma set_unfold:
  assumes "nvram_realloc h (tuple_find name (nvram_hash h ! slot c name)) name v = (u, t1, h1)"
    and "nvram_set c h name v = (r, h')"
  shows "r = (if u = None then - ENOMEM else 0)"
    "h' = h1\<lparr>nvram_hash := (nvram_hash h)[slot c name :=
       if u = None \<or> tuple_find name (nvram_hash h ! slot c name) \<noteq> None
       then (case t1 of None \<Rightarrow> nvram_hash h ! slot c name | Some x \<Rightarrow> tuple_put name x (nvram_hash h ! slot c name))
       else the u # nvram_hash h ! slot c name]\<rparr>"
proof -
  have "r = (if u = None then - ENOMEM else 0) \<and> h' = h1\<lparr>nvram_hash := (nvram_hash h)[slot c name :=
       if u = None \<or> tuple_find name (nvram_hash h ! slot c name) \<noteq> None
       then (case t1 of None \<Rightarrow> nvram_hash h ! slot c name | Some x \<Rightarrow> tuple_put name x (nvram_hash h ! slot c name))
       else the u # nvram_hash h ! slot c name]\<rparr>"
    using assms(2) unfolding nvram_set_def Let_def assms(1) prod.case
    by (cases u; cases "tuple_find name (nvram_hash h ! slot c name)") simp_all
  then show "r = (if u = None then - ENOMEM else 0)"
    "h' = h1\<lparr>nvram_hash := (nvram_hash h)[slot c name :=
       if u = None \<or> tuple_find name (nvram_hash h ! slot c name) \<noteq> None
       then (case t1 of None \<Rightarrow> nvram_hash h ! slot c name | Some x \<Rightarrow> tuple_put name x (nvram_hash h ! slot c name))
       else the u # nvram_hash h ! slot c name]\<rparr>" by blast+
qed

lemma set_cases:
  assumes inv: "nv_inv c h" and s: "nvram_set c h name v = (r, h')"
  obtains (ok) "r = 0" "nv_fits h v" "nv_lookup c h' = (nv_lookup c h)(name \<mapsto> v)"
  | (fails) "r = - ENOMEM" "\<not> nv_fits h v \<or> mem h \<noteq> []"
      "nv_lookup c h' = nv_lookup c h \<or> nv_fits h v \<and> nv_lookup c h' = (nv_lookup c h)(name := None)"
proof -
  let ?i = "slot c name"
  let ?b = "nvram_hash h ! ?i"
  let ?t = "tuple_find name ?b"
  obtain u t1 h1 where a: "nvram_realloc h ?t name v = (u, t1, h1)" by (rule prod_cases3)
  let ?b1 = "case t1 of None \<Rightarrow> ?b | Some x \<Rightarrow> tuple_put name x ?b"
  have t: "?t = Some y \<Longrightarrow> tname y = name \<and> name \<in> tname ` set ?b" for y by (auto dest: tuple_find_Some)
  show ?thesis
  proof (cases u)
    case None
    have h': "r = - ENOMEM" "nvram_hash h' = (nvram_hash h)[?i := ?b1]"
      using set_unfold [OF a s] None by simp_all
    note f = realloc_fails [OF a [unfolded None]]
    have n: "tname x = name \<and> ?t \<noteq> None" if "t1 = Some x" for x
      using f(1) that t by (cases ?t) auto
    have b1: "n \<noteq> name \<Longrightarrow> tuple_find n ?b1 = tuple_find n ?b" for n
      by (cases t1) (simp_all add: tuple_find_put n)
    have "tuple_find name ?b1 = t1"
    proof (cases t1)
      case (Some x)
      then show ?thesis using n [OF Some] by (simp add: tuple_find_put tuple_find_None)
    qed (use f(1) in \<open>cases ?t; simp\<close>)
    then have "nv_lookup c h' = (nv_lookup c h)(name := case t1 of None \<Rightarrow> None | Some t \<Rightarrow> tvalue t)"
      using nv_lookup_update [OF inv h'(2) b1] by simp
    then have "nv_lookup c h' = nv_lookup c h \<or> nv_fits h v \<and> nv_lookup c h' = (nv_lookup c h)(name := None)"
      using f(1) f(3) by (cases ?t; cases "nv_fits h v") (auto simp: nvram_get_def fun_eq_iff)
    from fails [OF h'(1) f(2) this] show ?thesis .
  next
    case (Some x)
    note o = realloc_ok [OF a [unfolded Some]]
    let ?b2 = "if ?t \<noteq> None then ?b1 else x # ?b"
    have h': "r = 0" "nvram_hash h' = (nvram_hash h)[?i := ?b2]"
      using set_unfold [OF a s] Some by simp_all
    have nx: "tname x = name" using o(3) t by (cases ?t) auto
    have b2: "tuple_find n ?b2 = (if n = name then Some x else tuple_find n ?b)" for n
      using o(4) nx t by (cases ?t) (auto simp: tuple_find_put)
    then have "nv_lookup c h' = (nv_lookup c h)(name \<mapsto> v)"
      using nv_lookup_update [OF inv h'(2)] o(2) by simp
    from ok [OF h'(1) o(1) this] show ?thesis .
  qed
qed

lemma set_inv:
  assumes inv: "nv_inv c h" and s: "nvram_set c h name v = (r, h')"
  shows "nv_inv c h'" "h' = h\<lparr>mem := mem h', nvram_hash := nvram_hash h'\<rparr>" "mem h = [] \<Longrightarrow> mem h' = []"
proof -
  let ?i = "slot c name"
  let ?b = "nvram_hash h ! ?i"
  let ?t = "tuple_find name ?b"
  obtain u t1 h1 where a: "nvram_realloc h ?t name v = (u, t1, h1)" by (rule prod_cases3)
  let ?b1 = "case t1 of None \<Rightarrow> ?b | Some x \<Rightarrow> tuple_put name x ?b"
  have i: "distinct (map tname ?b)" "\<forall>t \<in> set ?b. slot c (tname t) = ?i" using inv by (simp_all add: nv_inv_def)
  have t: "?t = Some y \<Longrightarrow> tname y = name" for y by (auto dest: tuple_find_Some)
  have n1: "tname x = name" if x: "t1 = Some x" for x
  proof (cases u)
    case None
    then show ?thesis using realloc_fails(1) [OF a [unfolded None]] x t by (cases ?t) auto
  next
    case (Some y)
    then show ?thesis using realloc_ok(3,4) [OF a [unfolded Some]] x t by (cases ?t) auto
  qed
  have m1: "map tname ?b1 = map tname ?b" by (cases t1) (simp_all add: tuple_put_names n1)
  let ?b2 = "if u = None \<or> ?t \<noteq> None then ?b1 else the u # ?b"
  have h': "nvram_hash h' = (nvram_hash h)[?i := ?b2]" "mem h' = mem h1" "h' = h1\<lparr>nvram_hash := nvram_hash h'\<rparr>"
    using set_unfold(2) [OF a s] by simp_all
  have "distinct (map tname ?b2) \<and> (\<forall>n \<in> set (map tname ?b2). slot c n = ?i)"
  proof (cases "u = None \<or> ?t \<noteq> None")
    case True
    then show ?thesis using i unfolding if_P [OF True] m1 by simp
  next
    case False
    then obtain x where x: "u = Some x" "?t = None" by auto
    have "tname x = name" using realloc_ok(3) [OF a [unfolded x(1)]] x(2) by simp
    moreover have "name \<notin> tname ` set ?b" using x(2) by (simp add: tuple_find_None)
    ultimately show ?thesis using i x by simp
  qed
  then show "nv_inv c h'" using nv_inv_update [OF inv _ _ h'(1)] by simp
  show "mem h = [] \<Longrightarrow> mem h' = []" using realloc_frame(2) [OF a] h'(2) by simp
  have "h1\<lparr>nvram_hash := x\<rparr> = h\<lparr>mem := mem h1, nvram_hash := x\<rparr>" for x
    by (subst realloc_frame(1) [OF a]) simp
  then show "h' = h\<lparr>mem := mem h', nvram_hash := nvram_hash h'\<rparr>"
    using h'(2,3) by simp
qed

lemma tuple_del_absent: "tuple_find name ts = None \<Longrightarrow> tuple_del name ts = ts"
  by (induction ts) (auto split: if_splits)

lemma unset_refines:
  assumes inv: "nv_inv c h" and "nvram_unset c h (Some name) = (r, h')"
  shows "r = 0" "nv_inv c h'" "nv_lookup c h' = (nv_lookup c h)(name := None)"
proof -
  let ?i = "slot c name"
  let ?b = "nvram_hash h ! ?i"
  have i: "distinct (map tname ?b)" "\<forall>t \<in> set ?b. slot c (tname t) = ?i" using inv by (simp_all add: nv_inv_def)
  have "nvram_hash h' = (nvram_hash h)[?i := tuple_del name ?b] \<and> r = 0"
  proof (cases "tuple_find name ?b")
    case None
    then show ?thesis using assms(2) by (simp add: nvram_unset_def tuple_del_absent)
  qed (use assms(2) in \<open>auto simp: nvram_unset_def Let_def\<close>)
  then have h': "nvram_hash h' = (nvram_hash h)[?i := tuple_del name ?b]" "r = 0" by simp_all
  show "r = 0" by (fact h'(2))
  have "\<forall>t \<in> set (tuple_del name ?b). slot c (tname t) = ?i"
    unfolding names_slots tuple_del_names using i(2) set_remove1_subset [of name "map tname ?b"] by auto
  moreover have "distinct (map tname (tuple_del name ?b))" using i(1) by (simp add: tuple_del_names)
  ultimately show "nv_inv c h'" using nv_inv_update [OF inv _ _ h'(1)] by blast
  show "nv_lookup c h' = (nv_lookup c h)(name := None)"
    using nv_lookup_update [OF inv h'(1)] i(1) by (simp add: tuple_find_del)
qed

lemma free_empties:
  assumes "length (nvram_hash h) = 257"
  shows "nv_inv c (nvram_free h)" "nv_lookup c (nvram_free h) = (\<lambda>_. None)"
  using assms by (auto simp: nv_inv_def nvram_free_def nvram_get_def fun_eq_iff)

section \<open>Contract of the store\<close>

text \<open>What the loader of an image relies on: a store that starts empty takes values one by one, and a later value of a name
  replaces an earlier one. \<open>fits\<close> is the bound on a value that the store accepts.\<close>

locale kv_store =
  fixes inv :: "'h \<Rightarrow> bool"
    and get :: "'h \<Rightarrow> 'k \<Rightarrow> 'v option"
    and put :: "'k \<Rightarrow> 'v \<Rightarrow> 'h \<Rightarrow> 'h"
    and fits :: "'h \<Rightarrow> 'v \<Rightarrow> bool"
  assumes put_inv: "inv h \<Longrightarrow> inv (put k v h)"
    and put_get: "inv h \<Longrightarrow> fits h v \<Longrightarrow> get (put k v h) = (get h)(k \<mapsto> v)"
    and put_fits: "inv h \<Longrightarrow> fits (put k v h) w = fits h w"
begin

lemma puts_inv: "inv h \<Longrightarrow> inv (fold (\<lambda>(k, v). put k v) kvs h)"
  by (induction kvs arbitrary: h) (auto simp: put_inv)

lemma puts_get:
  "inv h \<Longrightarrow> (\<And>k v. (k, v) \<in> set kvs \<Longrightarrow> fits h v) \<Longrightarrow>
   get (fold (\<lambda>(k, v). put k v) kvs h) = get h ++ map_of (rev kvs)"
proof (induction kvs arbitrary: h)
  case (Cons kv kvs)
  obtain k v where kv: "kv = (k, v)" by (rule prod.exhaust)
  have f: "fits h v" using Cons.prems(2) [of k v] kv by simp
  have "get (fold (\<lambda>(k, v). put k v) kvs (put k v h)) = get (put k v h) ++ map_of (rev kvs)"
    using Cons.prems kv by (intro Cons.IH) (auto simp: put_inv put_fits)
  then show ?case
    using put_get [OF Cons.prems(1) f] kv by (simp add: map_add_def fun_eq_iff split: option.split)
qed simp

lemma puts_distinct:
  assumes "inv h" and "get h = (\<lambda>_. None)" and "distinct (map fst kvs)" and "\<And>k v. (k, v) \<in> set kvs \<Longrightarrow> fits h v"
  shows "get (fold (\<lambda>(k, v). put k v) kvs h) = map_of kvs"
proof -
  have "map_of (rev kvs) = map_of kvs"
    using assms(3) by (intro map_of_eqI) (auto simp: map_of_eq_Some_iff rev_map [symmetric])
  then show ?thesis using puts_get [OF assms(1,4)] assms(2) by (simp add: map_add_def fun_eq_iff split: option.split)
qed

end

lemma put_laws:
  assumes "nv_inv c h" and "mem h = []"
  shows "nv_inv c (snd (nvram_set c h k v)) \<and> mem (snd (nvram_set c h k v)) = []"
    "nv_fits h v \<Longrightarrow> nv_lookup c (snd (nvram_set c h k v)) = (nv_lookup c h)(k \<mapsto> v)"
    "nv_fits (snd (nvram_set c h k v)) w = nv_fits h w"
proof -
  obtain r h' where s: "nvram_set c h k v = (r, h')" by (rule prod.exhaust)
  note i = set_inv [OF assms(1) s]
  show "nv_inv c (snd (nvram_set c h k v)) \<and> mem (snd (nvram_set c h k v)) = []" using i(1,3) assms(2) s by simp
  show "nv_fits h v \<Longrightarrow> nv_lookup c (snd (nvram_set c h k v)) = (nv_lookup c h)(k \<mapsto> v)"
    using set_cases [OF assms(1) s] assms(2) s by auto
  have "nv_length h' = nv_length h \<and> nv_offset h' = nv_offset h" by (subst i(2), subst i(2)) simp
  then show "nv_fits (snd (nvram_set c h k v)) w = nv_fits h w" using s by (simp add: nv_fits_def)
qed

interpretation nv: kv_store "\<lambda>h. nv_inv c h \<and> mem h = []" "nv_lookup c" "\<lambda>k v h. snd (nvram_set c h k v)" nv_fits for c
  by unfold_locales (auto simp: put_laws)

section \<open>Listing the variables\<close>

lemma getall_bucket_eq: "mem h = [] \<Longrightarrow> getall_bucket b l h = (rev b @ l, h)"
  by (induction b arbitrary: l) (simp_all add: nv_malloc_def)

lemma getall_loop_eq: "mem h = [] \<Longrightarrow> getall_loop bs l h = (rev (concat bs) @ l, h)"
  by (induction bs arbitrary: l) (simp_all add: getall_bucket_eq)

lemma lookup_tuples:
  assumes "nv_inv c h"
  shows "t \<in> set (concat (nvram_hash h)) \<longleftrightarrow> tuple_find (tname t) (nvram_hash h ! slot c (tname t)) = Some t"
proof
  assume "t \<in> set (concat (nvram_hash h))"
  then obtain i where i: "i < 257" "t \<in> set (nvram_hash h ! i)"
    using assms by (auto simp: nv_inv_def in_set_conv_nth) metis
  then have s: "slot c (tname t) = i" and d: "distinct (map tname (nvram_hash h ! i))" using assms by (auto simp: nv_inv_def)
  have "distinct (map tname ts) \<Longrightarrow> t \<in> set ts \<Longrightarrow> tuple_find (tname t) ts = Some t" for ts
    by (induction ts) auto
  with i d s show "tuple_find (tname t) (nvram_hash h ! slot c (tname t)) = Some t" by simp
next
  assume "tuple_find (tname t) (nvram_hash h ! slot c (tname t)) = Some t"
  then have "t \<in> set (nvram_hash h ! slot c (tname t))" by (auto dest: tuple_find_Some)
  then show "t \<in> set (concat (nvram_hash h))" using assms by (auto simp: nv_inv_def intro!: bexI [of _ "nvram_hash h ! slot c (tname t)"])
qed

lemma distinct_tuples:
  assumes "nv_inv c h"
  shows "distinct (map tname (concat (nvram_hash h)))"
proof -
  have "distinct (map tname (concat (map (\<lambda>i. nvram_hash h ! i) [0..<n])))" if "n \<le> 257" for n
    using that
  proof (induction n)
    case (Suc n)
    have *: "tname t \<noteq> tname u" if "t \<in> set (nvram_hash h ! n)" "u \<in> set (nvram_hash h ! i)" "i < n" for t u i
      using that Suc.prems assms by (metis nv_inv_def Suc_le_lessD less_trans less_irrefl)
    then show ?case using Suc assms by (auto simp: nv_inv_def dest: *)
  qed simp
  from this [of 257] show ?thesis using assms map_nth [of "nvram_hash h"] by (simp add: nv_inv_def)
qed

section \<open>Properties\<close>

definition ex_nv_cpu :: nv_cpu where
  "ex_nv_cpu = \<lparr>char_signed = True, nv_ulong_max = 2 ^ 32 - 1, size_bits = 32\<rparr>"

definition ex_handle :: "bool list \<Rightarrow> nvram_handle" where
  "ex_handle ms = \<lparr>area = [], map_addr = 0x40000000, nv_length = 0x8000, nv_offset = 0,
     nvram_hash = replicate 257 [], nvram_dead = [], mem = ms\<rparr>"

lemma ex_handle_inv: "nv_inv c (ex_handle ms)"
  by (simp add: nv_inv_def ex_handle_def)

text \<open>C14: the hash table implements a map from names to values, for signed and unsigned \<open>char\<close>. A successful \<open>nvram_set\<close> stores
  exactly the given value under the given name; a failing one returns \<open>-ENOMEM\<close> and changes no other variable, and nothing at
  all when the value is too long. With enough memory it succeeds exactly when the value fits. \<open>nvram_unset\<close> removes
  exactly the given name. Both keep every tuple in the list of its hash value and no name twice.\<close>

theorem nvram_store_refines:
  assumes "nv_inv c h"
  shows "(\<exists>r h'. nvram_set c h name v = (r, h') \<and> nv_inv c h' \<and>
        (if r = 0 then nv_lookup c h' = (nv_lookup c h)(name \<mapsto> v)
         else r = - ENOMEM \<and> (nv_lookup c h' = nv_lookup c h \<or> nv_fits h v \<and> nv_lookup c h' = (nv_lookup c h)(name := None))) \<and>
        (mem h = [] \<longrightarrow> r = 0 \<longleftrightarrow> nv_fits h v)) \<and>
     (\<exists>h'. nvram_unset c h (Some name) = (0, h') \<and> nv_inv c h' \<and> nv_lookup c h' = (nv_lookup c h)(name := None))"
proof
  obtain r h' where s: "nvram_set c h name v = (r, h')" by (rule prod.exhaust)
  have "(if r = 0 then nv_lookup c h' = (nv_lookup c h)(name \<mapsto> v)
         else r = - ENOMEM \<and> (nv_lookup c h' = nv_lookup c h \<or> nv_fits h v \<and> nv_lookup c h' = (nv_lookup c h)(name := None))) \<and>
        (mem h = [] \<longrightarrow> (r = 0 \<longleftrightarrow> nv_fits h v))"
    by (rule set_cases [OF assms s]) auto
  with s set_inv(1) [OF assms s]
  show "\<exists>r h'. nvram_set c h name v = (r, h') \<and> nv_inv c h' \<and>
        (if r = 0 then nv_lookup c h' = (nv_lookup c h)(name \<mapsto> v)
         else r = - ENOMEM \<and> (nv_lookup c h' = nv_lookup c h \<or> nv_fits h v \<and> nv_lookup c h' = (nv_lookup c h)(name := None))) \<and>
        (mem h = [] \<longrightarrow> r = 0 \<longleftrightarrow> nv_fits h v)" by blast
next
  obtain r h' where "nvram_unset c h (Some name) = (r, h')" by (rule prod.exhaust)
  with unset_refines [OF assms this]
  show "\<exists>h'. nvram_unset c h (Some name) = (0, h') \<and> nv_inv c h' \<and> nv_lookup c h' = (nv_lookup c h)(name := None)" by blast
qed

theorem nvram_store_refines_witness:
  "\<exists>h'. nvram_set ex_nv_cpu (ex_handle []) [97] [98] = (0, h') \<and> nv_lookup ex_nv_cpu h' = (nv_lookup ex_nv_cpu (ex_handle []))([97] \<mapsto> [98])"
proof -
  have "mem (ex_handle []) = []" "nv_fits (ex_handle []) [98]" by (simp_all add: ex_handle_def nv_fits_def)
  with nvram_store_refines [OF ex_handle_inv, of ex_nv_cpu "[]" "[97]" "[98]"] show ?thesis by auto
qed

text \<open>\<open>nvram_getall\<close> lists every variable once with its value: with enough memory the names of the list are distinct and
  the list, read as a map, is the store.\<close>

lemma nvram_getall_complete:
  assumes "nv_inv c h" and "mem h = []"
  shows "distinct (map tname (fst (nvram_getall h)))"
    and "t \<in> set (fst (nvram_getall h)) \<longleftrightarrow> tuple_find (tname t) (nvram_hash h ! slot c (tname t)) = Some t"
proof -
  have g: "fst (nvram_getall h) = rev (concat (nvram_hash h))" by (simp add: nvram_getall_def getall_loop_eq assms(2))
  show "distinct (map tname (fst (nvram_getall h)))" using distinct_tuples [OF assms(1)] by (simp add: g rev_map [symmetric])
  show "t \<in> set (fst (nvram_getall h)) \<longleftrightarrow> tuple_find (tname t) (nvram_hash h ! slot c (tname t)) = Some t"
    using lookup_tuples [OF assms(1), of t] unfolding g by simp
qed

end
