(* ===== verification/Nvram_Image.thy ===== *)
theory Nvram_Image
  imports Nvram_Store C_Numbers
begin

text \<open>
  The image of the \<open>nvram\<close> library (\<open>crc.c\<close>, \<open>sdinitvals.h\<close>, second half of \<open>nvram.c\<close>): the header and its checksum, loading the
  variables from the mapped memory, and writing them back.

  The machine is little-endian, as the boards with such an image are. Reading or writing outside the mapped
  memory, or through a null pointer, is \<open>None\<close>.
\<close>

section \<open>Checksum\<close>

definition crc8_table :: "byte list" where
  "crc8_table =
    [0x00, 0xF7, 0xB9, 0x4E, 0x25, 0xD2, 0x9C, 0x6B, 0x4A, 0xBD, 0xF3, 0x04, 0x6F, 0x98, 0xD6, 0x21,
     0x94, 0x63, 0x2D, 0xDA, 0xB1, 0x46, 0x08, 0xFF, 0xDE, 0x29, 0x67, 0x90, 0xFB, 0x0C, 0x42, 0xB5,
     0x7F, 0x88, 0xC6, 0x31, 0x5A, 0xAD, 0xE3, 0x14, 0x35, 0xC2, 0x8C, 0x7B, 0x10, 0xE7, 0xA9, 0x5E,
     0xEB, 0x1C, 0x52, 0xA5, 0xCE, 0x39, 0x77, 0x80, 0xA1, 0x56, 0x18, 0xEF, 0x84, 0x73, 0x3D, 0xCA,
     0xFE, 0x09, 0x47, 0xB0, 0xDB, 0x2C, 0x62, 0x95, 0xB4, 0x43, 0x0D, 0xFA, 0x91, 0x66, 0x28, 0xDF,
     0x6A, 0x9D, 0xD3, 0x24, 0x4F, 0xB8, 0xF6, 0x01, 0x20, 0xD7, 0x99, 0x6E, 0x05, 0xF2, 0xBC, 0x4B,
     0x81, 0x76, 0x38, 0xCF, 0xA4, 0x53, 0x1D, 0xEA, 0xCB, 0x3C, 0x72, 0x85, 0xEE, 0x19, 0x57, 0xA0,
     0x15, 0xE2, 0xAC, 0x5B, 0x30, 0xC7, 0x89, 0x7E, 0x5F, 0xA8, 0xE6, 0x11, 0x7A, 0x8D, 0xC3, 0x34,
     0xAB, 0x5C, 0x12, 0xE5, 0x8E, 0x79, 0x37, 0xC0, 0xE1, 0x16, 0x58, 0xAF, 0xC4, 0x33, 0x7D, 0x8A,
     0x3F, 0xC8, 0x86, 0x71, 0x1A, 0xED, 0xA3, 0x54, 0x75, 0x82, 0xCC, 0x3B, 0x50, 0xA7, 0xE9, 0x1E,
     0xD4, 0x23, 0x6D, 0x9A, 0xF1, 0x06, 0x48, 0xBF, 0x9E, 0x69, 0x27, 0xD0, 0xBB, 0x4C, 0x02, 0xF5,
     0x40, 0xB7, 0xF9, 0x0E, 0x65, 0x92, 0xDC, 0x2B, 0x0A, 0xFD, 0xB3, 0x44, 0x2F, 0xD8, 0x96, 0x61,
     0x55, 0xA2, 0xEC, 0x1B, 0x70, 0x87, 0xC9, 0x3E, 0x1F, 0xE8, 0xA6, 0x51, 0x3A, 0xCD, 0x83, 0x74,
     0xC1, 0x36, 0x78, 0x8F, 0xE4, 0x13, 0x5D, 0xAA, 0x8B, 0x7C, 0x32, 0xC5, 0xAE, 0x59, 0x17, 0xE0,
     0x2A, 0xDD, 0x93, 0x64, 0x0F, 0xF8, 0xB6, 0x41, 0x60, 0x97, 0xD9, 0x2E, 0x45, 0xB2, 0xFC, 0x0B,
     0xBE, 0x49, 0x07, 0xF0, 0x9B, 0x6C, 0x22, 0xD5, 0xF4, 0x03, 0x4D, 0xBA, 0xD1, 0x26, 0x68, 0x9F]"

fun hndcrc8 :: "byte list \<Rightarrow> byte \<Rightarrow> byte" where
  "hndcrc8 [] crc = crc"
| "hndcrc8 (b # bs) crc = hndcrc8 bs (crc8_table ! unat ((crc XOR b) AND 0xff))"

section \<open>Header\<close>

record nvram_header =
  nvh_magic :: u32
  nvh_len :: u32
  nvh_crc_ver_init :: u32
  nvh_config_refresh :: u32
  nvh_config_ncdl :: u32

definition nvh_of :: "byte list \<Rightarrow> nvram_header" where
  "nvh_of bs = \<lparr>nvh_magic = le32_of bs, nvh_len = le32_of (drop 4 bs), nvh_crc_ver_init = le32_of (drop 8 bs),
     nvh_config_refresh = le32_of (drop 12 bs), nvh_config_ncdl = le32_of (drop 16 bs)\<rparr>"

definition nvh_bytes :: "nvram_header \<Rightarrow> byte list" where
  "nvh_bytes nh = le32_bytes (nvh_magic nh) @ le32_bytes (nvh_len nh) @ le32_bytes (nvh_crc_ver_init nh) @
     le32_bytes (nvh_config_refresh nh) @ le32_bytes (nvh_config_ncdl nh)"

abbreviation NVRAM_MAGIC :: u32 where "NVRAM_MAGIC \<equiv> 0x48534C46"
abbreviation NVRAM_VERSION :: u32 where "NVRAM_VERSION \<equiv> 1"
abbreviation NVRAM_CRC_START_POSITION :: nat where "NVRAM_CRC_START_POSITION \<equiv> 9"
abbreviation NVH_SIZE :: nat where "NVH_SIZE \<equiv> 20"

definition SDRAM_INIT :: u32 where "SDRAM_INIT = 0x419"
definition SDRAM_CONFIG :: u32 where "SDRAM_CONFIG = 0"
definition SDRAM_REFRESH :: u32 where "SDRAM_REFRESH = (0x40 AND 0xff) OR 0x8000"

text \<open>\<open>nvram_header(h)\<close>, read.\<close>

definition nvram_header_at :: "nvram_handle \<Rightarrow> nvram_header" where
  "nvram_header_at h = nvh_of (drop (unat (nv_offset h)) (area h))"

section \<open>Loading\<close>

definition cs :: "string \<Rightarrow> byte list" where
  "cs s = map of_char s"

text \<open>The conversions \<open>%04X\<close> of a 16-bit and \<open>%08X\<close> of a 32-bit number.\<close>

fun hex_digits :: "nat \<Rightarrow> u32 \<Rightarrow> byte list" where
  "hex_digits 0 w = []"
| "hex_digits (Suc k) w = hex_digits k (drop_bit 4 w) @
     [let d = ucast (w AND 15) in if d < 10 then 48 + d else 55 + d]"

text \<open>The loop over \<open>name=value\<close> strings. Each is cut at its first equals sign; one without stops the loop.\<close>

function rehash_loop :: "nv_cpu \<Rightarrow> byte list \<Rightarrow> nvram_handle \<Rightarrow> nvram_handle option" where
  "rehash_loop c bs h =
     (case bs of
        [] \<Rightarrow> None
      | b # _ \<Rightarrow>
          if b = 0 then Some h
          else let e = takeWhile (\<lambda>x. x \<noteq> 0) bs
               in if length e = length bs then None
                  else if of_char (CHR ''='') \<notin> set e then Some h
                  else let name = takeWhile (\<lambda>x. x \<noteq> of_char (CHR ''='')) e;
                           v = drop (length name + 1) e
                       in rehash_loop c (drop (length e + 1) bs) (snd (nvram_set c h name v)))"
  by pat_completeness auto
termination
  by (relation "measure (\<lambda>(c, bs, h). length bs)") auto

declare rehash_loop.simps [simp del]

definition set_default :: "nv_cpu \<Rightarrow> string \<Rightarrow> byte list \<Rightarrow> nvram_handle \<Rightarrow> nvram_handle" where
  "set_default c name v h = (if nvram_get c h (Some (cs name)) = None then snd (nvram_set c h (cs name) v) else h)"

definition nvram_rehash :: "nv_cpu \<Rightarrow> nvram_handle \<Rightarrow> nvram_handle option" where
  "nvram_rehash c h =
     (let nh = nvram_header_at h
      in map_option (\<lambda>h1.
           set_default c ''sdram_ncdl'' (cs ''0x'' @ hex_digits 8 (nvh_config_ncdl nh))
          (set_default c ''sdram_refresh'' (cs ''0x'' @ hex_digits 4 (drop_bit 16 (nvh_config_refresh nh) AND 0xffff))
          (set_default c ''sdram_config'' (cs ''0x'' @ hex_digits 4 (nvh_config_refresh nh AND 0xffff))
          (set_default c ''sdram_init'' (cs ''0x'' @ hex_digits 4 (drop_bit 16 (nvh_crc_ver_init nh))) h1))))
         (rehash_loop c (drop (unat (nv_offset h) + NVH_SIZE) (area h)) (nvram_free h)))"

section \<open>Writing\<close>

text \<open>\<open>strtoul(s, NULL, 0)\<close>, its low 32 bits.\<close>

definition nv_num :: "nv_cpu \<Rightarrow> byte list \<Rightarrow> u32" where
  "nv_num c s = word_of_int (fst (strtoul (nv_ulong_max c) 0 (map (\<lambda>b. char_of (unat b)) s)))"

definition commit_header :: "nv_cpu \<Rightarrow> nvram_handle \<Rightarrow> nvram_header \<Rightarrow> nvram_header" where
  "commit_header c h nh =
     (case (nvram_get c h (Some (cs ''sdram_init'')), nvram_get c h (Some (cs ''sdram_config'')),
            nvram_get c h (Some (cs ''sdram_refresh'')), nvram_get c h (Some (cs ''sdram_ncdl''))) of
        (Some i, Some g, Some r, Some n) \<Rightarrow>
          nh\<lparr>nvh_magic := NVRAM_MAGIC,
             nvh_crc_ver_init := push_bit 8 NVRAM_VERSION OR push_bit 16 (nv_num c i AND 0xffff),
             nvh_config_refresh := (nv_num c g AND 0xffff) OR push_bit 16 (nv_num c r AND 0xffff),
             nvh_config_ncdl := nv_num c n\<rparr>
      | _ \<Rightarrow>
          nh\<lparr>nvh_magic := NVRAM_MAGIC,
             nvh_crc_ver_init := push_bit 8 NVRAM_VERSION OR push_bit 16 SDRAM_INIT,
             nvh_config_refresh := SDRAM_CONFIG OR push_bit 16 SDRAM_REFRESH,
             nvh_config_ncdl := 0\<rparr>)"

text \<open>\<open>"%s=%s"\<close> with its NUL.\<close>

definition entry_bytes :: "byte list \<Rightarrow> byte list \<Rightarrow> byte list" where
  "entry_bytes name v = name @ [of_char (CHR ''='')] @ v @ [0]"

text \<open>The two loops that write the tuples. Pointers are positions in the mapped memory. When a tuple does not fit, the rest
  of its list is left out and the next list is tried.\<close>

fun write_bucket :: "nat \<Rightarrow> nvram_tuple list \<Rightarrow> nat \<times> byte list \<Rightarrow> (nat \<times> byte list) option" where
  "write_bucket lim [] s = Some s"
| "write_bucket lim (t # ts) (ptr, buf) =
     (case tvalue t of
        None \<Rightarrow> None
      | Some v \<Rightarrow>
          if ptr + length (tname t) + 1 + length v + 1 > lim then Some (ptr, buf)
          else write_bucket lim ts (ptr + length (tname t) + 1 + length v + 1, memcpy_at buf ptr (entry_bytes (tname t) v)))"

fun write_table :: "nat \<Rightarrow> nvram_tuple list list \<Rightarrow> nat \<times> byte list \<Rightarrow> (nat \<times> byte list) option" where
  "write_table lim [] s = Some s"
| "write_table lim (b # bs) s = (case write_bucket lim b s of None \<Rightarrow> None | Some s1 \<Rightarrow> write_table lim bs s1)"

text \<open>The remainder \<open>x % 4\<close> of C, which has the sign of \<open>x\<close>.\<close>

definition c_rem4 :: "int \<Rightarrow> int" where
  "c_rem4 x = (if 0 \<le> x then x mod 4 else - (- x mod 4))"

text \<open>The NUL behind the last string and the padding. The address is converted to \<open>int\<close> for the remainder.\<close>

definition pad_image :: "nvram_handle \<Rightarrow> nat \<Rightarrow> byte list \<Rightarrow> (nat \<times> byte list) option" where
  "pad_image h ptr buf =
     (let buf1 = buf[ptr := 0];
          ptr1 = ptr + 1;
          r = c_rem4 (sint (map_addr h + of_nat ptr1));
          k = (if r \<noteq> 0 then nat (4 - r) else 0)
      in if ptr \<ge> length buf \<or> ptr1 + k > length buf then None
         else Some (ptr1 + 1, memcpy_at buf1 ptr1 (replicate k 0)))"

definition NVRAM_ROUNDUP :: "nat \<Rightarrow> nat \<Rightarrow> nat" where
  "NVRAM_ROUNDUP x y = (x + (y - 1)) div y * y"

definition seal_image :: "nvram_handle \<Rightarrow> nvram_header \<Rightarrow> nat \<times> byte list \<Rightarrow> nvram_handle option" where
  "seal_image h nh = (\<lambda>(ptr, buf).
     let off = unat (nv_offset h);
         nh1 = nh\<lparr>nvh_len := of_nat (NVRAM_ROUNDUP (ptr - off) 4)\<rparr>;
         crc = hndcrc8 (drop NVRAM_CRC_START_POSITION (nvh_bytes (nh1\<lparr>nvh_magic := 0, nvh_len := 0\<rparr>))) 0xff;
         crc1 = hndcrc8 (take (unat (nvh_len nh1 - of_nat NVH_SIZE)) (drop (off + NVH_SIZE) buf)) crc
     in if off + NVH_SIZE + unat (nvh_len nh1 - of_nat NVH_SIZE) > length buf then None
        else Some (h\<lparr>area := memcpy_at buf off (nvh_bytes (nh1\<lparr>nvh_crc_ver_init := nvh_crc_ver_init nh1 OR ucast crc1\<rparr>))\<rparr>))"

definition nvram_commit :: "nv_cpu \<Rightarrow> nat \<Rightarrow> nvram_handle \<Rightarrow> (int \<times> nvram_handle) option" where
  "nvram_commit c nvram_part_size h =
     (let off = unat (nv_offset h);
          dat = off + NVH_SIZE;
          nh = commit_header c h (nvram_header_at h)
      in if dat > nvram_part_size \<or> nvram_part_size > length (area h) then None
         else
           let buf = memcpy_at (memcpy_at (area h) off (nvh_bytes nh)) dat (replicate (nvram_part_size - dat) 0xff)
           in Option.bind (write_table (nvram_part_size - 2) (nvram_hash h) (dat, buf)) (\<lambda>(ptr, buf1).
                Option.bind (pad_image h ptr buf1) (\<lambda>s.
                  Option.bind (seal_image h nh s) (\<lambda>h1.
                    map_option (\<lambda>h2. (0, h2)) (nvram_rehash c h1)))))"

section \<open>The table of the checksum\<close>

text \<open>One step of a division by the polynomial \<open>x^8 + x^7 + x^6 + x^4 + x^2 + 1\<close>, bits reversed.\<close>

definition crc8_step :: "byte \<Rightarrow> byte" where
  "crc8_step w = (if bit w 0 then drop_bit 1 w XOR 0xAB else drop_bit 1 w)"

definition crc8_bits :: "byte \<Rightarrow> byte" where
  "crc8_bits w = (crc8_step ^^ 8) w"

lemma crc8_step_xor: "crc8_step (x XOR y) = crc8_step x XOR crc8_step y"
  by (rule bit_word_eqI) (auto simp: crc8_step_def bit_simps)

lemma crc8_bits_xor: "crc8_bits (x XOR y) = crc8_bits x XOR crc8_bits y"
proof -
  have "(crc8_step ^^ k) (x XOR y) = (crc8_step ^^ k) x XOR (crc8_step ^^ k) y" for k
    by (induction k) (simp_all add: crc8_step_xor)
  then show ?thesis by (simp add: crc8_bits_def)
qed

text \<open>The table of a linear function, from its values at the powers of two: a table for the numbers below \<open>2 ^ k\<close> is
  doubled by the value at \<open>2 ^ k\<close>.\<close>

fun doubled :: "byte list \<Rightarrow> byte list \<Rightarrow> byte list" where
  "doubled [] t = t"
| "doubled (b # bs) t = doubled bs (t @ map (\<lambda>x. x XOR b) t)"

lemma of_nat_plus_power:
  assumes "n < 2 ^ k" and "k < 8"
  shows "(of_nat (n + 2 ^ k) :: byte) = of_nat n XOR 2 ^ k"
proof -
  have "(of_nat n :: byte) AND 2 ^ k = 0"
    using assms(1) by (intro bit_word_eqI) (auto simp: bit_simps bit_iff_odd [of n])
  then have "(of_nat n :: byte) + 2 ^ k = of_nat n XOR 2 ^ k"
    by (simp add: disjunctive_xor_eq_or disjunctive_add_eq_or)
  then show ?thesis by simp
qed

lemma doubled_linear:
  fixes f :: "byte \<Rightarrow> byte"
  assumes "\<And>x y. f (x XOR y) = f x XOR f y" and "k \<le> 8"
  shows "doubled (map (\<lambda>i. f (2 ^ i)) [k..<8]) (map (\<lambda>n. f (of_nat n)) [0..<2 ^ k]) = map (\<lambda>n. f (of_nat n)) [0..<256]"
  using assms(2)
proof (induction rule: inc_induct)
  case (step k)
  have "map (\<lambda>n. f (of_nat n)) [2 ^ k..<2 ^ Suc k] = map (\<lambda>n. f (of_nat (n + 2 ^ k))) [0..<2 ^ k]"
    by (rule nth_equalityI) (simp_all add: add.commute)
  also have "\<dots> = map (\<lambda>x. x XOR f (2 ^ k)) (map (\<lambda>n. f (of_nat n)) [0..<2 ^ k])"
    using step(2) by (auto simp: of_nat_plus_power assms(1) simp del: of_nat_add)
  finally have e: "map (\<lambda>n. f (of_nat n)) [2 ^ k..<2 ^ Suc k] = map (\<lambda>x. x XOR f (2 ^ k)) (map (\<lambda>n. f (of_nat n)) [0..<2 ^ k])" .
  have "[0..<2 ^ Suc k] = [0..<2 ^ k] @ [2 ^ k..<2 ^ Suc k]"
    using upt_add_eq_append [of 0 "2 ^ k" "2 ^ k"] by (simp add: mult_2)
  then have "map (\<lambda>n. f (of_nat n)) [0..<2 ^ k] @ map (\<lambda>x. x XOR f (2 ^ k)) (map (\<lambda>n. f (of_nat n)) [0..<2 ^ k]) =
      map (\<lambda>n. f (of_nat n)) [0..<2 ^ Suc k]"
    unfolding e [symmetric] by (simp only: map_append)
  then show ?case using step by (simp add: upt_conv_Cons)
qed simp

lemma crc8_table_bits: "crc8_table = map (\<lambda>n. crc8_bits (of_nat n)) [0..<256]"
proof -
  have "crc8_table = doubled (map (\<lambda>i. crc8_bits (2 ^ i)) [0..<8]) [crc8_bits 0]" by code_simp
  then show ?thesis using doubled_linear [OF crc8_bits_xor, of 0] by simp
qed

lemma crc8_entry: "crc8_table ! unat (w AND 0xff) = crc8_bits w"
proof -
  have "w AND mask 8 = w" unfolding take_bit_eq_mask [symmetric] by (simp add: take_bit_word_eq_self)
  then have "w AND 0xff = w" by (simp add: mask_eq_exp_minus_1)
  moreover have "unat w < 256" using unat_bound [of w] by simp
  ultimately show ?thesis by (simp add: crc8_table_bits)
qed

lemma hndcrc8_append: "hndcrc8 (xs @ ys) crc = hndcrc8 ys (hndcrc8 xs crc)"
  by (induction xs arbitrary: crc) simp_all

section \<open>What loading leaves alone\<close>

lemma set_frame:
  "area (snd (nvram_set c h name v)) = area h" "nv_offset (snd (nvram_set c h name v)) = nv_offset h"
  "nv_length (snd (nvram_set c h name v)) = nv_length h" "map_addr (snd (nvram_set c h name v)) = map_addr h"
proof -
  obtain r h' where s: "nvram_set c h name v = (r, h')" by (rule prod.exhaust)
  obtain u t1 h1 where a: "nvram_realloc h (tuple_find name (nvram_hash h ! slot c name)) name v = (u, t1, h1)"
    by (rule prod_cases3)
  have "h1 = h\<lparr>mem := mem h1\<rparr>" by (rule realloc_frame(1) [OF a])
  then have "area h1 = area h" "nv_offset h1 = nv_offset h" "nv_length h1 = nv_length h" "map_addr h1 = map_addr h"
    by (metis nvram_handle.select_convs nvram_handle.update_convs nvram_handle.surjective)+
  then show "area (snd (nvram_set c h name v)) = area h" "nv_offset (snd (nvram_set c h name v)) = nv_offset h"
    "nv_length (snd (nvram_set c h name v)) = nv_length h" "map_addr (snd (nvram_set c h name v)) = map_addr h"
    using set_unfold(2) [OF a s] s by simp_all
qed

lemma default_frame:
  "area (set_default c name v h) = area h" "nv_offset (set_default c name v h) = nv_offset h"
  "nv_length (set_default c name v h) = nv_length h" "map_addr (set_default c name v h) = map_addr h"
  by (simp_all add: set_default_def set_frame)

lemma rehash_loop_frame:
  "rehash_loop c bs h = Some h' \<Longrightarrow>
   area h' = area h \<and> nv_offset h' = nv_offset h \<and> nv_length h' = nv_length h \<and> map_addr h' = map_addr h"
proof (induction c bs h rule: rehash_loop.induct)
  case (1 c bs h)
  show ?case
    using 1(2) 1(1) by (auto simp: rehash_loop.simps [of c bs h] Let_def set_frame split: list.splits if_splits)
qed

lemma rehash_frame:
  "nvram_rehash c h = Some h' \<Longrightarrow>
   area h' = area h \<and> nv_offset h' = nv_offset h \<and> nv_length h' = nv_length h \<and> map_addr h' = map_addr h"
  by (auto simp: nvram_rehash_def Let_def default_frame nvram_free_def dest: rehash_loop_frame)

section \<open>Strings in the image\<close>

text \<open>Strings that can be told apart in the image: no NUL, and no equals sign in a name.\<close>

definition nv_text :: "byte list \<times> byte list \<Rightarrow> bool" where
  "nv_text = (\<lambda>(name, v). 0 \<notin> set name \<and> of_char (CHR ''='') \<notin> set name \<and> 0 \<notin> set v)"

lemma takeWhile_stop: "x \<notin> set xs \<Longrightarrow> takeWhile (\<lambda>y. y \<noteq> x) (xs @ x # ys) = xs"
  by (induction xs) auto

lemma rehash_loop_entry:
  assumes "nv_text (name, v)"
  shows "rehash_loop c (entry_bytes name v @ bs) h = rehash_loop c bs (snd (nvram_set c h name v))"
proof -
  let ?eq = "of_char (CHR ''='') :: byte"
  let ?e = "name @ ?eq # v"
  have z: "0 \<notin> set ?e" using assms by (auto simp: nv_text_def)
  have e: "entry_bytes name v @ bs = ?e @ 0 # bs" by (simp add: entry_bytes_def)
  have w: "takeWhile (\<lambda>x. x \<noteq> 0) (?e @ 0 # bs) = ?e" by (rule takeWhile_stop [OF z])
  have n: "takeWhile (\<lambda>x. x \<noteq> ?eq) ?e = name" using assms by (intro takeWhile_stop) (simp add: nv_text_def)
  obtain b r where b: "?e @ 0 # bs = b # r" "b \<noteq> 0" using z by (cases name) auto
  have "rehash_loop c (?e @ 0 # bs) h = rehash_loop c (drop (length ?e + 1) (?e @ 0 # bs)) (snd (nvram_set c h name (drop (length name + 1) ?e)))"
    using arg_cong [OF b(1), of length] b
    unfolding rehash_loop.simps [of c "?e @ 0 # bs"] w Let_def n by (simp split: list.split)
  then show ?thesis by (simp add: e)
qed

lemma rehash_loop_entries:
  assumes "\<forall>e \<in> set es. nv_text e"
  shows "rehash_loop c (concat (map (\<lambda>(n, v). entry_bytes n v) es) @ 0 # rest) h =
    Some (fold (\<lambda>(n, v) h. snd (nvram_set c h n v)) es h)"
  using assms
proof (induction es arbitrary: h)
  case Nil
  then show ?case by (simp add: rehash_loop.simps)
next
  case (Cons e es)
  obtain n v where e: "e = (n, v)" by (rule prod.exhaust)
  then show ?case using Cons rehash_loop_entry [of n v] by simp
qed

section \<open>Writing the tuples\<close>

lemma memcpy_at_append:
  "p \<le> length buf \<Longrightarrow> memcpy_at (memcpy_at buf p xs) (p + length xs) ys = memcpy_at buf p (xs @ ys)"
  by (simp add: memcpy_at_def add.assoc add.left_commute add.commute)

definition pairs :: "nvram_tuple list \<Rightarrow> (byte list \<times> byte list) list" where
  "pairs ts = map (\<lambda>t. (tname t, the (tvalue t))) ts"

definition strings :: "(byte list \<times> byte list) list \<Rightarrow> byte list" where
  "strings es = concat (map (\<lambda>(n, v). entry_bytes n v) es)"

lemma strings_simps [simp]: "strings [] = []" "strings (e # es) = entry_bytes (fst e) (snd e) @ strings es"
  "strings (es @ fs) = strings es @ strings fs"
  by (simp_all add: strings_def split: prod.split)

lemma pairs_simps [simp]: "pairs [] = []" "pairs (t # ts) = (tname t, the (tvalue t)) # pairs ts" "pairs (ts @ us) = pairs ts @ pairs us"
  by (simp_all add: pairs_def)

lemma write_bucket_fits:
  "\<forall>t \<in> set ts. tvalue t \<noteq> None \<Longrightarrow> ptr + length (strings (pairs ts)) \<le> lim \<Longrightarrow> ptr \<le> length buf \<Longrightarrow>
   write_bucket lim ts (ptr, buf) = Some (ptr + length (strings (pairs ts)), memcpy_at buf ptr (strings (pairs ts)))"
proof (induction ts arbitrary: ptr buf)
  case (Cons t ts)
  then obtain v where v: "tvalue t = Some v" by auto
  let ?e = "entry_bytes (tname t) v"
  have l: "ptr + length ?e + length (strings (pairs ts)) \<le> lim" using Cons.prems(2) v by simp
  have le: "length ?e = length (tname t) + 1 + length v + 1" by (simp add: entry_bytes_def)
  have "ptr + length ?e \<le> length (memcpy_at buf ptr ?e)" using Cons.prems(3) by (simp add: memcpy_at_def)
  then have "write_bucket lim ts (ptr + length ?e, memcpy_at buf ptr ?e) =
      Some (ptr + length ?e + length (strings (pairs ts)), memcpy_at (memcpy_at buf ptr ?e) (ptr + length ?e) (strings (pairs ts)))"
    using Cons.prems(1) l by (intro Cons.IH) auto
  then show ?case
    using v l Cons.prems(3) memcpy_at_append [of ptr buf ?e "strings (pairs ts)"] by (simp add: le add.assoc)
qed simp

lemma write_table_fits:
  "\<forall>t \<in> set (concat bs). tvalue t \<noteq> None \<Longrightarrow> ptr + length (strings (pairs (concat bs))) \<le> lim \<Longrightarrow> ptr \<le> length buf \<Longrightarrow>
   write_table lim bs (ptr, buf) = Some (ptr + length (strings (pairs (concat bs))), memcpy_at buf ptr (strings (pairs (concat bs))))"
proof (induction bs arbitrary: ptr buf)
  case (Cons b bs)
  let ?s = "strings (pairs b)"
  have "ptr + length ?s \<le> length (memcpy_at buf ptr ?s)" using Cons.prems(3) by (simp add: memcpy_at_def)
  then have "write_table lim bs (ptr + length ?s, memcpy_at buf ptr ?s) =
      Some (ptr + length ?s + length (strings (pairs (concat bs))), memcpy_at (memcpy_at buf ptr ?s) (ptr + length ?s) (strings (pairs (concat bs))))"
    using Cons.prems by (intro Cons.IH) auto
  moreover have "write_bucket lim b (ptr, buf) = Some (ptr + length ?s, memcpy_at buf ptr ?s)"
    using Cons.prems by (intro write_bucket_fits) auto
  ultimately show ?case
    using Cons.prems(3) memcpy_at_append [of ptr buf ?s "strings (pairs (concat bs))"] by (simp add: add.assoc)
qed simp

lemma write_bucket_bounds:
  "write_bucket lim ts (ptr, buf) = Some (ptr', buf') \<Longrightarrow> lim \<le> length buf \<Longrightarrow>
   length buf' = length buf \<and> ptr \<le> ptr' \<and> (ptr' = ptr \<or> ptr' \<le> lim)"
proof (induction ts arbitrary: ptr buf)
  case (Cons t ts)
  then obtain v where v: "tvalue t = Some v" by (cases "tvalue t") auto
  let ?e = "entry_bytes (tname t) v"
  have le: "length ?e = length (tname t) + 1 + length v + 1" by (simp add: entry_bytes_def)
  show ?case
  proof (cases "ptr + length ?e > lim")
    case False
    then have w: "write_bucket lim ts (ptr + length ?e, memcpy_at buf ptr ?e) = Some (ptr', buf')"
      using Cons.prems(1) v by (simp add: le add.assoc)
    moreover have "length (memcpy_at buf ptr ?e) = length buf" using False Cons.prems(2) by simp
    ultimately show ?thesis using Cons.IH [OF w] Cons.prems(2) False by auto
  qed (use Cons.prems v in \<open>simp add: le add.assoc\<close>)
qed simp

lemma write_table_bounds:
  "write_table lim bs (ptr, buf) = Some (ptr', buf') \<Longrightarrow> lim \<le> length buf \<Longrightarrow>
   length buf' = length buf \<and> ptr \<le> ptr' \<and> (ptr' = ptr \<or> ptr' \<le> lim)"
proof (induction bs arbitrary: ptr buf)
  case (Cons b bs)
  obtain ptr1 buf1 where w: "write_bucket lim b (ptr, buf) = Some (ptr1, buf1)"
    using Cons.prems(1) by (cases "write_bucket lim b (ptr, buf)") auto
  note s = write_bucket_bounds [OF w Cons.prems(2)]
  have "write_table lim bs (ptr1, buf1) = Some (ptr', buf')" using Cons.prems(1) w by simp
  from Cons.IH [OF this] s Cons.prems(2) show ?case by auto
qed simp

section \<open>Header and checksum\<close>

lemma drop_le32_bytes [simp]: "4 \<le> n \<Longrightarrow> drop n (le32_bytes w @ xs) = drop (n - 4) xs"
  by simp

lemma length_nvh [simp]: "length (nvh_bytes nh) = 20"
  by (simp add: nvh_bytes_def)

lemma nvh_roundtrip [simp]: "nvh_of (nvh_bytes nh @ xs) = nh"
  by (simp add: nvh_of_def nvh_bytes_def)

text \<open>Behind the low byte of the third word the checksum makes no difference.\<close>

lemma checked_bytes:
  "drop 9 (nvh_bytes (nh\<lparr>nvh_crc_ver_init := w OR ucast (b :: byte)\<rparr>)) =
   drop 9 (nvh_bytes (nh\<lparr>nvh_crc_ver_init := w, nvh_magic := 0, nvh_len := 0\<rparr>))"
proof -
  have "(ucast (drop_bit k (w OR ucast b)) :: byte) = ucast (drop_bit k w)" if "8 \<le> k" for k
    using that by (intro bit_word_eqI) (auto simp: bit_simps dest: bit_imp_le_length)
  then show ?thesis by (simp add: nvh_bytes_def le32_bytes_def)
qed

lemma low_byte: "w AND 0xff = 0 \<Longrightarrow> (w OR ucast (b :: byte)) AND 0xff = ucast b" for w :: u32
proof -
  assume "w AND 0xff = 0"
  then have m: "w AND mask 8 = 0" by (simp add: mask_eq_exp_minus_1)
  have z: "\<not> bit w n" if "n < 8" for n
    using that bit_and_iff [of w "mask 8" n] unfolding m by (simp add: bit_mask_iff)
  have "(w OR ucast b) AND mask 8 = ucast b"
    by (rule bit_word_eqI) (auto simp: bit_simps z dest: bit_imp_le_length)
  then show ?thesis by (simp add: mask_eq_exp_minus_1)
qed

lemma commit_header_low: "nvh_crc_ver_init (commit_header c h nh) AND 0xff = 0" "nvh_magic (commit_header c h nh) = NVRAM_MAGIC"
proof -
  have *: "(push_bit 8 v OR push_bit 16 w) AND mask 8 = 0" for v w :: u32
    by (rule bit_word_eqI) (auto simp: bit_simps)
  have "\<exists>w. nvh_crc_ver_init (commit_header c h nh) = push_bit 8 NVRAM_VERSION OR push_bit 16 w"
    unfolding commit_header_def by (auto split: option.split simp del: push_bit_and)
  then show "nvh_crc_ver_init (commit_header c h nh) AND 0xff = 0" using * [of NVRAM_VERSION] by (auto simp: mask_eq_exp_minus_1)
  show "nvh_magic (commit_header c h nh) = NVRAM_MAGIC" by (auto simp: commit_header_def split: option.split)
qed

lemma roundup4: "NVRAM_ROUNDUP x 4 mod 4 = 0" "x \<le> NVRAM_ROUNDUP x 4" "NVRAM_ROUNDUP x 4 < x + 4"
  "m mod 4 = 0 \<Longrightarrow> x \<le> m \<Longrightarrow> NVRAM_ROUNDUP x 4 \<le> m"
  unfolding NVRAM_ROUNDUP_def by presburger+

lemma seal_facts:
  assumes "seal_image h nh (ptr, buf) = Some h1" and "unat (nv_offset h) + 20 \<le> ptr" and "ptr \<le> length buf + 1" and "length buf < 2 ^ 31"
    and "nvh_crc_ver_init nh AND 0xff = 0"
  defines "off \<equiv> unat (nv_offset h)" and "len \<equiv> NVRAM_ROUNDUP (ptr - unat (nv_offset h)) 4"
  shows "h1 = h\<lparr>area := area h1\<rparr>" "length (area h1) = length buf" "drop (off + 20) (area h1) = drop (off + 20) buf"
    "off + len \<le> length buf" "nvh_len (nvram_header_at h1) = of_nat len" "nvh_magic (nvram_header_at h1) = nvh_magic nh"
    "nvh_crc_ver_init (nvram_header_at h1) AND 0xff = ucast (hndcrc8 (take (len - 9) (drop (off + 9) (area h1))) 0xff)"
proof -
  let ?nh1 = "nh\<lparr>nvh_len := of_nat len\<rparr>"
  have len: "NVRAM_ROUNDUP (ptr - off) 4 = len" by (simp add: len_def off_def)
  have l: "20 \<le> len" "len < 2 ^ 32" using roundup4(2,3) [of "ptr - off"] assms(2-4) by (auto simp: len_def off_def)
  have u: "unat (of_nat len - of_nat NVH_SIZE :: u32) = len - 20"
    using l by (simp add: unat_sub_if' unsigned_of_nat take_bit_nat_eq_self)
  let ?tmp = "drop 9 (nvh_bytes (?nh1\<lparr>nvh_magic := 0, nvh_len := 0\<rparr>))"
  let ?crc = "hndcrc8 (take (len - 20) (drop (off + 20) buf)) (hndcrc8 ?tmp 0xff)"
  let ?nh2 = "?nh1\<lparr>nvh_crc_ver_init := nvh_crc_ver_init nh OR ucast ?crc\<rparr>"
  have b: "off + 20 + (len - 20) \<le> length buf" and h1: "h1 = h\<lparr>area := memcpy_at buf off (nvh_bytes ?nh2)\<rparr>"
    using assms(1) u unfolding seal_image_def off_def [symmetric] Let_def prod.case len
    by (auto split: if_splits)
  show "off + len \<le> length buf" using b l by simp
  have a: "area h1 = take off buf @ nvh_bytes ?nh2 @ drop (off + 20) buf" using h1 by (simp add: memcpy_at_def)
  show "h1 = h\<lparr>area := area h1\<rparr>" using h1 by simp
  show "length (area h1) = length buf" "drop (off + 20) (area h1) = drop (off + 20) buf" using a b by simp_all
  have d: "drop off (area h1) = nvh_bytes ?nh2 @ drop (off + 20) buf" using a b by simp
  have o: "nv_offset h1 = nv_offset h" using h1 by simp
  then have nh: "nvram_header_at h1 = ?nh2" using d by (simp add: nvram_header_at_def off_def)
  show "nvh_len (nvram_header_at h1) = of_nat len" "nvh_magic (nvram_header_at h1) = nvh_magic nh" by (simp_all add: nh)
  have "drop (off + 9) (area h1) = drop 9 (nvh_bytes ?nh2) @ drop (off + 20) buf"
    using arg_cong [OF d, of "drop 9"] by (simp add: add.commute)
  also have "drop 9 (nvh_bytes ?nh2) = ?tmp" by (subst checked_bytes) simp
  finally have "take (len - 9) (drop (off + 9) (area h1)) = ?tmp @ take (len - 20) (drop (off + 20) buf)" using l by simp
  then show "nvh_crc_ver_init (nvram_header_at h1) AND 0xff = ucast (hndcrc8 (take (len - 9) (drop (off + 9) (area h1))) 0xff)"
    using low_byte [OF assms(5)] by (simp add: nh hndcrc8_append)
qed

section \<open>The end of the strings\<close>

lemma pad_bounds:
  assumes "pad_image h ptr buf = Some (ptr', buf')"
  shows "ptr' = ptr + 2" "ptr + 1 \<le> length buf" "length buf' = length buf"
  using assms by (auto simp: pad_image_def Let_def split: if_splits)

lemma update_memcpy: "p < length buf \<Longrightarrow> buf[p := x] = memcpy_at buf p [x]"
  by (simp add: memcpy_at_def upd_conv_take_nth_drop)

lemma c_rem4_nat: "c_rem4 (int n) = int (n mod 4)"
  by (simp add: c_rem4_def zmod_int)

lemma mod4_shift: "a mod 4 = 0 \<Longrightarrow> (a + m) mod 4 = m mod 4" for a m :: nat
  by presburger

lemma pad4_bound: "L mod 4 = 0 \<Longrightarrow> p < L \<Longrightarrow> p + 1 + (if (p + 1) mod 4 \<noteq> 0 then 4 - (p + 1) mod 4 else 0) \<le> L" for L p :: nat
  by presburger

lemma unat_add_of_nat: "unat x + m < 2 ^ 32 \<Longrightarrow> unat (x + of_nat m) = unat x + m" for x :: u32
  by (simp add: unat_word_ariths unsigned_of_nat take_bit_nat_eq_self)

text \<open>With a mapping in the lower half of the address space, both aligned, the padding ends at a multiple of four.\<close>

lemma pad_aligned:
  assumes "unat (map_addr h) mod 4 = 0" and "unat (map_addr h) + length buf < 2 ^ 31" and "length buf mod 4 = 0" and "ptr < length buf"
  obtains k where "pad_image h ptr buf = Some (ptr + 2, memcpy_at buf ptr (0 # replicate k 0))" "ptr + 1 + k \<le> length buf"
proof -
  let ?a = "map_addr h + of_nat (ptr + 1)"
  have s: "unat (map_addr h) + (ptr + 1) < 2 ^ 31" using assms(2,4) by simp
  then have u: "unat ?a = unat (map_addr h) + (ptr + 1)" by (intro unat_add_of_nat) simp
  have "sint ?a = int (unat ?a)" using sint_eq_uint [of ?a] s u by (simp only: uint_nat)
  then have "sint ?a = int (unat (map_addr h) + (ptr + 1))" using u by (simp only:)
  then have r: "c_rem4 (sint ?a) = int ((ptr + 1) mod 4)"
    using mod4_shift [OF assms(1)] by (simp only: c_rem4_nat)
  define k where "k = (if (ptr + 1) mod 4 \<noteq> 0 then 4 - (ptr + 1) mod 4 else 0)"
  have k: "(if c_rem4 (sint ?a) \<noteq> 0 then nat (4 - c_rem4 (sint ?a)) else 0) = k" unfolding r k_def by (simp only: of_nat_eq_0_iff) (simp add: nat_diff_distrib')
  have b: "ptr + 1 + k \<le> length buf" unfolding k_def by (rule pad4_bound [OF assms(3,4)])
  have "pad_image h ptr buf = Some (ptr + 2, memcpy_at (buf[ptr := 0]) (ptr + 1) (replicate k 0))"
    unfolding pad_image_def Let_def k using assms(4) b by simp
  also have "memcpy_at (buf[ptr := 0]) (ptr + 1) (replicate k 0) = memcpy_at buf ptr (0 # replicate k 0)"
    using assms(4) memcpy_at_append [of ptr buf "[0]" "replicate k 0"] by (simp add: update_memcpy)
  finally show ?thesis using that b by blast
qed

section \<open>Committing\<close>

lemma commit_steps:
  assumes "nvram_commit c part h = Some (r, h')"
  obtains buf ptr1 buf1 s h1 where
    "unat (nv_offset h) + 20 \<le> part" "part \<le> length (area h)" "r = 0"
    "write_table (part - 2) (nvram_hash h) (unat (nv_offset h) + 20, buf) = Some (ptr1, buf1)"
    "length buf = length (area h) \<and> take (unat (nv_offset h)) buf = take (unat (nv_offset h)) (area h)"
    "pad_image h ptr1 buf1 = Some s" "seal_image h (commit_header c h (nvram_header_at h)) s = Some h1" "nvram_rehash c h1 = Some h'"
proof -
  let ?off = "unat (nv_offset h)"
  let ?nh = "commit_header c h (nvram_header_at h)"
  define buf where "buf = memcpy_at (memcpy_at (area h) ?off (nvh_bytes ?nh)) (?off + 20) (replicate (part - (?off + 20)) 0xff)"
  have b: "?off + 20 \<le> part" "part \<le> length (area h)" using assms by (auto simp: nvram_commit_def Let_def split: if_splits)
  then have "Option.bind (write_table (part - 2) (nvram_hash h) (?off + 20, buf)) (\<lambda>(ptr, buf1).
      Option.bind (pad_image h ptr buf1) (\<lambda>s. Option.bind (seal_image h ?nh s) (\<lambda>h1.
        map_option (\<lambda>h2. (0, h2)) (nvram_rehash c h1)))) = Some (r, h')"
    using assms unfolding nvram_commit_def Let_def buf_def by simp
  then obtain ptr1 buf1 s h1 where "write_table (part - 2) (nvram_hash h) (?off + 20, buf) = Some (ptr1, buf1)"
    "pad_image h ptr1 buf1 = Some s" "seal_image h ?nh s = Some h1" "nvram_rehash c h1 = Some h'" "r = 0"
    by (auto simp: bind_eq_Some_conv split: prod.splits)
  moreover have "length buf = length (area h) \<and> take ?off buf = take ?off (area h)" using b by (simp add: buf_def memcpy_at_def)
  ultimately show ?thesis using b that by blast
qed

lemma commit_sealed:
  assumes "nvram_commit c part h = Some (r, h')" and "length (area h) < 2 ^ 31"
  defines "off \<equiv> unat (nv_offset h')" and "len \<equiv> unat (nvh_len (nvram_header_at h'))"
  shows "r = 0" "nv_offset h' = nv_offset h" "length (area h') = length (area h)" "nvh_magic (nvram_header_at h') = NVRAM_MAGIC"
    "len mod 4 = 0" "off + len \<le> length (area h')" "20 \<le> len"
    "nvh_crc_ver_init (nvram_header_at h') AND 0xff = ucast (hndcrc8 (take (len - 9) (drop (off + 9) (area h'))) 0xff)"
proof -
  obtain buf ptr1 buf1 s h1 where st: "unat (nv_offset h) + 20 \<le> part" "part \<le> length (area h)" "r = 0"
    "write_table (part - 2) (nvram_hash h) (unat (nv_offset h) + 20, buf) = Some (ptr1, buf1)"
    "length buf = length (area h) \<and> take (unat (nv_offset h)) buf = take (unat (nv_offset h)) (area h)"
    "pad_image h ptr1 buf1 = Some s" "seal_image h (commit_header c h (nvram_header_at h)) s = Some h1" "nvram_rehash c h1 = Some h'"
    by (rule commit_steps [OF assms(1)])
  obtain ptr2 buf2 where s: "s = (ptr2, buf2)" by (rule prod.exhaust)
  have w: "length buf1 = length buf" "unat (nv_offset h) + 20 \<le> ptr1"
    using write_table_bounds [OF st(4)] st(2,5) by auto
  note p = pad_bounds [OF st(6) [unfolded s]]
  note f = seal_facts [OF st(7) [unfolded s] _ _ _ commit_header_low(1)]
  have pre: "unat (nv_offset h) + 20 \<le> ptr2" "ptr2 \<le> length buf2 + 1" "length buf2 < 2 ^ 31"
    using w p st(5) assms(2) by auto
  note f = f [OF pre]
  have h': "nvram_header_at h' = nvram_header_at h1" "area h' = area h1" and o: "nv_offset h' = nv_offset h1" "nv_offset h1 = nv_offset h"
    using rehash_frame [OF st(8)] f(1) by (auto simp: nvram_header_at_def intro: nvram_handle.select_convs) (metis nvram_handle.select_convs nvram_handle.update_convs nvram_handle.surjective)+
  show "r = 0" by (fact st(3))
  show "nv_offset h' = nv_offset h" using o by simp
  show "length (area h') = length (area h)" using h' f(2) p(3) w(1) st(5) by simp
  show "nvh_magic (nvram_header_at h') = NVRAM_MAGIC" using h' f(6) commit_header_low(2) by simp
  let ?l = "NVRAM_ROUNDUP (ptr2 - unat (nv_offset h)) 4"
  have "?l < 2 ^ 32" using f(4) pre(3) by simp
  then have len: "len = ?l" using f(5) h' by (simp add: len_def unsigned_of_nat take_bit_nat_eq_self)
  show "len mod 4 = 0" using roundup4(1) len by simp
  show "off + len \<le> length (area h')" using f(4) len h' f(2) o by (simp add: off_def)
  show "20 \<le> len" using roundup4(2) [of "ptr2 - unat (nv_offset h)"] pre(1) unfolding len by simp
  show "nvh_crc_ver_init (nvram_header_at h') AND 0xff = ucast (hndcrc8 (take (len - 9) (drop (off + 9) (area h'))) 0xff)"
    using f(7) h' o unfolding len off_def by simp
qed

section \<open>What is stored comes back\<close>

lemma lookup_pairs:
  assumes "nv_inv c h" and "\<forall>t \<in> set (concat (nvram_hash h)). tvalue t \<noteq> None"
  shows "nv_lookup c h = map_of (pairs (concat (nvram_hash h)))"
proof
  fix n
  let ?ts = "concat (nvram_hash h)"
  have d: "distinct (map fst (pairs ?ts))" using distinct_tuples [OF assms(1)] by (simp add: pairs_def comp_def)
  show "nv_lookup c h n = map_of (pairs ?ts) n"
  proof (cases "tuple_find n (nvram_hash h ! slot c n)")
    case (Some t)
    then have t: "tname t = n" "t \<in> set ?ts" using tuple_find_Some [OF Some] lookup_tuples [OF assms(1), of t] by auto
    then obtain v where v: "tvalue t = Some v" using assms(2) by auto
    with t have "(n, v) \<in> set (pairs ?ts)" by (force simp: pairs_def)
    then show ?thesis using d Some v by (simp add: nvram_get_def)
  next
    case None
    have "n \<notin> fst ` set (pairs ?ts)"
    proof
      assume "n \<in> fst ` set (pairs ?ts)"
      then obtain t where "t \<in> set ?ts" "tname t = n" by (auto simp: pairs_def simp del: set_concat)
      then show False using lookup_tuples [OF assms(1), of t] None by auto
    qed
    then have "map_of (pairs ?ts) n = None" by (simp add: map_of_eq_None_iff)
    then show ?thesis using None by (simp add: nvram_get_def)
  qed
qed

definition sdram_names :: "byte list set" where
  "sdram_names = {cs ''sdram_init'', cs ''sdram_config'', cs ''sdram_refresh'', cs ''sdram_ncdl''}"

lemma default_noop: "nv_lookup c h (cs n) \<noteq> None \<Longrightarrow> set_default c n v h = h"
  by (auto simp: set_default_def)

lemma rehash_strings:
  assumes "drop (unat (nv_offset h) + 20) (area h) = strings es @ 0 # rest" and "\<forall>e \<in> set es. nv_text e"
    and "distinct (map fst es)" and "length (nvram_hash h) = 257" and "mem h = []"
    and "\<And>n v. (n, v) \<in> set es \<Longrightarrow> nv_fits h v" and "sdram_names \<subseteq> fst ` set es"
  shows "\<exists>h'. nvram_rehash c h = Some h' \<and> nv_inv c h' \<and> mem h' = [] \<and> nv_lookup c h' = map_of es"
proof -
  let ?h = "fold (\<lambda>(n, v) h. snd (nvram_set c h n v)) es (nvram_free h)"
  have f: "nv_inv c (nvram_free h) \<and> mem (nvram_free h) = []" "nv_lookup c (nvram_free h) = (\<lambda>_. None)"
    "\<And>v. nv_fits (nvram_free h) v = nv_fits h v"
    using free_empties [OF assms(4)] assms(5) by (simp_all add: nvram_free_def nv_fits_def)
  have l: "nv_lookup c ?h = map_of es" by (rule nv.puts_distinct [OF f(1,2) assms(3)]) (simp add: f(3) assms(6))
  have i: "nv_inv c ?h \<and> mem ?h = []" by (rule nv.puts_inv [OF f(1)])
  have "nv_lookup c ?h n \<noteq> None" if "n \<in> sdram_names" for n
    using assms(7) that fun_cong [OF l, of n] by (auto simp: map_of_eq_None_iff)
  then have "set_default c n v ?h = ?h" if "cs n \<in> sdram_names" for n v using that default_noop by blast
  then have "nvram_rehash c h = Some ?h"
    using assms(1,2) by (simp add: nvram_rehash_def strings_def rehash_loop_entries sdram_names_def)
  with l i show ?thesis by blast
qed

text \<open>A handle whose geometry is that of an opened partition, mapped in the lower half of the address space.\<close>

definition nv_sane :: "nv_cpu \<Rightarrow> nat \<Rightarrow> nvram_handle \<Rightarrow> bool" where
  "nv_sane c part h \<longleftrightarrow> nv_inv c h \<and> mem h = [] \<and> length (area h) = part \<and> unat (nv_length h) = part \<and> part mod 4 = 0 \<and>
     unat (nv_offset h) mod 4 = 0 \<and> unat (map_addr h) mod 4 = 0 \<and> unat (map_addr h) + part < 2 ^ 31"

definition nv_storable :: "nat \<Rightarrow> nvram_handle \<Rightarrow> bool" where
  "nv_storable part h \<longleftrightarrow> (\<forall>t \<in> set (concat (nvram_hash h)). \<exists>v. tvalue t = Some v \<and> nv_text (tname t, v)) \<and>
     unat (nv_offset h) + 20 + length (strings (pairs (concat (nvram_hash h)))) + 2 \<le> part"

lemma string_length: "(n, v) \<in> set es \<Longrightarrow> length v + 2 \<le> length (strings es)"
  by (induction es) (auto simp: entry_bytes_def)

lemma seal_succeeds:
  assumes "unat (nv_offset h) + 20 \<le> ptr" and "ptr \<le> length buf" and "length buf mod 4 = 0" and "unat (nv_offset h) mod 4 = 0"
    and "length buf < 2 ^ 31"
  shows "\<exists>h1. seal_image h nh (ptr, buf) = Some h1"
proof -
  let ?len = "NVRAM_ROUNDUP (ptr - unat (nv_offset h)) 4"
  have m: "(length buf - unat (nv_offset h)) mod 4 = 0" using assms(3,4) by presburger
  have l: "20 \<le> ?len" "?len \<le> length buf - unat (nv_offset h)"
    using roundup4(2) [of "ptr - unat (nv_offset h)"] roundup4(4) [OF m, of "ptr - unat (nv_offset h)"] assms(1,2) by auto
  then have "?len < 2 ^ 32" using assms(5) by simp
  then have "unat (of_nat ?len - of_nat NVH_SIZE :: u32) = ?len - 20"
    using l(1) by (simp add: unat_sub_if' unsigned_of_nat take_bit_nat_eq_self)
  then show ?thesis using l assms(1,2) by (simp add: seal_image_def Let_def)
qed

lemma commit_stores:
  assumes sane: "nv_sane c part h" and st: "nv_storable part h" and four: "\<forall>n \<in> sdram_names. nv_lookup c h n \<noteq> None"
  shows "\<exists>h'. nvram_commit c part h = Some (0, h') \<and> nv_inv c h' \<and> mem h' = [] \<and> nv_lookup c h' = nv_lookup c h"
proof -
  let ?off = "unat (nv_offset h)" and ?es = "pairs (concat (nvram_hash h))"
  let ?nh = "commit_header c h (nvram_header_at h)"
  have g: "nv_inv c h" "mem h = []" "length (area h) = part" "part mod 4 = 0" "?off mod 4 = 0"
    "unat (map_addr h) mod 4 = 0" "unat (map_addr h) + part < 2 ^ 31" "unat (nv_length h) = part"
    using sane by (simp_all add: nv_sane_def)
  have fit: "?off + 20 + length (strings ?es) + 2 \<le> part" using st by (simp add: nv_storable_def)
  have vals: "\<forall>t \<in> set (concat (nvram_hash h)). tvalue t \<noteq> None" and tx: "\<forall>e \<in> set ?es. nv_text e"
    using st by (fastforce simp: nv_storable_def pairs_def simp del: set_concat)+
  note l = lookup_pairs [OF g(1) vals]
  define buf where "buf = memcpy_at (memcpy_at (area h) ?off (nvh_bytes ?nh)) (?off + 20) (replicate (part - (?off + 20)) 0xff)"
  have lb: "length buf = part" using g(3) fit by (simp add: buf_def)
  let ?buf1 = "memcpy_at buf (?off + 20) (strings ?es)" and ?ptr = "?off + 20 + length (strings ?es)"
  have w: "write_table (part - 2) (nvram_hash h) (?off + 20, buf) = Some (?ptr, ?buf1)"
    using fit lb by (intro write_table_fits [OF vals]) auto
  have lb1: "length ?buf1 = part" using fit lb by simp
  obtain k where p: "pad_image h ?ptr ?buf1 = Some (?ptr + 2, memcpy_at ?buf1 ?ptr (0 # replicate k 0))" "?ptr + 1 + k \<le> part"
    using pad_aligned [of h ?buf1 ?ptr] g(4,6,7) fit lb1 by auto
  let ?buf2 = "memcpy_at ?buf1 ?ptr (0 # replicate k 0)"
  have b2: "?buf2 = memcpy_at buf (?off + 20) (strings ?es @ 0 # replicate k 0)" using fit lb by (intro memcpy_at_append) simp
  have lb2: "length ?buf2 = part" using p(2) lb1 by simp
  obtain h1 where s: "seal_image h ?nh (?ptr + 2, ?buf2) = Some h1"
    using seal_succeeds [of h "?ptr + 2" ?buf2 ?nh] fit lb2 g(4,5,7) by auto
  have sf: "h1 = h\<lparr>area := area h1\<rparr>" "drop (?off + 20) (area h1) = drop (?off + 20) ?buf2"
    using seal_facts(1,3) [OF s _ _ _ commit_header_low(1)] fit lb2 g(7) by simp_all
  have h1: "nvram_hash h1 = nvram_hash h" "nv_offset h1 = nv_offset h" "mem h1 = []" "nv_length h1 = nv_length h"
    by (subst sf(1), simp add: g(2))+
  have "drop (?off + 20) (area h1) = strings ?es @ 0 # replicate k 0 @ drop (?off + 20 + length (strings ?es @ 0 # replicate k 0)) buf"
    unfolding sf(2) b2 memcpy_at_def using fit lb by (simp add: ac_simps)
  moreover have "nv_fits h1 v" if "(n, v) \<in> set ?es" for n v
  proof -
    have "unat (nv_length h - nv_offset h) = part - ?off" using g(8) fit by (simp add: unat_sub_if')
    then show ?thesis using string_length [OF that] fit by (simp add: nv_fits_def h1)
  qed
  moreover have "distinct (map fst ?es)" using distinct_tuples [OF g(1)] by (simp add: pairs_def comp_def)
  moreover have "sdram_names \<subseteq> fst ` set ?es"
  proof
    fix n assume "n \<in> sdram_names"
    then have "nv_lookup c h n \<noteq> None" using four by blast
    moreover have "nv_lookup c h n = map_of ?es n" by (rule fun_cong [OF l])
    ultimately have "map_of ?es n \<noteq> None" by (simp only: not_False_eq_True)
    then show "n \<in> fst ` set ?es" by (simp only: map_of_eq_None_iff not_not)
  qed
  ultimately obtain h2 where r: "nvram_rehash c h1 = Some h2" "nv_inv c h2" "mem h2 = []" "nv_lookup c h2 = map_of ?es"
    using rehash_strings [of h1 ?es _ c] tx g(1) h1 by (auto simp: nv_inv_def)
  have "nvram_commit c part h = Some (0, h2)"
    using fit g(3) w p(1) s r(1) unfolding nvram_commit_def Let_def buf_def [symmetric] by simp
  with r l show ?thesis by auto
qed

section \<open>Loading again\<close>

lemma default_inv:
  "nv_inv c h \<and> mem h = [] \<Longrightarrow> nv_inv c (set_default c n v h) \<and> mem (set_default c n v h) = []"
  by (auto simp: set_default_def put_laws)

lemma rehash_loop_inv:
  "rehash_loop c bs h = Some h' \<Longrightarrow> nv_inv c h \<and> mem h = [] \<Longrightarrow> nv_inv c h' \<and> mem h' = []"
proof (induction c bs h rule: rehash_loop.induct)
  case (1 c bs h)
  show ?case
  proof (cases "\<exists>b r. bs = b # r \<and> b \<noteq> 0 \<and> length (takeWhile (\<lambda>x. x \<noteq> 0) bs) \<noteq> length bs \<and>
      of_char (CHR ''='') \<in> set (takeWhile (\<lambda>x. x \<noteq> 0) bs)")
    case True
    then obtain b r where b: "bs = b # r" "b \<noteq> 0" "length (takeWhile (\<lambda>x. x \<noteq> 0) bs) \<noteq> length bs"
      "of_char (CHR ''='') \<in> set (takeWhile (\<lambda>x. x \<noteq> 0) bs)" by blast
    note IH = 1(1) [OF b(1,2) refl b(3) _ refl refl]
    show ?thesis
      using 1(2,3) IH b put_laws(1) [of c h] unfolding rehash_loop.simps [of c bs h] Let_def by simp
  next
    case False
    then show ?thesis using 1(2,3) unfolding rehash_loop.simps [of c bs h] Let_def by (auto split: list.splits if_splits)
  qed
qed

lemma rehash_inv:
  assumes "nvram_rehash c h = Some h'" and "length (nvram_hash h) = 257" and "mem h = []"
  shows "nv_inv c h' \<and> mem h' = []"
proof -
  obtain h1 where h1: "rehash_loop c (drop (unat (nv_offset h) + 20) (area h)) (nvram_free h) = Some h1"
    using assms(1) by (auto simp: nvram_rehash_def Let_def)
  have "nv_inv c (nvram_free h) \<and> mem (nvram_free h) = []"
    using free_empties(1) [OF assms(2)] assms(3) by (simp add: nvram_free_def)
  from rehash_loop_inv [OF h1 this] show ?thesis
    using assms(1) h1 by (auto simp: nvram_rehash_def Let_def intro!: default_inv [THEN conjunct1] default_inv [THEN conjunct2])
qed

text \<open>Loading depends on the image only, so loading a second time changes nothing.\<close>

lemma rehash_cong:
  assumes "area h' = area h" and "nv_offset h' = nv_offset h" and "nv_length h' = nv_length h" and "map_addr h' = map_addr h"
    and "mem h' = mem h" and "length (nvram_hash h') = length (nvram_hash h)"
  shows "nvram_rehash c h' = nvram_rehash c h"
proof -
  have e: "map (\<lambda>_. []) (nvram_hash h') = (map (\<lambda>_. []) (nvram_hash h) :: nvram_tuple list list)"
    using assms(6) by (simp add: map_replicate_const)
  have fr: "nvram_free h' = nvram_free h"
    by (rule nvram_handle.equality) (use e assms in \<open>simp_all add: nvram_free_def\<close>)
  have nh: "nvram_header_at h' = nvram_header_at h" using assms(1,2) by (simp only: nvram_header_at_def)
  show ?thesis unfolding nvram_rehash_def fr nh assms(1,2) by (rule refl)
qed

lemma rehash_idem:
  assumes "nvram_rehash c h = Some h'" and "length (nvram_hash h) = 257" and "mem h = []"
  shows "nvram_rehash c h' = Some h'"
  using rehash_cong [of h' h c] rehash_frame [OF assms(1)] rehash_inv [OF assms] assms by (simp add: nv_inv_def)

lemma default_set:
  assumes "nv_inv c h \<and> mem h = []" and "nv_fits h v"
  shows "nv_lookup c (set_default c n v h) (cs n) \<noteq> None"
    "nv_lookup c h m \<noteq> None \<Longrightarrow> nv_lookup c (set_default c n v h) m \<noteq> None"
  using assms put_laws(2) [of c h v "cs n"] by (auto simp: set_default_def fun_eq_iff)

lemma default_fits: "nv_fits (set_default c n v h) w = nv_fits h w"
  by (simp add: nv_fits_def default_frame)

lemma length_hex_digits [simp]: "length (hex_digits k w) = k"
  by (induction k arbitrary: w) (simp_all add: Let_def)

lemma rehash_four:
  assumes "nvram_rehash c h = Some h'" and "length (nvram_hash h) = 257" and "mem h = []"
    and "11 \<le> unat (nv_length h - nv_offset h)" and "n \<in> sdram_names"
  shows "nv_lookup c h' n \<noteq> None"
proof -
  obtain h1 where h1: "rehash_loop c (drop (unat (nv_offset h) + 20) (area h)) (nvram_free h) = Some h1"
    using assms(1) by (auto simp: nvram_rehash_def Let_def)
  have "nv_inv c (nvram_free h) \<and> mem (nvram_free h) = []"
    using free_empties(1) [OF assms(2)] assms(3) by (simp add: nvram_free_def)
  note i1 = rehash_loop_inv [OF h1 this]
  have "nv_length h1 = nv_length h \<and> nv_offset h1 = nv_offset h" using rehash_loop_frame [OF h1] by (simp add: nvram_free_def)
  then have f1: "nv_fits h1 (cs ''0x'' @ hex_digits k w)" if "k \<le> 8" for k w
    using assms(4) that by (simp add: nv_fits_def cs_def)
  obtain w1 w2 w3 w4 where h': "h' = set_default c ''sdram_ncdl'' (cs ''0x'' @ hex_digits 8 w4)
      (set_default c ''sdram_refresh'' (cs ''0x'' @ hex_digits 4 w3)
      (set_default c ''sdram_config'' (cs ''0x'' @ hex_digits 4 w2) (set_default c ''sdram_init'' (cs ''0x'' @ hex_digits 4 w1) h1)))"
    using assms(1) h1 unfolding nvram_rehash_def Let_def by auto
  show ?thesis
    using assms(5) unfolding h' sdram_names_def
    by (elim insertE emptyE; hypsubst) (intro default_set default_inv i1 f1 | simp add: default_fits f1)+
qed

section \<open>The memory before the header\<close>

lemma write_bucket_prefix:
  "write_bucket lim ts (ptr, buf) = Some (ptr', buf') \<Longrightarrow> q \<le> ptr \<Longrightarrow> lim \<le> length buf \<Longrightarrow> take q buf' = take q buf"
proof (induction ts arbitrary: ptr buf)
  case (Cons t ts)
  then obtain v where v: "tvalue t = Some v" by (cases "tvalue t") auto
  let ?e = "entry_bytes (tname t) v"
  have le: "length ?e = length (tname t) + 1 + length v + 1" by (simp add: entry_bytes_def)
  show ?case
  proof (cases "ptr + length ?e > lim")
    case False
    then have w: "write_bucket lim ts (ptr + length ?e, memcpy_at buf ptr ?e) = Some (ptr', buf')"
      using Cons.prems(1) v by (simp add: le add.assoc)
    have "take q buf' = take q (memcpy_at buf ptr ?e)" using False Cons.prems(2,3) by (intro Cons.IH [OF w]) auto
    then show ?thesis using Cons.prems(2,3) False by (simp add: memcpy_at_def)
  qed (use Cons.prems v in \<open>simp add: le add.assoc\<close>)
qed simp

lemma write_table_prefix:
  "write_table lim bs (ptr, buf) = Some (ptr', buf') \<Longrightarrow> q \<le> ptr \<Longrightarrow> lim \<le> length buf \<Longrightarrow> take q buf' = take q buf"
proof (induction bs arbitrary: ptr buf)
  case (Cons b bs)
  obtain ptr1 buf1 where w: "write_bucket lim b (ptr, buf) = Some (ptr1, buf1)"
    using Cons.prems(1) by (cases "write_bucket lim b (ptr, buf)") auto
  note s = write_bucket_bounds [OF w Cons.prems(3)]
  have "write_table lim bs (ptr1, buf1) = Some (ptr', buf')" using Cons.prems(1) w by simp
  from Cons.IH [OF this] s Cons.prems(2,3) write_bucket_prefix [OF w Cons.prems(2,3)] show ?case by auto
qed simp

lemma pad_prefix: "pad_image h ptr buf = Some (ptr', buf') \<Longrightarrow> q \<le> ptr \<Longrightarrow> take q buf' = take q buf"
  by (auto simp: pad_image_def Let_def memcpy_at_def split: if_splits)

lemma seal_prefix:
  assumes "seal_image h nh (ptr, buf) = Some h1" and "unat (nv_offset h) \<le> length buf"
  shows "take (unat (nv_offset h)) (area h1) = take (unat (nv_offset h)) buf" "h1 = h\<lparr>area := area h1\<rparr>"
  using assms by (auto simp: seal_image_def Let_def memcpy_at_def split: if_splits)

lemma commit_again:
  assumes "nvram_commit c part h = Some (r, h')" and "nv_inv c h" and "mem h = []"
  shows "take (unat (nv_offset h)) (area h') = take (unat (nv_offset h)) (area h)" "nvram_rehash c h' = Some h'"
    "nv_offset h' = nv_offset h" "nv_length h' = nv_length h" "map_addr h' = map_addr h"
proof -
  let ?off = "unat (nv_offset h)"
  obtain buf ptr1 buf1 s h1 where st: "?off + 20 \<le> part" "part \<le> length (area h)" "r = 0"
    "write_table (part - 2) (nvram_hash h) (?off + 20, buf) = Some (ptr1, buf1)"
    "length buf = length (area h) \<and> take ?off buf = take ?off (area h)"
    "pad_image h ptr1 buf1 = Some s" "seal_image h (commit_header c h (nvram_header_at h)) s = Some h1" "nvram_rehash c h1 = Some h'"
    by (rule commit_steps [OF assms(1)])
  obtain ptr2 buf2 where s: "s = (ptr2, buf2)" by (rule prod.exhaust)
  have lim: "part - 2 \<le> length buf" using st(2,5) by simp
  note w = write_table_bounds [OF st(4) lim]
  have p: "take ?off buf1 = take ?off buf" by (rule write_table_prefix [OF st(4) _ lim]) simp
  have p2: "take ?off buf2 = take ?off buf1" using w by (intro pad_prefix [OF st(6) [unfolded s]]) simp
  have l2: "?off \<le> length buf2" using pad_bounds(3) [OF st(6) [unfolded s]] w st(1,2,5) by simp
  note e = seal_prefix [OF st(7) [unfolded s] l2]
  have h1: "nv_offset h1 = nv_offset h" "nv_length h1 = nv_length h" "map_addr h1 = map_addr h" "mem h1 = []" "length (nvram_hash h1) = 257"
    using assms(2,3) by (subst e(2), simp add: nv_inv_def)+
  note f = rehash_frame [OF st(8)]
  show "take ?off (area h') = take ?off (area h)" using f e(1) p p2 st(5) by simp
  show "nvram_rehash c h' = Some h'" by (rule rehash_idem [OF st(8) h1(5,4)])
  show "nv_offset h' = nv_offset h" "nv_length h' = nv_length h" "map_addr h' = map_addr h" using f h1 by simp_all
qed

section \<open>Stores without null values\<close>

lemma tuple_put_set: "set (tuple_put name x ts) \<subseteq> insert x (set ts)"
  by (induction ts) auto

text \<open>With enough memory no value is lost.\<close>

definition no_null :: "nvram_handle \<Rightarrow> bool" where
  "no_null h \<longleftrightarrow> (\<forall>t \<in> set (concat (nvram_hash h)). tvalue t \<noteq> None)"

lemma set_no_null:
  assumes "no_null h" and "mem h = []" and "length (nvram_hash h) = 257"
  shows "no_null (snd (nvram_set c h name v))"
proof -
  let ?i = "slot c name"
  let ?b = "nvram_hash h ! ?i"
  let ?t = "tuple_find name ?b"
  obtain u t1 h1 where a: "nvram_realloc h ?t name v = (u, t1, h1)" by (rule prod_cases3)
  obtain r h' where s: "nvram_set c h name v = (r, h')" by (rule prod.exhaust)
  have b: "set ?b \<subseteq> set (concat (nvram_hash h))" using assms(3) by (auto intro!: bexI [of _ ?b])
  have t1: "tvalue x \<noteq> None" if x: "t1 = Some x" for x
  proof (cases u)
    case None
    then have "t1 = ?t" using realloc_fails(2,3) [OF a [unfolded None]] assms(2) by auto
    then have "?t = Some x" using x by simp
    then have "x \<in> set ?b" by (auto dest: tuple_find_Some)
    then show ?thesis using assms(1) b by (auto simp: no_null_def)
  next
    case (Some y)
    then show ?thesis using realloc_ok(2,4) [OF a [unfolded Some]] x by (cases ?t) auto
  qed
  let ?b2 = "if u = None \<or> ?t \<noteq> None then (case t1 of None \<Rightarrow> ?b | Some x \<Rightarrow> tuple_put name x ?b) else the u # ?b"
  have b2: "tvalue t \<noteq> None" if t: "t \<in> set ?b2" for t
  proof (cases "t \<in> set ?b")
    case True
    then show ?thesis using assms(1) b by (auto simp: no_null_def)
  next
    case False
    then consider "t1 = Some t" | "u = Some t"
      using t tuple_put_set [of name _ ?b] by (cases t1; cases u) (auto split: if_splits)
    then show ?thesis
    proof cases
      case 2
      then show ?thesis using realloc_ok(2) [OF a [unfolded 2]] by simp
    qed (rule t1)
  qed
  have "nvram_hash h' = (nvram_hash h)[?i := ?b2]" using set_unfold(2) [OF a s] by simp
  then have "set (nvram_hash h') \<subseteq> insert ?b2 (set (nvram_hash h))" using set_update_subset_insert by metis
  then show ?thesis using s b2 assms(1) unfolding no_null_def by (auto dest!: subsetD)
qed

text \<open>Whether a store can be written is a matter of its contents alone.\<close>

lemma storable_map:
  assumes "nv_inv c h" and "no_null h" and "nv_lookup c h = map_of kvs" and "distinct (map fst kvs)" and "\<forall>e \<in> set kvs. nv_text e"
    and "unat (nv_offset h) + 20 + length (strings kvs) + 2 \<le> part"
  shows "nv_storable part h"
proof -
  let ?ts = "concat (nvram_hash h)"
  let ?es = "pairs ?ts"
  have m: "map_of ?es = map_of kvs" using lookup_pairs [OF assms(1)] assms(2,3) by (simp only: no_null_def)
  have d: "distinct (map fst ?es)" using distinct_tuples [OF assms(1)] by (simp add: pairs_def comp_def)
  have e: "set ?es = set kvs"
  proof (rule set_eqI)
    fix x :: "byte list \<times> byte list"
    obtain n v where x: "x = (n, v)" by (rule prod.exhaust)
    have "x \<in> set ?es \<longleftrightarrow> map_of ?es n = Some v" using d x by simp
    also have "\<dots> \<longleftrightarrow> x \<in> set kvs" unfolding m using assms(4) x by simp
    finally show "x \<in> set ?es \<longleftrightarrow> x \<in> set kvs" .
  qed
  have l: "length (strings xs) = sum_list (map (\<lambda>e. length (entry_bytes (fst e) (snd e))) xs)" for xs by (induction xs) simp_all
  have "length (strings ?es) = length (strings kvs)"
    using e d assms(4) unfolding l by (simp add: distinct_map sum_list_distinct_conv_sum_set)
  moreover have "\<exists>v. tvalue t = Some v \<and> nv_text (tname t, v)" if t: "t \<in> set ?ts" for t
  proof -
    obtain v where v: "tvalue t = Some v" using assms(2) t by (auto simp: no_null_def)
    have "(tname t, v) \<in> set ?es" using t v by (force simp: pairs_def simp del: set_concat)
    then show ?thesis using v e assms(5) by auto
  qed
  ultimately show ?thesis using assms(6) by (simp add: nv_storable_def del: set_concat)
qed

lemma default_no_null:
  "no_null h \<Longrightarrow> mem h = [] \<Longrightarrow> length (nvram_hash h) = 257 \<Longrightarrow> no_null (set_default c n v h)"
  by (simp add: set_default_def set_no_null)

section \<open>An example\<close>

text \<open>A partition of 32 KiB with the four SDRAM variables and one more.\<close>

definition ex_tuple :: "string \<Rightarrow> string \<Rightarrow> nvram_tuple" where
  "ex_tuple n v = \<lparr>tname = cs n, tvalue = Some (cs v)\<rparr>"

definition ex_table :: "nvram_tuple list list" where
  "ex_table = (replicate 257 [])[slot ex_nv_cpu (cs ''sdram_init'') := [ex_tuple ''sdram_init'' ''0x0419''],
     slot ex_nv_cpu (cs ''sdram_config'') := [ex_tuple ''sdram_config'' ''0x0000''],
     slot ex_nv_cpu (cs ''sdram_refresh'') := [ex_tuple ''sdram_refresh'' ''0x8040''],
     slot ex_nv_cpu (cs ''sdram_ncdl'') := [ex_tuple ''sdram_ncdl'' ''0x00000000''],
     slot ex_nv_cpu (cs ''a'') := [ex_tuple ''a'' ''b'']]"

definition ex_nvram :: nvram_handle where
  "ex_nvram = \<lparr>area = replicate 0x8000 0xff, map_addr = 0x40000000, nv_length = 0x8000, nv_offset = 0,
     nvram_hash = ex_table, nvram_dead = [], mem = []\<rparr>"

lemma ex_slots:
  "slot ex_nv_cpu (cs ''sdram_init'') = 225" "slot ex_nv_cpu (cs ''sdram_config'') = 162" "slot ex_nv_cpu (cs ''sdram_refresh'') = 177"
  "slot ex_nv_cpu (cs ''sdram_ncdl'') = 180" "slot ex_nv_cpu (cs ''a'') = 97"
  by code_simp+

lemma ex_concat:
  "concat ex_table = [ex_tuple ''a'' ''b'', ex_tuple ''sdram_config'' ''0x0000'', ex_tuple ''sdram_refresh'' ''0x8040'',
     ex_tuple ''sdram_ncdl'' ''0x00000000'', ex_tuple ''sdram_init'' ''0x0419'']"
  by code_simp

lemma ex_strings: "length (strings (pairs (concat ex_table))) = 85" "\<forall>e \<in> set (pairs (concat ex_table)). nv_text e"
  unfolding ex_concat by code_simp+

lemma ex_nvram_inv: "nv_inv ex_nv_cpu ex_nvram"
  by (auto simp: nv_inv_def ex_nvram_def ex_table_def nth_list_update ex_slots ex_tuple_def)

lemma ex_nvram_sane: "nv_sane ex_nv_cpu 0x8000 ex_nvram"
  using ex_nvram_inv by (simp add: nv_sane_def ex_nvram_def)

lemma ex_nvram_storable: "nv_storable 0x8000 ex_nvram"
proof -
  have "\<forall>t \<in> set (concat ex_table). \<exists>v. tvalue t = Some v \<and> nv_text (tname t, v)"
    using ex_strings(2) by (auto simp: ex_concat ex_tuple_def)
  then show ?thesis using ex_strings(1) by (simp add: nv_storable_def ex_nvram_def del: set_concat)
qed

lemma ex_nvram_four: "\<forall>n \<in> sdram_names. nv_lookup ex_nv_cpu ex_nvram n \<noteq> None"
  by (simp add: sdram_names_def nvram_get_def ex_slots ex_nvram_def ex_table_def nth_list_update ex_tuple_def)

section \<open>Properties\<close>

text \<open>C33: the table-driven checksum \<open>hndcrc8\<close> is the bit-by-bit division by the polynomial named in its comment: the table has
  the remainder of every byte.\<close>

theorem nvram_crc_reference:
  "hndcrc8 bs crc = fold (\<lambda>b r. crc8_bits (r XOR b)) bs crc"
  by (induction bs arbitrary: crc) (simp_all add: crc8_entry)



end
