(* ===== verification/Nvram_Cli.thy ===== *)
theory Nvram_Cli
  imports Nvram_Image
begin

text \<open>
  Opening an image and the command line of \<open>nvram\<close> (end of \<open>nvram.c\<close>, \<open>cli.c\<close>).

  The outside world is a record: what \<open>/proc/mtd\<close> says of the partition, the contents of its device and of the staging
  file, the global \<open>nvram_part_size\<close>, and the output. \<open>sys\<close> lists the outcomes of the coming calls of \<open>open\<close>, \<open>mmap\<close>, \<open>read\<close>,
  \<open>malloc\<close> and \<open>unlink\<close>, and calls beyond the list succeed; a call also fails when its file is missing or too
  short. A mapping opened for writing is shared with its file, which gets its contents when the handle is closed. Messages to \<open>stderr\<close>
  and the report of \<open>info\<close>, apart from its checksum, are left out.
\<close>

section \<open>The world\<close>

datatype nv_file = Mtd | Staging

record nv_world =
  proc_size :: "u32 option"
  mtd_file :: "byte list option"
  stg_file :: "byte list option"
  part_size :: nat
  map_base :: u32
  sys :: "bool list"
  printed_out :: "byte list"

definition sys_ok :: "nv_world \<Rightarrow> bool \<times> nv_world" where
  "sys_ok w = (case sys w of [] \<Rightarrow> (True, w) | b # bs \<Rightarrow> (b, w\<lparr>sys := bs\<rparr>))"

fun contents :: "nv_file \<Rightarrow> nv_world \<Rightarrow> byte list option" where
  "contents Mtd w = mtd_file w"
| "contents Staging w = stg_file w"

fun put_contents :: "nv_file \<Rightarrow> byte list \<Rightarrow> nv_world \<Rightarrow> nv_world" where
  "put_contents Mtd bs w = w\<lparr>mtd_file := Some bs\<rparr>"
| "put_contents Staging bs w = w\<lparr>stg_file := Some bs\<rparr>"

text \<open>\<open>open\<close> of a file that has to exist.\<close>

definition open_file :: "nv_file \<Rightarrow> nv_world \<Rightarrow> byte list option \<times> nv_world" where
  "open_file f w = (let (ok, w1) = sys_ok w in (if ok then contents f w1 else None, w1))"

section \<open>Files\<close>

text \<open>Whether a path is returned. The size of the partition is set even when the device is missing.\<close>

definition nvram_find_mtd :: "nv_cpu \<Rightarrow> nv_world \<Rightarrow> bool \<times> nv_world" where
  "nvram_find_mtd c w =
     (case proc_size w of
        None \<Rightarrow> (False, w)
      | Some sz \<Rightarrow>
          let w1 = w\<lparr>part_size := nat (sint sz mod 2 ^ size_bits c)\<rparr>
          in if mtd_file w1 = None then (False, w1) else sys_ok w1)"

definition nvram_find_staging :: "nv_world \<Rightarrow> bool" where
  "nvram_find_staging w \<longleftrightarrow> stg_file w \<noteq> None"

text \<open>The copies between the files; \<open>write\<close> replaces the beginning of the file and is taken to succeed.\<close>

definition overwrite :: "byte list \<Rightarrow> byte list option \<Rightarrow> byte list" where
  "overwrite bs old = bs @ drop (length bs) (case old of None \<Rightarrow> [] | Some f \<Rightarrow> f)"

definition read_whole :: "nv_file \<Rightarrow> nv_world \<Rightarrow> byte list option \<times> nv_world" where
  "read_whole f w =
     (case contents f w of
        None \<Rightarrow> (None, w)
      | Some bs \<Rightarrow> let (ok, w1) = sys_ok w
                   in (if ok \<and> part_size w \<le> length bs then Some (take (part_size w) bs) else None, w1))"

definition nvram_to_staging :: "nv_cpu \<Rightarrow> nv_world \<Rightarrow> int \<times> nv_world" where
  "nvram_to_staging c w =
     (let (found, w1) = nvram_find_mtd c w
      in if \<not> (found \<and> part_size w1 > 0) then (-1, w1)
         else let (fd, w2) = open_file Mtd w1
         in if fd = None then (-1, w2)
            else let (buf, w3) = read_whole Mtd w2
            in case buf of
                 None \<Rightarrow> (-1, w3)
               | Some bs \<Rightarrow>
                   let (ok, w4) = sys_ok w3
                   in if ok then (0, put_contents Staging (overwrite bs (stg_file w4)) w4) else (-1, w4))"

definition staging_to_nvram :: "nv_cpu \<Rightarrow> nv_world \<Rightarrow> int \<times> nv_world" where
  "staging_to_nvram c w =
     (let (found, w1) = nvram_find_mtd c w
      in if \<not> (found \<and> part_size w1 > 0) then (-1, w1)
         else let (fd, w2) = open_file Staging w1
         in if fd = None then (-1, w2)
            else let (buf, w3) = read_whole Staging w2
            in case buf of
                 None \<Rightarrow> (-1, w3)
               | Some bs \<Rightarrow>
                   let (fdm, w4) = open_file Mtd w3
                   in if fdm = None then (-1, w4)
                      else let (ok, w5) = sys_ok (put_contents Mtd (overwrite bs (mtd_file w4)) w4)
                      in if ok then (0, w5\<lparr>stg_file := None\<rparr>) else (1, w5))"

section \<open>Opening and closing\<close>

text \<open>The search for the magic number: the number of the word, if it is found.\<close>

datatype search = Found nat | NotFound | Outside

function find_magic :: "nat \<Rightarrow> nat \<Rightarrow> byte list \<Rightarrow> search" where
  "find_magic bound i bs =
     (if i > bound then NotFound
      else if length bs < 4 then Outside
      else if le32_of bs = NVRAM_MAGIC then Found i
      else find_magic bound (i + 1) (drop 4 bs))"
  by pat_completeness auto
termination
  by (relation "measure (\<lambda>(bound, i, bs). length bs)") auto

declare find_magic.simps [simp del]

abbreviation NVRAM_MIN_SPACE :: int where "NVRAM_MIN_SPACE \<equiv> 0x8000"

definition search_bound :: "nv_cpu \<Rightarrow> nat \<Rightarrow> nat" where
  "search_bound c part = nat ((int part - NVRAM_MIN_SPACE) mod 2 ^ size_bits c) div 4"

text \<open>The part of \<open>nvram_open\<close> behind the mapping. The null pointer is \<open>None\<close> inside; \<open>None\<close> outside is an access outside the
  mapping.\<close>

definition open_mapped :: "nv_cpu \<Rightarrow> bool \<Rightarrow> byte list \<Rightarrow> nv_world \<Rightarrow> (nvram_handle option \<times> nv_world) option" where
  "open_mapped c rdonly mmap_area w =
     (case find_magic (search_bound c (part_size w)) 0 mmap_area of
        Outside \<Rightarrow> None
      | NotFound \<Rightarrow> Some (None, w)
      | Found i \<Rightarrow>
          let (ok, w1) = sys_ok w
          in if \<not> ok then Some (None, w1)
             else
               let h = \<lparr>area = mmap_area, map_addr = map_base w1, nv_length = of_nat (part_size w1), nv_offset = of_nat (i * 4),
                        nvram_hash = replicate NVRAM_ARRAYSIZE [], nvram_dead = [], mem = sys w1\<rparr>;
                   nh = nvram_header_at h
               in if length mmap_area < i * 4 + NVH_SIZE then None
                  else if nvh_magic nh = NVRAM_MAGIC \<and> (rdonly \<or> nvh_len nh < nv_length h - nv_offset h)
                  then map_option (\<lambda>h1. (Some h1, w1)) (nvram_rehash c h)
                  else Some (None, w1))"

definition nvram_open :: "nv_cpu \<Rightarrow> nv_file option \<Rightarrow> bool \<Rightarrow> nv_world \<Rightarrow> (nvram_handle option \<times> nv_world) option" where
  "nvram_open c f rdonly w =
     (let (go, w1) = (if part_size w = 0 \<or> f = None then
                        let (found, w1) = nvram_find_mtd c w in (found \<and> part_size w1 > 0, w1)
                      else (True, w))
      in if \<not> go then Some (None, w1)
         else let (fd, w2) = open_file (case f of None \<Rightarrow> Mtd | Some x \<Rightarrow> x) w1
         in case fd of
              None \<Rightarrow> Some (None, w2)
            | Some bs \<Rightarrow>
                let (ok, w3) = sys_ok w2
                in if \<not> ok then Some (None, w3) else open_mapped c rdonly (take (part_size w3) bs) w3)"

text \<open>Closing; \<open>fw\<close> is the file of a shared mapping.\<close>

definition nvram_close :: "nv_file option \<Rightarrow> nvram_handle \<Rightarrow> nv_world \<Rightarrow> nv_world" where
  "nvram_close fw h w =
     (let w1 = w\<lparr>sys := mem h\<rparr>
      in case fw of None \<Rightarrow> w1 | Some f \<Rightarrow> put_contents f (overwrite (area h) (contents f w1)) w1)"

section \<open>Commands\<close>

definition nvram_open_rdonly :: "nv_cpu \<Rightarrow> nv_world \<Rightarrow> (nvram_handle option \<times> nv_world) option" where
  "nvram_open_rdonly c w =
     (if nvram_find_staging w then nvram_open c (Some Staging) True w
      else let (found, w1) = nvram_find_mtd c w
           in if found then nvram_open c (Some Mtd) True w1 else Some (None, w1))"

definition nvram_open_staging :: "nv_cpu \<Rightarrow> nv_world \<Rightarrow> (nvram_handle option \<times> nv_world) option" where
  "nvram_open_staging c w =
     (if nvram_find_staging w then nvram_open c (Some Staging) False w
      else let (r, w1) = nvram_to_staging c w
           in if r = 0 then nvram_open c (Some Staging) False w1 else Some (None, w1))"

definition puts_out :: "byte list \<Rightarrow> nv_world \<Rightarrow> nv_world" where
  "puts_out bs w = w\<lparr>printed_out := printed_out w @ bs\<rparr>"

fun show_loop :: "nvram_tuple list \<Rightarrow> nv_world \<Rightarrow> nv_world option" where
  "show_loop [] w = Some w"
| "show_loop (t # ts) w =
     (case tvalue t of
        None \<Rightarrow> None
      | Some v \<Rightarrow> show_loop ts (puts_out (tname t @ cs ''='' @ v @ cs ''\<newline>'') w))"

definition do_show :: "nvram_handle \<Rightarrow> nv_world \<Rightarrow> (int \<times> nvram_handle \<times> nv_world) option" where
  "do_show h w =
     (let (ts, h1) = nvram_getall h
      in if ts = [] then Some (1, h1, w) else map_option (\<lambda>w1. (0, h1, w1)) (show_loop ts w))"

definition do_get :: "nv_cpu \<Rightarrow> byte list \<Rightarrow> nvram_handle \<Rightarrow> nv_world \<Rightarrow> int \<times> nv_world" where
  "do_get c var h w =
     (case nvram_get c h (Some var) of
        None \<Rightarrow> (1, w)
      | Some v \<Rightarrow> (0, puts_out (v @ cs ''\<newline>'') w))"

definition do_unset :: "nv_cpu \<Rightarrow> byte list \<Rightarrow> nvram_handle \<Rightarrow> int \<times> nvram_handle" where
  "do_unset c var h = nvram_unset c h (Some var)"

definition do_set :: "nv_cpu \<Rightarrow> byte list \<Rightarrow> nvram_handle \<Rightarrow> int \<times> nvram_handle" where
  "do_set c pair h =
     (if of_char (CHR ''='') \<in> set pair then
        let var = takeWhile (\<lambda>x. x \<noteq> of_char (CHR ''='')) pair
        in nvram_set c h var (drop (length var + 1) pair)
      else (1, h))"

text \<open>The checksum that \<open>do_info\<close> shows as calculated.\<close>

definition do_info :: "nvram_handle \<Rightarrow> byte option" where
  "do_info h =
     (let nh = nvram_header_at h;
          start = unat (nv_offset h) + NVRAM_CRC_START_POSITION;
          n = unat (nvh_len nh - of_nat NVRAM_CRC_START_POSITION)
      in if start + n > length (area h) then None
         else Some (hndcrc8 (take n (drop start (area h))) 0xff))"

text \<open>The loop of \<open>main\<close> over the arguments: the status, whether anything was done, and whether \<open>commit\<close> was given.\<close>

record cli =
  stat :: int
  did :: bool
  commit :: bool
  hnd :: nvram_handle
  wld :: nv_world

fun cli_loop :: "nv_cpu \<Rightarrow> byte list list \<Rightarrow> cli \<Rightarrow> cli option" where
  "cli_loop c [] m = Some m"
| "cli_loop c (a # as) m =
     (if a = cs ''show'' then
        Option.bind (do_show (hnd m) (wld m)) (\<lambda>(r, h, w). cli_loop c as (m\<lparr>stat := r, did := True, hnd := h, wld := w\<rparr>))
      else if a = cs ''info'' then
        Option.bind (do_info (hnd m)) (\<lambda>_. cli_loop c as (m\<lparr>stat := 0, did := True\<rparr>))
      else if a = cs ''get'' \<or> a = cs ''unset'' \<or> a = cs ''set'' then
        (case as of
           [] \<Rightarrow> Some (m\<lparr>did := False\<rparr>)
         | b # bs \<Rightarrow>
             if a = cs ''get'' then
               let (r, w) = do_get c b (hnd m) (wld m) in cli_loop c bs (m\<lparr>stat := r, did := True, wld := w\<rparr>)
             else if a = cs ''unset'' then
               let (r, h) = do_unset c b (hnd m) in cli_loop c bs (m\<lparr>stat := r, did := True, hnd := h\<rparr>)
             else
               let (r, h) = do_set c b (hnd m) in cli_loop c bs (m\<lparr>stat := r, did := True, hnd := h\<rparr>))
      else if a = cs ''commit'' then cli_loop c as (m\<lparr>commit := True, did := True\<rparr>)
      else Some (m\<lparr>did := False\<rparr>))"

definition wants_write :: "byte list list \<Rightarrow> bool" where
  "wants_write args \<longleftrightarrow> (args ! 0 = cs ''set'' \<and> length args > 1) \<or> (args ! 0 = cs ''unset'' \<and> length args > 1) \<or> args ! 0 = cs ''commit''"

text \<open>\<open>main\<close> with the arguments behind the program name: its status and the world left.\<close>

definition nvram_main :: "nv_cpu \<Rightarrow> byte list list \<Rightarrow> nv_world \<Rightarrow> (int \<times> nv_world) option" where
  "nvram_main c args w =
     (if args = [] then Some (1, w)
      else Option.bind (if wants_write args then nvram_open_staging c w else nvram_open_rdonly c w) (\<lambda>(r, w1).
        case r of
          None \<Rightarrow> Some (1, w1)
        | Some h \<Rightarrow>
            Option.bind (cli_loop c args \<lparr>stat = 1, did = False, commit = False, hnd = h, wld = w1\<rparr>) (\<lambda>m.
              Option.bind (if wants_write args then nvram_commit c (part_size (wld m)) (hnd m) else Some (stat m, hnd m)) (\<lambda>(st, h1).
                let w2 = nvram_close (if wants_write args then Some Staging else None) h1 (wld m);
                    (st1, w3) = (if commit m then staging_to_nvram c w2 else (st, w2))
                in Some (if did m then st1 else 1, w3)))))"

section \<open>Finding the header\<close>

lemma le32_take: "4 \<le> n \<Longrightarrow> le32_of (take n bs) = le32_of bs"
  by (cases bs rule: le32_of.cases) (auto simp: take_Cons')

lemma find_magic_Found:
  "find_magic b i bs = Found j \<Longrightarrow>
   i \<le> j \<and> j \<le> b \<and> 4 * (j - i) + 4 \<le> length bs \<and> le32_of (drop (4 * (j - i)) bs) = NVRAM_MAGIC"
proof (induction b i bs rule: find_magic.induct)
  case (1 b i bs)
  show ?case
  proof (cases "i > b \<or> length bs < 4 \<or> le32_of bs = NVRAM_MAGIC")
    case True
    then show ?thesis using 1(2) by (auto simp: find_magic.simps [of b i bs] split: if_splits)
  next
    case False
    then have f: "find_magic b (i + 1) (drop 4 bs) = Found j" using 1(2) by (simp add: find_magic.simps [of b i bs])
    have "4 * (j - i) = 4 + 4 * (j - (i + 1))" if "i + 1 \<le> j" using that by simp
    with 1(1) [OF _ _ _ f] False show ?thesis by (auto simp: add.commute)
  qed
qed

lemma find_magic_same:
  "find_magic b i xs = Found j \<Longrightarrow> take (4 * (j - i)) ys = take (4 * (j - i)) xs \<Longrightarrow>
   le32_of (drop (4 * (j - i)) ys) = NVRAM_MAGIC \<Longrightarrow> 4 * (j - i) + 4 \<le> length ys \<Longrightarrow> find_magic b i ys = Found j"
proof (induction b i xs arbitrary: ys rule: find_magic.induct)
  case (1 b i xs)
  note j = find_magic_Found [OF 1(2)]
  show ?case
  proof (cases "i = j")
    case True
    then show ?thesis using 1(4,5) j by (simp add: find_magic.simps [of b j ys])
  next
    case False
    define k where "k = 4 * (j - (i + 1))"
    have "i < j" using j False by simp
    then have d: "4 * (j - i) = 4 + k" unfolding k_def by arith
    note p = 1(3-5) [unfolded d]
    have n: "le32_of xs \<noteq> NVRAM_MAGIC" "\<not> length xs < 4" "\<not> i > b"
      using 1(2) False by (auto simp: find_magic.simps [of b i xs] split: if_splits)
    have "le32_of ys = le32_of (take (4 + k) ys)" by (rule le32_take [symmetric]) simp
    also have "\<dots> = le32_of xs" unfolding p(1) by (rule le32_take) simp
    finally have m: "le32_of ys \<noteq> NVRAM_MAGIC" using n(1) by simp
    have f: "find_magic b (i + 1) (drop 4 xs) = Found j" using 1(2) n by (simp add: find_magic.simps [of b i xs])
    have "take k (drop 4 ys) = take k (drop 4 xs)" using arg_cong [OF p(1), of "drop 4"] by (simp add: drop_take)
    moreover have "le32_of (drop k (drop 4 ys)) = NVRAM_MAGIC" using p(2) by (simp add: add.commute)
    moreover have "k + 4 \<le> length (drop 4 ys)" using p(3) by simp
    ultimately have "find_magic b (i + 1) (drop 4 ys) = Found j" using 1(1) [OF n(3,2,1) f, of "drop 4 ys"] unfolding k_def by blast
    then show ?thesis using m n(3) p(3) by (simp add: find_magic.simps [of b i ys])
  qed
qed

section \<open>Opened handles\<close>

lemma sys_ok_Nil [simp]: "sys w = [] \<Longrightarrow> sys_ok w = (True, w)"
  by (simp add: sys_ok_def)

text \<open>A handle as \<open>nvram_open\<close> makes it, before the variables are loaded.\<close>

definition fresh_handle :: "byte list \<Rightarrow> nat \<Rightarrow> nv_world \<Rightarrow> nvram_handle" where
  "fresh_handle bs i w = \<lparr>area = bs, map_addr = map_base w, nv_length = of_nat (part_size w), nv_offset = of_nat (i * 4),
     nvram_hash = replicate NVRAM_ARRAYSIZE [], nvram_dead = [], mem = sys w\<rparr>"

lemma open_mapped_eq:
  assumes "sys w = []"
  shows "open_mapped c rd bs w =
    (case find_magic (search_bound c (part_size w)) 0 bs of
        Outside \<Rightarrow> None
      | NotFound \<Rightarrow> Some (None, w)
      | Found i \<Rightarrow>
          let h = fresh_handle bs i w; nh = nvram_header_at h
          in if length bs < i * 4 + NVH_SIZE then None
             else if nvh_magic nh = NVRAM_MAGIC \<and> (rd \<or> nvh_len nh < nv_length h - nv_offset h)
             then map_option (\<lambda>h1. (Some h1, w)) (nvram_rehash c h)
             else Some (None, w))"
  using assms by (auto simp: open_mapped_def fresh_handle_def Let_def split: search.split)

lemma opened:
  assumes "open_mapped c rd bs w = Some (Some h, w1)" and "sys w = []" and "length bs = part_size w" and "part_size w < 2 ^ 31"
  obtains i where "find_magic (search_bound c (part_size w)) 0 bs = Found i" "w1 = w" "i * 4 + 20 \<le> length bs"
    "area h = bs" "unat (nv_offset h) = i * 4" "nv_offset h = of_nat (i * 4)" "unat (nv_length h) = part_size w" "nv_length h = of_nat (part_size w)"
    "map_addr h = map_base w" "nv_inv c h" "mem h = []" "\<forall>n \<in> sdram_names. nv_lookup c h n \<noteq> None"
proof -
  obtain i where i: "find_magic (search_bound c (part_size w)) 0 bs = Found i"
    using assms(1) by (auto simp: open_mapped_eq [OF assms(2)] split: search.splits)
  let ?h = "fresh_handle bs i w"
  have b: "i * 4 + 20 \<le> length bs" and r: "nvram_rehash c ?h = Some h" and w: "w1 = w"
    using assms(1) i by (auto simp: open_mapped_eq [OF assms(2)] Let_def split: if_splits)
  have u: "unat (of_nat (i * 4) :: u32) = i * 4" "unat (of_nat (part_size w) :: u32) = part_size w"
    using b assms(3,4) by (simp_all only: unsigned_of_nat) (simp_all add: take_bit_nat_eq_self)
  have f: "area ?h = bs" "nv_offset ?h = of_nat (i * 4)" "nv_length ?h = of_nat (part_size w)" "map_addr ?h = map_base w"
    "length (nvram_hash ?h) = 257" "mem ?h = []"
    using assms(2) by (simp_all add: fresh_handle_def)
  note g = rehash_frame [OF r] rehash_inv [OF r f(5,6)]
  have "11 \<le> unat (nv_length ?h - nv_offset ?h)"
    using b assms(3) u unfolding f by (simp add: unat_sub_if')
  then have "\<forall>n \<in> sdram_names. nv_lookup c h n \<noteq> None" using rehash_four [OF r f(5,6)] by blast
  then show ?thesis using that [OF i w b] g f u by simp
qed

lemma reopen:
  assumes "nvram_rehash c h = Some h" and "nv_inv c h" and "mem h = []" and "sys w = []"
    and "nv_offset h = of_nat (i * 4)" and "nv_length h = of_nat (part_size w)" and "map_addr h = map_base w"
    and "find_magic (search_bound c (part_size w)) 0 (area h) = Found i" and "i * 4 + 20 \<le> length (area h)"
    and "nvh_magic (nvram_header_at h) = NVRAM_MAGIC"
  shows "open_mapped c True (area h) w = Some (Some h, w)"
proof -
  let ?h = "fresh_handle (area h) i w"
  have "nvram_rehash c ?h = nvram_rehash c h"
    using assms(2-7) by (intro rehash_cong) (simp_all add: fresh_handle_def nv_inv_def)
  moreover have "nvram_header_at ?h = nvram_header_at h" using assms(5) by (simp add: nvram_header_at_def fresh_handle_def)
  ultimately show ?thesis using assms(1,8,9,10) by (simp add: open_mapped_eq [OF assms(4)] Let_def)
qed

section \<open>A run of the program\<close>

text \<open>A world before a first run: every system call succeeds, there is no staging file, and the partition is there.\<close>

definition nv_start :: "nv_cpu \<Rightarrow> nat \<Rightarrow> byte list \<Rightarrow> nv_world \<Rightarrow> bool" where
  "nv_start c part bs w \<longleftrightarrow> sys w = [] \<and> stg_file w = None \<and> mtd_file w = Some bs \<and> part \<le> length bs \<and> 0 < part \<and> part < 2 ^ 31 \<and>
     (\<exists>sz. proc_size w = Some sz \<and> nat (sint sz mod 2 ^ size_bits c) = part)"

lemma find_mtd_start:
  assumes "sys w = []" and "mtd_file w \<noteq> None" and "proc_size w = Some sz"
  shows "nvram_find_mtd c w = (True, w\<lparr>part_size := nat (sint sz mod 2 ^ size_bits c)\<rparr>)"
  using assms by (auto simp: nvram_find_mtd_def)

lemma to_staging_start:
  assumes "nv_start c part bs w"
  shows "nvram_to_staging c w = (0, w\<lparr>part_size := part, stg_file := Some (take part bs)\<rparr>)"
  using assms find_mtd_start [of w _ c]
  by (auto simp: nv_start_def nvram_to_staging_def open_file_def read_whole_def overwrite_def)

lemma open_staging_start:
  assumes "nv_start c part bs w"
  shows "nvram_open_staging c w = open_mapped c False (take part bs) (w\<lparr>part_size := part, stg_file := Some (take part bs)\<rparr>)"
  using assms
  by (simp add: nvram_open_staging_def to_staging_start [OF assms] nvram_find_staging_def nvram_open_def open_file_def nv_start_def)

text \<open>The write-back of a staging file of the right size.\<close>

lemma from_staging:
  assumes "sys w = []" and "mtd_file w = Some bs" and "proc_size w = Some sz" and "part_size w = nat (sint sz mod 2 ^ size_bits c)"
    and "0 < part_size w" and "stg_file w = Some im" and "length im = part_size w"
  shows "staging_to_nvram c w = (0, w\<lparr>mtd_file := Some (im @ drop (part_size w) bs), stg_file := None\<rparr>)"
proof -
  have "nvram_find_mtd c w = (True, w)" using find_mtd_start [OF assms(1) _ assms(3), of c] assms(2,4) by simp
  then show ?thesis using assms(1,2,5-7) by (simp add: staging_to_nvram_def open_file_def read_whole_def overwrite_def)
qed

lemma cs_distinct:
  "cs ''get'' \<noteq> cs ''show''" "cs ''get'' \<noteq> cs ''info''" "cs ''set'' \<noteq> cs ''show''" "cs ''set'' \<noteq> cs ''info''" "cs ''set'' \<noteq> cs ''get''"
  "cs ''set'' \<noteq> cs ''unset''" "cs ''commit'' \<noteq> cs ''show''" "cs ''commit'' \<noteq> cs ''info''" "cs ''commit'' \<noteq> cs ''get''"
  "cs ''commit'' \<noteq> cs ''unset''" "cs ''commit'' \<noteq> cs ''set''" "cs ''get'' \<noteq> cs ''unset''" "cs ''get'' \<noteq> cs ''set''" "cs ''get'' \<noteq> cs ''commit''"
  by (simp_all add: cs_def)

lemma do_set_pair:
  "of_char (CHR ''='') \<notin> set name \<Longrightarrow> do_set c (name @ of_char (CHR ''='') # v) h = nvram_set c h name v"
  using takeWhile_stop [of "of_char (CHR ''='')" name v] by (simp add: do_set_def Let_def)

text \<open>One \<open>get\<close> without a staging file prints from the opened store.\<close>

lemma main_get:
  assumes "stg_file w = None" and "sys w = []" and "mtd_file w = Some bs" and "proc_size w = Some sz"
    and "part_size w = nat (sint sz mod 2 ^ size_bits c)" and "0 < part_size w"
    and "open_mapped c True (take (part_size w) bs) w = Some (Some h, w)" and "mem h = []"
  shows "nvram_main c [cs ''get'', n] w =
    Some (case nv_lookup c h n of None \<Rightarrow> (1, w) | Some u \<Rightarrow> (0, puts_out (u @ cs ''\<newline>'') w))"
proof -
  have f: "nvram_find_mtd c w = (True, w)" using find_mtd_start [OF assms(2) _ assms(4), of c] assms(3,5) by simp
  have "nvram_open_rdonly c w = Some (Some h, w)"
    using assms(1-3,6,7) f by (simp add: nvram_open_rdonly_def nvram_find_staging_def nvram_open_def open_file_def)
  moreover have "\<not> wants_write [cs ''get'', n]" by (simp add: wants_write_def cs_distinct cs_distinct [symmetric])
  moreover have "w\<lparr>sys := []\<rparr> = w" using assms(2) by simp
  ultimately show ?thesis
    using assms(2,8) by (auto simp: nvram_main_def cs_distinct do_get_def nvram_close_def puts_out_def split: option.split)
qed

lemma sane_set:
  assumes "nv_sane c part h" and "nvram_set c h name v = (0, h1)"
  shows "nv_sane c part h1" "area h1 = area h" "nv_offset h1 = nv_offset h" "nv_length h1 = nv_length h" "map_addr h1 = map_addr h"
    "nv_lookup c h1 = (nv_lookup c h)(name \<mapsto> v)"
proof -
  have i: "nv_inv c h" "mem h = []" using assms(1) by (simp_all add: nv_sane_def)
  show f: "area h1 = area h" "nv_offset h1 = nv_offset h" "nv_length h1 = nv_length h" "map_addr h1 = map_addr h"
    using set_frame [of c h name v] assms(2) by simp_all
  show "nv_sane c part h1" using assms(1) f set_inv(1,3) [OF i(1) assms(2)] by (simp add: nv_sane_def)
  show "nv_lookup c h1 = (nv_lookup c h)(name \<mapsto> v)" by (rule set_cases [OF i(1) assms(2)]) simp_all
qed

lemma main_set:
  assumes st: "nv_start c part bs w" and op: "nvram_open_staging c w = Some (Some h, w1)"
    and s: "nvram_set c h name v = (0, h1)" and eq: "of_char (CHR ''='') \<notin> set name"
    and cm: "nvram_commit c part h1 = Some (0, h2)" and l: "length (area h2) = part" "mem h2 = []"
    and w1: "w1 = w\<lparr>part_size := part, stg_file := Some (take part bs)\<rparr>"
  shows "nvram_main c [cs ''set'', name @ of_char (CHR ''='') # v, cs ''commit''] w =
    Some (0, w\<lparr>part_size := part, mtd_file := Some (area h2 @ drop part bs)\<rparr>)"
proof -
  let ?args = "[cs ''set'', name @ of_char (CHR ''='') # v, cs ''commit'']"
  obtain sz where sz: "proc_size w = Some sz" "nat (sint sz mod 2 ^ size_bits c) = part" using st by (auto simp: nv_start_def)
  have g: "sys w = []" "stg_file w = None" "mtd_file w = Some bs" "part \<le> length bs" "0 < part" using st by (simp_all add: nv_start_def)
  have wr: "wants_write ?args" by (simp add: wants_write_def)
  have loop: "cli_loop c ?args \<lparr>stat = 1, did = False, commit = False, hnd = h, wld = w1\<rparr> =
      Some \<lparr>stat = 0, did = True, commit = True, hnd = h1, wld = w1\<rparr>"
    using do_set_pair [OF eq, of c v h] s by (simp add: cs_distinct cs_distinct [symmetric])
  let ?w2 = "w1\<lparr>sys := [], stg_file := Some (area h2)\<rparr>"
  have cl: "nvram_close (Some Staging) h2 w1 = ?w2"
    using l g(4) by (simp add: nvram_close_def w1 overwrite_def)
  have fs: "staging_to_nvram c ?w2 = (0, ?w2\<lparr>mtd_file := Some (area h2 @ drop part bs), stg_file := None\<rparr>)"
    using from_staging [of ?w2 bs sz c "area h2"] g sz l by (simp add: w1)
  have w3: "?w2\<lparr>mtd_file := x, stg_file := None\<rparr> = w\<lparr>part_size := part, mtd_file := x\<rparr>" for x
    by (rule nv_world.equality) (use g in \<open>simp_all add: w1\<close>)
  have p: "part_size w1 = part" by (simp add: w1)
  show ?thesis
    unfolding nvram_main_def if_P [OF wr] op using loop cm cl fs w3 p by simp
qed

text \<open>The image that a commit leaves is opened again as the same store.\<close>

lemma commit_reopens:
  assumes sane: "nv_sane c part h1" and cm: "nvram_commit c part h1 = Some (0, h2)" and inv: "nv_inv c h2" "mem h2 = []"
    and i: "find_magic (search_bound c part) 0 (area h1) = Found i" "nv_offset h1 = of_nat (i * 4)" "unat (nv_offset h1) = i * 4" "i * 4 + 20 \<le> part"
    and w: "nv_length h1 = of_nat part" "map_addr h1 = map_base w" "sys w = []" "part_size w = part" "part < 2 ^ 31"
  shows "open_mapped c True (area h2) w = Some (Some h2, w)" "length (area h2) = part"
proof -
  have s1: "nv_inv c h1" "mem h1 = []" "length (area h1) = part" using sane by (simp_all add: nv_sane_def)
  note a = commit_again [OF cm s1(1,2)]
  note cs = commit_sealed(3,4) [OF cm s1(3) [THEN ord_eq_less_trans, OF w(5)]]
  show la: "length (area h2) = part" using cs(1) s1(3) by simp
  have "find_magic (search_bound c part) 0 (area h2) = Found i"
  proof (rule find_magic_same [OF i(1)])
    show "take (4 * (i - 0)) (area h2) = take (4 * (i - 0)) (area h1)" using a(1) i(3) by (simp add: mult.commute)
    show "le32_of (drop (4 * (i - 0)) (area h2)) = NVRAM_MAGIC"
      using cs(2) a(3) i(3) by (simp add: nvram_header_at_def nvh_of_def mult.commute)
    show "4 * (i - 0) + 4 \<le> length (area h2)" using la i(4) by simp
  qed
  then show "open_mapped c True (area h2) w = Some (Some h2, w)"
    using a i w la inv cs(2) by (intro reopen) simp_all
qed

section \<open>Properties\<close>


text \<open>The example: a partition of 32 KiB with an image without variables.\<close>

definition ex_image :: "byte list" where
  "ex_image = nvh_bytes \<lparr>nvh_magic = NVRAM_MAGIC, nvh_len = 24, nvh_crc_ver_init = 0, nvh_config_refresh = 0, nvh_config_ncdl = 0\<rparr> @
     0 # replicate 0x7feb 0xff"

definition ex_world :: nv_world where
  "ex_world = \<lparr>proc_size = Some 0x8000, mtd_file = Some ex_image, stg_file = None, part_size = 0, map_base = 0x40000000,
     sys = [], printed_out = []\<rparr>"

definition ex_defaults :: "(byte list \<times> byte list) list" where
  "ex_defaults = [(cs ''sdram_ncdl'', cs ''0x'' @ hex_digits 8 0), (cs ''sdram_refresh'', cs ''0x'' @ hex_digits 4 0),
     (cs ''sdram_config'', cs ''0x'' @ hex_digits 4 0), (cs ''sdram_init'', cs ''0x'' @ hex_digits 4 0)]"

lemma length_ex_image: "length ex_image = 0x8000"
  by (simp add: ex_image_def)

lemma ex_start: "nv_start ex_nv_cpu 0x8000 ex_image ex_world"
  by (simp add: nv_start_def ex_world_def length_ex_image ex_nv_cpu_def)

lemma default_lookup:
  assumes "nv_inv c h \<and> mem h = []" and "nv_fits h v" and "nv_lookup c h (cs n) = None"
  shows "nv_lookup c (set_default c n v h) = (nv_lookup c h)(cs n \<mapsto> v)"
  using assms put_laws(2) [of c h v "cs n"] by (simp add: set_default_def)

text \<open>Loading an image without variables leaves the four SDRAM variables.\<close>

lemma defaults_loaded:
  assumes h0: "nv_inv c h0 \<and> mem h0 = []" "nv_lookup c h0 = (\<lambda>_. None)" "no_null h0" "\<And>k w. k \<le> 8 \<Longrightarrow> nv_fits h0 (cs ''0x'' @ hex_digits k w)"
  defines "d \<equiv> \<lambda>n k. set_default c n (cs ''0x'' @ hex_digits k 0)"
  defines "h4 \<equiv> d ''sdram_ncdl'' 8 (d ''sdram_refresh'' 4 (d ''sdram_config'' 4 (d ''sdram_init'' 4 h0)))"
  shows "nv_inv c h4 \<and> mem h4 = []" "no_null h4" "nv_lookup c h4 = map_of ex_defaults"
proof -
  have step: "nv_inv c (d n k h) \<and> mem (d n k h) = []" "no_null h \<Longrightarrow> no_null (d n k h)"
    if "nv_inv c h \<and> mem h = []" for n k h
    using that default_inv [of c h] default_no_null [of h] by (auto simp: d_def nv_inv_def)
  have look: "nv_lookup c (d n k h) = (nv_lookup c h)(cs n \<mapsto> cs ''0x'' @ hex_digits k 0)"
    if "nv_inv c h \<and> mem h = []" "nv_lookup c h (cs n) = None" "nv_fits h (cs ''0x'' @ hex_digits k 0)" for n k h
    unfolding d_def by (rule default_lookup) (use that in auto)
  have fit: "nv_fits (d n k h) v = nv_fits h v" for n k h v by (simp add: d_def default_fits)
  define h1 h2 h3 where "h1 = d ''sdram_init'' 4 h0" and "h2 = d ''sdram_config'' 4 h1" and "h3 = d ''sdram_refresh'' 4 h2"
  have i: "nv_inv c h1 \<and> mem h1 = []" "nv_inv c h2 \<and> mem h2 = []" "nv_inv c h3 \<and> mem h3 = []"
    using h0(1) by (simp_all add: h1_def h2_def h3_def step(1))
  show "nv_inv c h4 \<and> mem h4 = []" using step(1) [OF i(3)] by (simp add: h4_def h1_def h2_def h3_def)
  show "no_null h4" using step(2) [OF i(3)] step(2) [OF i(2)] step(2) [OF i(1)] step(2) [OF h0(1)] h0(3)
    by (simp add: h4_def h1_def h2_def h3_def)
  have l1: "nv_lookup c h1 = [cs ''sdram_init'' \<mapsto> cs ''0x'' @ hex_digits 4 0]"
    unfolding h1_def using look [OF h0(1), of "''sdram_init''" 4] fun_cong [OF h0(2)] h0(2,4) by simp
  have l2: "nv_lookup c h2 = [cs ''sdram_init'' \<mapsto> cs ''0x'' @ hex_digits 4 0, cs ''sdram_config'' \<mapsto> cs ''0x'' @ hex_digits 4 0]"
    unfolding h2_def using look [OF i(1), of "''sdram_config''" 4] fun_cong [OF l1] l1 h0(4) by (simp add: fit h1_def cs_def)
  have l3: "nv_lookup c h3 = [cs ''sdram_init'' \<mapsto> cs ''0x'' @ hex_digits 4 0, cs ''sdram_config'' \<mapsto> cs ''0x'' @ hex_digits 4 0,
      cs ''sdram_refresh'' \<mapsto> cs ''0x'' @ hex_digits 4 0]"
    unfolding h3_def using look [OF i(2), of "''sdram_refresh''" 4] fun_cong [OF l2] l2 h0(4) by (simp add: fit h1_def h2_def cs_def)
  have "nv_lookup c h4 = (nv_lookup c h3)(cs ''sdram_ncdl'' \<mapsto> cs ''0x'' @ hex_digits 8 0)"
    using look [OF i(3), of "''sdram_ncdl''" 8] fun_cong [OF l3] h0(4) by (simp add: fit h1_def h2_def h3_def h4_def cs_def)
  then show "nv_lookup c h4 = map_of ex_defaults" unfolding l3 by (simp add: ex_defaults_def)
qed

lemma ex_opened:
  obtains h where "nvram_open_staging ex_nv_cpu ex_world = Some (Some h, ex_world\<lparr>part_size := 0x8000, stg_file := Some ex_image\<rparr>)"
    "nv_inv ex_nv_cpu h" "mem h = []" "no_null h" "nv_lookup ex_nv_cpu h = map_of ex_defaults" "nv_offset h = 0" "nv_length h = 0x8000"
proof -
  let ?c = ex_nv_cpu and ?w = "ex_world\<lparr>part_size := 0x8000, stg_file := Some ex_image\<rparr>"
  let ?h = "fresh_handle ex_image 0 ?w"
  let ?nh = "\<lparr>nvh_magic = NVRAM_MAGIC, nvh_len = 24, nvh_crc_ver_init = 0, nvh_config_refresh = 0, nvh_config_ncdl = 0\<rparr>"
  let ?d = "\<lambda>n k. set_default ?c n (cs ''0x'' @ hex_digits k 0)"
  let ?h4 = "?d ''sdram_ncdl'' 8 (?d ''sdram_refresh'' 4 (?d ''sdram_config'' 4 (?d ''sdram_init'' 4 (nvram_free ?h))))"
  have w: "sys ?w = []" "part_size ?w = 0x8000" by (simp_all add: ex_world_def)
  have b: "find_magic (search_bound ?c 0x8000) 0 ex_image = Found 0"
    by (simp add: search_bound_def find_magic.simps ex_image_def nvh_bytes_def)
  have f: "length (nvram_hash ?h) = 257" "mem ?h = []" "nv_offset ?h = 0" "nv_length ?h = 0x8000" "area ?h = ex_image"
    by (simp_all add: fresh_handle_def ex_world_def)
  have "nvh_of ex_image = ?nh" by (simp add: ex_image_def)
  then have nh: "nvram_header_at ?h = ?nh" by (simp add: nvram_header_at_def f)
  have "drop 20 ex_image = 0 # replicate 0x7feb 0xff" by (simp add: ex_image_def)
  then have "rehash_loop ?c (drop (unat (nv_offset ?h) + 20) (area ?h)) (nvram_free ?h) = Some (nvram_free ?h)"
    by (simp add: f rehash_loop.simps)
  then have r: "nvram_rehash ?c ?h = Some ?h4" by (simp add: nvram_rehash_def nh)
  have "nvram_open_staging ?c ex_world = open_mapped ?c False ex_image ?w"
    using open_staging_start [OF ex_start] length_ex_image by simp
  then have o: "nvram_open_staging ?c ex_world = Some (Some ?h4, ?w)"
    using b r by (simp add: open_mapped_eq [OF w(1)] w(2) Let_def nh length_ex_image f)
  have g: "nv_offset (nvram_free ?h) = 0" "nv_length (nvram_free ?h) = 0x8000" using f by (simp_all add: nvram_free_def)
  have i0: "nv_inv ?c (nvram_free ?h) \<and> mem (nvram_free ?h) = []" "nv_lookup ?c (nvram_free ?h) = (\<lambda>_. None)" "no_null (nvram_free ?h)"
    "\<And>k w. k \<le> 8 \<Longrightarrow> nv_fits (nvram_free ?h) (cs ''0x'' @ hex_digits k w)"
    using free_empties [OF f(1)] f(2) g by (simp_all add: nv_fits_def cs_def) (auto simp: nvram_free_def no_null_def)
  show ?thesis
    using that [OF o] defaults_loaded [OF i0] g by (simp add: default_frame)
qed


text \<open>after every \<open>nvram_commit\<close> that returns, the header is valid: it has the magic number, a length that is a multiple of four and
  ends inside the partition, and the checksum that \<open>nvram info\<close> calculates is the one stored in it.\<close>

theorem nvram_commit_checksum:
  assumes "nvram_commit c part h = Some (r, h')" and "length (area h) < 2 ^ 31"
  shows "r = 0 \<and> nvh_magic (nvram_header_at h') = NVRAM_MAGIC \<and> unat (nvh_len (nvram_header_at h')) mod 4 = 0 \<and>
    unat (nv_offset h') + unat (nvh_len (nvram_header_at h')) \<le> length (area h') \<and>
    map_option ucast (do_info h') = Some (nvh_crc_ver_init (nvram_header_at h') AND 0xff)"
proof -
  note s = commit_sealed [OF assms]
  let ?len = "nvh_len (nvram_header_at h')"
  have u: "unat (?len - of_nat NVRAM_CRC_START_POSITION) = unat ?len - 9" using s(7) by (simp add: unat_sub_if')
  have "do_info h' = Some (hndcrc8 (take (unat ?len - 9) (drop (unat (nv_offset h') + 9) (area h'))) 0xff)"
    using s(6,7) unfolding do_info_def Let_def u by simp
  then show ?thesis using s by simp
qed

theorem nvram_commit_checksum_witness:
  "\<exists>h'. nvram_commit ex_nv_cpu 0x8000 ex_nvram = Some (0, h') \<and>
     map_option ucast (do_info h') = Some (nvh_crc_ver_init (nvram_header_at h') AND 0xff)"
proof -
  obtain h' where "nvram_commit ex_nv_cpu 0x8000 ex_nvram = Some (0, h')"
    using commit_stores [OF ex_nvram_sane ex_nvram_storable ex_nvram_four] by blast
  moreover from nvram_commit_checksum [OF this] have "map_option ucast (do_info h') = Some (nvh_crc_ver_init (nvram_header_at h') AND 0xff)"
    by (simp add: ex_nvram_def)
  ultimately show ?thesis by blast
qed

end
