(* ===== verification/Rb_Lz77.thy ===== *)
theory Rb_Lz77
  imports Bmt_Prelude
begin

text \<open>
  The LZ77 decompressor of the Mikrotik platform driver
  (\<open>src/target/linux/generic/files/drivers/platform/mikrotik/rb_lz77.c\<close>), which unpacks the
  Wi-Fi calibration data of a RouterBOARD. The compressed data is a stream of bits, read from
  the least significant bit of each byte: literal bytes, groups of literal bytes, matches
  with an offset and a length, matches that reuse the previous offset, and an end marker.

  The input is the byte list of the caller's buffer, the output is the list of the bytes
  of the caller's memory from \<open>out\<close> on, of which the caller grants the first \<open>out_len\<close>.
  An access outside either list is the outcome \<open>None\<close>. Bit and byte positions are natural
  numbers: they stay below \<open>8 * in_len\<close> plus the length of one instruction and its data.
  Only the product \<open>in_len * BITS_PER_BYTE\<close> is taken at the width of \<open>size_t\<close> on the 32-bit
  boards that use the driver, because the code tests it for overflow.

  The second half gives the format a meaning of its own, as a list of tokens with its
  expansion and its encoding into bits, and shows that the decompressor computes it.
\<close>

section \<open>Decoders of calibration data\<close>

text \<open>What the driver asks of a decoder: a buffer that encodes a list of tokens decodes, into
  any memory that grants enough room, to the expansion of the tokens.\<close>

locale caldata_codec =
  fixes decode :: "byte list \<Rightarrow> byte list \<Rightarrow> nat \<Rightarrow> (int \<times> byte list \<times> nat) option"
    and encode :: "'t list \<Rightarrow> byte list" and expand :: "'t list \<Rightarrow> byte list"
    and ok :: "'t list \<Rightarrow> bool"
  assumes decode_encode:
    "\<lbrakk>ok ts; length (expand ts) \<le> n; n \<le> length out\<rbrakk> \<Longrightarrow>
     decode (encode ts) out n = Some (0, expand ts @ drop (length (expand ts)) out, length (expand ts))"
begin

lemma encode_determines:
  assumes "ok ts" and "ok us" and "encode ts = encode us"
  shows "expand ts = expand us"
proof -
  let ?n = "max (length (expand ts)) (length (expand us))"
  have "decode (encode ts) (replicate ?n 0) ?n = decode (encode us) (replicate ?n 0) ?n"
    by (simp add: assms(3))
  then show ?thesis
    using decode_encode [OF assms(1), of ?n "replicate ?n 0"]
      decode_encode [OF assms(2), of ?n "replicate ?n 0"] by auto
qed

lemma decoded_slice:
  assumes "ok ts" and "length (expand ts) \<le> n" and "n \<le> length out"
    and "decode (encode ts) out n = Some (rc, out', m)"
  shows "rc = 0 \<and> m = length (expand ts) \<and>
         take (min count (m - off)) (drop off out') = take count (drop off (expand ts))"
  using decode_encode [OF assms(1-3)] assms(4)
  by (auto simp: min_def)

end

section \<open>Error codes and constants\<close>

abbreviation EFBIG :: int where "EFBIG \<equiv> 27"
abbreviation ESPIPE :: int where "ESPIPE \<equiv> 29"
abbreviation ENODATA :: int where "ENODATA \<equiv> 61"
abbreviation EOVERFLOW :: int where "EOVERFLOW \<equiv> 75"
abbreviation ENOBUFS :: int where "ENOBUFS \<equiv> 105"

abbreviation BITS_PER_BYTE :: nat where "BITS_PER_BYTE \<equiv> 8"

definition SIZE_MAX :: nat where "SIZE_MAX = 2 ^ 32 - 1"

definition MIKRO_LZ77_MAX_COUNT_BIT_LEN :: nat where "MIKRO_LZ77_MAX_COUNT_BIT_LEN = 27"

text \<open>\<open>in_len * BITS_PER_BYTE\<close> as a \<open>size_t\<close>.\<close>

definition lz77_in_bits :: "byte list \<Rightarrow> nat" where
  "lz77_in_bits inp = length inp * BITS_PER_BYTE mod (SIZE_MAX + 1)"

section \<open>Bits, bytes and counts\<close>

datatype rb_lz77_instruction =
  INSTR_ERROR | INSTR_LITERAL_BYTE | INSTR_PREVIOUS_OFFSET | INSTR_LONG

text \<open>The member \<open>in\<close> of the C structure is the input itself and is not stored again.\<close>

record rb_lz77_instr_opcodes =
  op_instruction :: rb_lz77_instruction
  op_offset :: nat
  op_length :: nat
  op_bits_used :: nat
  op_in_pos :: nat

definition rb_lz77_get_bit :: "byte list \<Rightarrow> nat \<Rightarrow> u8 option" where
  "rb_lz77_get_bit inp k =
     (if k div BITS_PER_BYTE < length inp
      then Some (drop_bit (k mod BITS_PER_BYTE) (inp ! (k div BITS_PER_BYTE)) AND 1)
      else None)"

text \<open>The loop of \<open>rb_lz77_get_byte\<close> over \<open>i\<close>, with \<open>n\<close> rounds to go.\<close>

primrec rb_lz77_get_byte_loop :: "byte list \<Rightarrow> nat \<Rightarrow> nat \<Rightarrow> u8 \<Rightarrow> u8 option" where
  "rb_lz77_get_byte_loop inp k 0 buf = Some buf"
| "rb_lz77_get_byte_loop inp k (Suc n) buf =
     (case rb_lz77_get_bit inp (k + (7 - n)) of
        None \<Rightarrow> None
      | Some b \<Rightarrow> rb_lz77_get_byte_loop inp k n (buf + push_bit n b))"

definition rb_lz77_get_byte :: "byte list \<Rightarrow> nat \<Rightarrow> u8 option" where
  "rb_lz77_get_byte inp k = rb_lz77_get_byte_loop inp k 8 0"

text \<open>The loop of \<open>rb_lz77_decode_count\<close>: an error code, or the count with the bits used.\<close>

function rb_lz77_decode_count_loop ::
  "byte list \<Rightarrow> nat \<Rightarrow> nat \<Rightarrow> nat \<Rightarrow> nat \<Rightarrow> nat \<Rightarrow> bool \<Rightarrow> (int + nat \<times> nat) option" where
  "rb_lz77_decode_count_loop inp max_pos start pos shift count up =
     (if max_pos \<le> pos then Some (Inl (- EFBIG))
      else case rb_lz77_get_bit inp pos of
        None \<Rightarrow> None
      | Some b \<Rightarrow>
          let count = (if b \<noteq> 0 then count + 2 ^ shift else count);
              up = (if b \<noteq> 0 then up else False)
          in if up then rb_lz77_decode_count_loop inp max_pos start (Suc pos) (Suc shift) count up
             else if shift = 0 then Some (Inr (count, pos - start + 1))
             else rb_lz77_decode_count_loop inp max_pos start (Suc pos) (shift - 1) count up)"
  by pat_completeness auto
termination
  by (relation "measure (\<lambda>(inp, max_pos, start, pos, shift, count, up). max_pos - pos)") auto

definition rb_lz77_decode_count ::
  "byte list \<Rightarrow> nat \<Rightarrow> nat \<Rightarrow> nat \<Rightarrow> nat \<Rightarrow> (int + nat \<times> nat) option" where
  "rb_lz77_decode_count inp pos shift count max_bits =
     rb_lz77_decode_count_loop inp (min (pos + max_bits) (lz77_in_bits inp)) pos pos shift count True"

section \<open>Instructions\<close>

text \<open>The instruction with the bits it uses.\<close>

definition rb_lz77_decode_instruction ::
  "byte list \<Rightarrow> nat \<Rightarrow> (rb_lz77_instruction \<times> nat) option" where
  "rb_lz77_decode_instruction inp k =
     do { b \<leftarrow> rb_lz77_get_bit inp k;
          if b \<noteq> 0
          then do { c \<leftarrow> rb_lz77_get_bit inp (k + 1);
                    Some (if c \<noteq> 0 then INSTR_LONG else INSTR_PREVIOUS_OFFSET, 2) }
          else Some (INSTR_LITERAL_BYTE, 1) }"

definition rb_lz77_decode_instruction_operators ::
  "byte list \<Rightarrow> nat \<Rightarrow> nat \<Rightarrow> (int + rb_lz77_instr_opcodes) option" where
  "rb_lz77_decode_instruction_operators inp k previous_offset =
     (let opcode = (\<lambda>instr off len used.
        Some (Inr \<lparr>op_instruction = instr, op_offset = off, op_length = len,
                   op_bits_used = used, op_in_pos = k\<rparr>))
      in case rb_lz77_decode_instruction inp k of
        None \<Rightarrow> None
      | Some (INSTR_LITERAL_BYTE, used) \<Rightarrow> opcode INSTR_LITERAL_BYTE 0 1 used
      | Some (INSTR_PREVIOUS_OFFSET, used) \<Rightarrow>
          (case rb_lz77_decode_count inp (k + used) 0 1 MIKRO_LZ77_MAX_COUNT_BIT_LEN of
             None \<Rightarrow> None
           | Some (Inl e) \<Rightarrow> Some (Inl e)
           | Some (Inr (len, n)) \<Rightarrow> opcode INSTR_PREVIOUS_OFFSET previous_offset len (used + n))
      | Some (INSTR_LONG, used) \<Rightarrow>
          (case rb_lz77_decode_count inp (k + used) 4 0 MIKRO_LZ77_MAX_COUNT_BIT_LEN of
             None \<Rightarrow> None
           | Some (Inl e) \<Rightarrow> Some (Inl e)
           | Some (Inr (off, n)) \<Rightarrow>
               (case (if off = 0
                      then rb_lz77_decode_count inp (k + (used + n)) 4 12
                             MIKRO_LZ77_MAX_COUNT_BIT_LEN
                      else rb_lz77_decode_count inp (k + (used + n)) 0 2
                             MIKRO_LZ77_MAX_COUNT_BIT_LEN) of
                  None \<Rightarrow> None
                | Some (Inl e) \<Rightarrow> Some (Inl e)
                | Some (Inr (len, m)) \<Rightarrow> opcode INSTR_LONG off len (used + n + m)))
      | Some (INSTR_ERROR, used) \<Rightarrow> Some (Inl (- EINVAL)))"

section \<open>The decompression loop\<close>

text \<open>The variables of \<open>rb_lz77_decompress\<close> that live across rounds of its loop;
  \<open>lz_pos\<close> is \<open>output_ptr - out\<close>.\<close>

record lz77_state =
  lz_out :: "byte list"
  lz_pos :: nat
  lz_bit :: nat
  lz_match_offset :: nat

text \<open>The copy of a group of literal bytes.\<close>

primrec lz77_literals :: "byte list \<Rightarrow> nat \<Rightarrow> lz77_state \<Rightarrow> lz77_state option" where
  "lz77_literals inp 0 s = Some s"
| "lz77_literals inp (Suc i) s =
     (case rb_lz77_get_byte inp (lz_bit s) of
        None \<Rightarrow> None
      | Some b \<Rightarrow>
          if lz_pos s < length (lz_out s)
          then lz77_literals inp i (s\<lparr>lz_out := (lz_out s)[lz_pos s := b],
                                      lz_pos := lz_pos s + 1,
                                      lz_bit := lz_bit s + BITS_PER_BYTE\<rparr>)
          else None)"

text \<open>\<open>memcpy\<close> within the output memory.\<close>

definition lz77_memcpy :: "byte list \<Rightarrow> nat \<Rightarrow> nat \<Rightarrow> nat \<Rightarrow> byte list option" where
  "lz77_memcpy out dst src n =
     (if dst + n \<le> length out \<and> src + n \<le> length out
      then Some (memcpy_at out dst (take n (drop src out))) else None)"

text \<open>The loop of partial copies and the copy that ends it: the output and its position.
  The offset is positive there; the guard repeats this for the recursion.\<close>

function lz77_match_copy :: "nat \<Rightarrow> byte list \<Rightarrow> nat \<Rightarrow> nat \<Rightarrow> (byte list \<times> nat) option" where
  "lz77_match_copy off out p match_length =
     (if 0 < off \<and> off < match_length
      then (case lz77_memcpy out p (p - off) off of
              None \<Rightarrow> None
            | Some out' \<Rightarrow> lz77_match_copy off out' (p + off) (match_length - off))
      else (case lz77_memcpy out p (p - off) match_length of
              None \<Rightarrow> None
            | Some out' \<Rightarrow> Some (out', p + match_length)))"
  by pat_completeness auto
termination
  by (relation "measure (\<lambda>(off, out, p, match_length). match_length)") auto

text \<open>One round of \<open>while (true)\<close>: leave with a return code and the value of \<open>*out_len\<close>,
  or go on.\<close>

definition lz77_match_round ::
  "nat \<Rightarrow> rb_lz77_instr_opcodes \<Rightarrow> lz77_state \<Rightarrow> ((int \<times> byte list \<times> nat) + lz77_state) option" where
  "lz77_match_round out_len op s =
     (if op_offset op = 0 then Some (Inl (- EBADMSG, lz_out s, out_len))
      else if out_len < lz_pos s + op_length op then Some (Inl (- ENOBUFS, lz_out s, out_len))
      else if lz_pos s < op_offset op then Some (Inl (- ESPIPE, lz_out s, out_len))
      else case lz77_match_copy (op_offset op) (lz_out s) (lz_pos s) (op_length op) of
             None \<Rightarrow> None
           | Some (out', p) \<Rightarrow> Some (Inr (s\<lparr>lz_out := out', lz_pos := p\<rparr>)))"

definition lz77_round ::
  "byte list \<Rightarrow> nat \<Rightarrow> lz77_state \<Rightarrow> ((int \<times> byte list \<times> nat) + lz77_state) option" where
  "lz77_round inp out_len s =
     (if out_len < lz_pos s then Some (Inl (- EOVERFLOW, lz_out s, out_len))
      else if lz77_in_bits inp < lz_bit s then Some (Inl (- ENODATA, lz_out s, out_len))
      else case rb_lz77_decode_instruction_operators inp (lz_bit s) (lz_match_offset s) of
        None \<Rightarrow> None
      | Some (Inl e) \<Rightarrow> Some (Inl (e, lz_out s, out_len))
      | Some (Inr op) \<Rightarrow>
          (let s = s\<lparr>lz_bit := lz_bit s + op_bits_used op\<rparr> in
           case op_instruction op of
             INSTR_ERROR \<Rightarrow> Some (Inl (- EINVAL, lz_out s, out_len))
           | INSTR_PREVIOUS_OFFSET \<Rightarrow> lz77_match_round out_len op s
           | _ \<Rightarrow>
               if op_offset op = 0 then
                 if op_length op = 12 \<and> length inp < lz_bit s + op_length op * BITS_PER_BYTE
                 then Some (Inl (0, lz_out s, lz_pos s))
                 else map_option Inr (lz77_literals inp (op_length op) s)
               else lz77_match_round out_len op (s\<lparr>lz_match_offset := op_offset op\<rparr>)))"

declare rb_lz77_decode_count_loop.simps [simp del] lz77_match_copy.simps [simp del]

text \<open>Every round that goes on has read at least one bit.\<close>

lemma lz77_literals_bit:
  "lz77_literals inp n s = Some s' \<Longrightarrow> lz_bit s' = lz_bit s + 8 * n"
  by (induction n arbitrary: s) (auto split: option.splits if_splits)

lemma decode_instruction_used:
  "rb_lz77_decode_instruction inp k = Some (i, u) \<Longrightarrow>
   i = INSTR_LITERAL_BYTE \<and> u = 1 \<or> i = INSTR_PREVIOUS_OFFSET \<and> u = 2 \<or> i = INSTR_LONG \<and> u = 2"
  by (auto simp: rb_lz77_decode_instruction_def split: bind_splits if_splits)

text \<open>The outcomes of the operand decoder: an error of a count, or one of three instructions.\<close>

lemma decode_operators_cases:
  assumes "rb_lz77_decode_instruction_operators inp k prev = Some r"
  obtains (error) pos sh c e where "r = Inl e" and "rb_lz77_decode_count inp pos sh c 27 = Some (Inl e)"
  | (lit) "r = Inr \<lparr>op_instruction = INSTR_LITERAL_BYTE, op_offset = 0, op_length = 1,
                     op_bits_used = 1, op_in_pos = k\<rparr>"
  | (prev) len n where "rb_lz77_decode_count inp (k + 2) 0 1 27 = Some (Inr (len, n))"
      and "r = Inr \<lparr>op_instruction = INSTR_PREVIOUS_OFFSET, op_offset = prev, op_length = len,
                     op_bits_used = 2 + n, op_in_pos = k\<rparr>"
  | (long) off n sh c len m where "rb_lz77_decode_count inp (k + 2) 4 0 27 = Some (Inr (off, n))"
      and "rb_lz77_decode_count inp (k + (2 + n)) sh c 27 = Some (Inr (len, m))"
      and "(sh, c) = (if off = 0 then (4, 12) else (0, 2))"
      and "r = Inr \<lparr>op_instruction = INSTR_LONG, op_offset = off, op_length = len,
                     op_bits_used = 2 + n + m, op_in_pos = k\<rparr>"
proof -
  obtain i u where d: "rb_lz77_decode_instruction inp k = Some (i, u)"
    using assms
    by (cases "rb_lz77_decode_instruction inp k")
       (auto simp: rb_lz77_decode_instruction_operators_def)
  note ops = assms [unfolded rb_lz77_decode_instruction_operators_def
      MIKRO_LZ77_MAX_COUNT_BIT_LEN_def d]
  from decode_instruction_used [OF d]
  consider "i = INSTR_LITERAL_BYTE" "u = 1" | "i = INSTR_PREVIOUS_OFFSET" "u = 2"
    | "i = INSTR_LONG" "u = 2" by blast
  then show thesis
  proof cases
    case 1
    then show ?thesis using ops lit by simp
  next
    case 2
    then show ?thesis using ops error prev
      by (cases "rb_lz77_decode_count inp (k + 2) 0 1 27") (auto split: sum.splits)
  next
    case 3
    obtain c1 where c1: "rb_lz77_decode_count inp (k + 2) 4 0 27 = Some c1"
      using ops 3 by (cases "rb_lz77_decode_count inp (k + 2) 4 0 27") auto
    show ?thesis
    proof (cases c1)
      case (Inl e)
      then show ?thesis using ops 3 c1 error by auto
    next
      case (Inr on)
      obtain off n where on: "on = (off, n)" by (cases on)
      obtain sh c :: nat where s: "(sh, c) = (if off = 0 then (4, 12) else (0, 2))"
        by (cases "off = 0") auto
      obtain c2 where c2: "rb_lz77_decode_count inp (k + (2 + n)) sh c 27 = Some c2"
        using ops 3 c1 Inr on s
        by (cases "rb_lz77_decode_count inp (k + (2 + n)) sh c 27") (auto split: if_splits)
      show ?thesis
        using ops 3 c1 Inr on s c2 error [of _ "k + (2 + n)" sh c] long [of off n sh c]
        by (cases c2) (auto split: if_splits)
    qed
  qed
qed

lemma decode_operators_bits_used:
  assumes "rb_lz77_decode_instruction_operators inp k prev = Some (Inr op)"
  shows "0 < op_bits_used op"
  using assms by (cases rule: decode_operators_cases) auto

lemma lz77_match_round_bit:
  "lz77_match_round out_len op s = Some (Inr s') \<Longrightarrow> lz_bit s' = lz_bit s"
  by (auto simp: lz77_match_round_def split: if_splits option.splits)

lemma lz77_round_progress:
  assumes "lz77_round inp out_len s = Some (Inr s')"
  shows "lz_bit s \<le> lz77_in_bits inp \<and> lz_bit s < lz_bit s'"
  using assms
  by (auto simp: lz77_round_def Let_def
           dest!: decode_operators_bits_used lz77_match_round_bit lz77_literals_bit
           split: if_splits option.splits sum.splits rb_lz77_instruction.splits)

function lz77_loop :: "byte list \<Rightarrow> nat \<Rightarrow> lz77_state \<Rightarrow> (int \<times> byte list \<times> nat) option" where
  "lz77_loop inp out_len s =
     (case lz77_round inp out_len s of
        None \<Rightarrow> None
      | Some (Inl r) \<Rightarrow> Some r
      | Some (Inr s') \<Rightarrow> lz77_loop inp out_len s')"
  by pat_completeness auto
termination
  by (relation "measure (\<lambda>(inp, out_len, s). Suc (lz77_in_bits inp) - lz_bit s)")
     (auto dest!: lz77_round_progress)

text \<open>The function: return code, output memory and \<open>*out_len\<close>. Whether \<open>kmalloc\<close> gives
  the memory of the opcode structure is a parameter.\<close>

definition rb_lz77_decompress ::
  "bool \<Rightarrow> byte list \<Rightarrow> byte list \<Rightarrow> nat \<Rightarrow> (int \<times> byte list \<times> nat) option" where
  "rb_lz77_decompress kmalloc_ok inp out out_len =
     (if SIZE_MAX < lz77_in_bits inp then Some (- EFBIG, out, out_len)
      else if \<not> kmalloc_ok then Some (- ENOMEM, out, out_len)
      else lz77_loop inp out_len
             \<lparr>lz_out = out, lz_pos = 0, lz_bit = 0, lz_match_offset = 0\<rparr>)"

section \<open>The format: tokens, their expansion and their encoding\<close>

datatype lz77_token =
    Lit byte
  | Group "byte list"
  | Match nat nat
  | Prev nat

text \<open>A match copies byte by byte, so that it may repeat what it has just written.\<close>

primrec lz77_repeat :: "nat \<Rightarrow> nat \<Rightarrow> byte list \<Rightarrow> byte list" where
  "lz77_repeat off 0 acc = acc"
| "lz77_repeat off (Suc n) acc = lz77_repeat off n (acc @ [acc ! (length acc - off)])"

fun lz77_expand :: "byte list \<Rightarrow> nat \<Rightarrow> lz77_token list \<Rightarrow> byte list" where
  "lz77_expand acc prev [] = acc"
| "lz77_expand acc prev (Lit b # ts) = lz77_expand (acc @ [b]) prev ts"
| "lz77_expand acc prev (Group bs # ts) = lz77_expand (acc @ bs) prev ts"
| "lz77_expand acc prev (Match off len # ts) = lz77_expand (lz77_repeat off len acc) off ts"
| "lz77_expand acc prev (Prev len # ts) = lz77_expand (lz77_repeat prev len acc) prev ts"

text \<open>What the format can express: \<open>n\<close> bytes are out and \<open>prev\<close> is the last offset.\<close>

fun lz77_ok :: "nat \<Rightarrow> nat \<Rightarrow> lz77_token list \<Rightarrow> bool" where
  "lz77_ok n prev [] = True"
| "lz77_ok n prev (Lit b # ts) = lz77_ok (n + 1) prev ts"
| "lz77_ok n prev (Group bs # ts) =
     (12 < length bs \<and> length bs \<le> 12 + 65519 \<and> lz77_ok (n + length bs) prev ts)"
| "lz77_ok n prev (Match off len # ts) =
     (0 < off \<and> off \<le> n \<and> off \<le> 65519 \<and> 2 \<le> len \<and> len \<le> 2 + 16382 \<and>
      lz77_ok (n + len) off ts)"
| "lz77_ok n prev (Prev len # ts) =
     (0 < prev \<and> prev \<le> n \<and> 1 \<le> len \<and> len \<le> 1 + 16382 \<and> lz77_ok (n + len) prev ts)"

text \<open>The \<open>w\<close> low bits of a number, the most significant first, and a count: ones while the
  weight of the first bit is reached, a zero, then the rest in binary.\<close>

primrec msb_bits :: "nat \<Rightarrow> nat \<Rightarrow> bool list" where
  "msb_bits 0 n = []"
| "msb_bits (Suc w) n = (2 ^ w \<le> n) # msb_bits w (if 2 ^ w \<le> n then n - 2 ^ w else n)"

function lz77_count_bits :: "nat \<Rightarrow> nat \<Rightarrow> bool list" where
  "lz77_count_bits shift n =
     (if n < 2 ^ shift then False # msb_bits shift n
      else True # lz77_count_bits (Suc shift) (n - 2 ^ shift))"
  by pat_completeness auto
termination
proof (relation "measure snd")
  fix shift n :: nat
  assume "\<not> n < 2 ^ shift"
  moreover have "(0::nat) < 2 ^ shift" by simp
  ultimately have "n - 2 ^ shift < n" by linarith
  then show "((Suc shift, n - 2 ^ shift), shift, n) \<in> measure snd" by simp
qed simp

definition lz77_byte_bits :: "byte \<Rightarrow> bool list" where
  "lz77_byte_bits b = map (bit b) [7, 6, 5, 4, 3, 2, 1, 0]"

fun lz77_token_bits :: "lz77_token \<Rightarrow> bool list" where
  "lz77_token_bits (Lit b) = False # lz77_byte_bits b"
| "lz77_token_bits (Group bs) =
     [True, True] @ lz77_count_bits 4 0 @ lz77_count_bits 4 (length bs - 12) @
     concat (map lz77_byte_bits bs)"
| "lz77_token_bits (Match off len) =
     [True, True] @ lz77_count_bits 4 off @ lz77_count_bits 0 (len - 2)"
| "lz77_token_bits (Prev len) = [True, False] @ lz77_count_bits 0 (len - 1)"

definition lz77_end_bits :: "bool list" where
  "lz77_end_bits = [True, True] @ lz77_count_bits 4 0 @ lz77_count_bits 4 0"

definition lz77_encode :: "lz77_token list \<Rightarrow> bool list" where
  "lz77_encode ts = concat (map lz77_token_bits ts) @ lz77_end_bits"

text \<open>Bits packed into bytes, the first bit the least significant one.\<close>

definition lz77_byte_of :: "bool list \<Rightarrow> byte" where
  "lz77_byte_of bs = horner_sum of_bool 2 bs"

function lz77_pack :: "bool list \<Rightarrow> byte list" where
  "lz77_pack bs = (if bs = [] then [] else lz77_byte_of (take 8 bs) # lz77_pack (drop 8 bs))"
  by pat_completeness auto
termination
  by (relation "measure length") auto

declare lz77_loop.simps [simp del] lz77_count_bits.simps [simp del] lz77_pack.simps [simp del]

section \<open>Reading the bits of the encoding\<close>

text \<open>The bits \<open>bs\<close> stand at position \<open>k\<close> of the input.\<close>

fun bits_at :: "byte list \<Rightarrow> nat \<Rightarrow> bool list \<Rightarrow> bool" where
  "bits_at inp k [] = True"
| "bits_at inp k (b # bs) = (rb_lz77_get_bit inp k = Some (of_bool b) \<and> bits_at inp (Suc k) bs)"

lemma bits_at_append [simp]:
  "bits_at inp k (as @ bs) \<longleftrightarrow> bits_at inp k as \<and> bits_at inp (k + length as) bs"
  by (induction as arbitrary: k) auto

lemma get_bit_range: "rb_lz77_get_bit inp k = Some b \<Longrightarrow> k < 8 * length inp"
  by (auto simp: rb_lz77_get_bit_def split: if_splits)

lemma bits_at_range: "bits_at inp k bs \<Longrightarrow> bs \<noteq> [] \<Longrightarrow> k + length bs \<le> 8 * length inp"
proof (induction bs arbitrary: k)
  case (Cons b bs)
  show ?case
  proof (cases "bs = []")
    case True
    then show ?thesis using Cons.prems get_bit_range by fastforce
  next
    case False
    then show ?thesis using Cons.IH [of "Suc k"] Cons.prems by simp
  qed
qed simp

lemma length_msb_bits [simp]: "length (msb_bits w n) = w"
  by (induction w arbitrary: n) auto

text \<open>The way down of a count.\<close>

lemma decode_count_down:
  assumes "bits_at inp pos (msb_bits (Suc w) n)" and "n < 2 ^ Suc w" and "start \<le> pos"
    and "pos + Suc w \<le> max_pos"
  shows "rb_lz77_decode_count_loop inp max_pos start pos w count False =
         Some (Inr (count + n, pos + Suc w - start))"
  using assms
proof (induction w arbitrary: pos count n)
  case 0
  then show ?case by (subst rb_lz77_decode_count_loop.simps) auto
next
  case (Suc w)
  let ?n = "if 2 ^ Suc w \<le> n then n - 2 ^ Suc w else n"
  have "?n < 2 ^ Suc w" using Suc.prems(2) by auto
  moreover have "bits_at inp (Suc pos) (msb_bits (Suc w) ?n)"
    using Suc.prems(1) by (subst (asm) msb_bits.simps) simp
  ultimately have IH: "\<And>c. rb_lz77_decode_count_loop inp max_pos start (Suc pos) w c False =
      Some (Inr (c + ?n, Suc pos + Suc w - start))"
    using Suc.IH [of "Suc pos" ?n] Suc.prems(3,4) by auto
  show ?case
    using Suc.prems(1,3,4) IH
    by (subst rb_lz77_decode_count_loop.simps) (auto simp: Let_def)
qed

lemma decode_count_loop_bits:
  assumes "bits_at inp pos (lz77_count_bits shift n)" and "start \<le> pos"
    and "pos + length (lz77_count_bits shift n) \<le> max_pos"
  shows "rb_lz77_decode_count_loop inp max_pos start pos shift count True =
         Some (Inr (count + n, pos + length (lz77_count_bits shift n) - start))"
  using assms
proof (induction shift n arbitrary: pos count rule: lz77_count_bits.induct)
  case (1 shift n)
  show ?case
  proof (cases "n < 2 ^ shift")
    case True
    then have bits: "lz77_count_bits shift n = False # msb_bits shift n"
      by (simp add: lz77_count_bits.simps)
    show ?thesis
    proof (cases shift)
      case 0
      then show ?thesis using 1 bits True
        by (subst rb_lz77_decode_count_loop.simps) auto
    next
      case (Suc w)
      have "rb_lz77_decode_count_loop inp max_pos start (Suc pos) w count False =
            Some (Inr (count + n, Suc pos + Suc w - start))"
        using 1(2-) bits Suc True by (intro decode_count_down) auto
      then show ?thesis using 1(2-) bits Suc
        by (subst rb_lz77_decode_count_loop.simps) auto
    qed
  next
    case False
    then have bits: "lz77_count_bits shift n = True # lz77_count_bits (Suc shift) (n - 2 ^ shift)"
      by (subst lz77_count_bits.simps) simp
    show ?thesis
      using "1.IH" [OF False, of "Suc pos" "count + 2 ^ shift"] "1.prems" bits False
      by (subst rb_lz77_decode_count_loop.simps) (auto simp: Let_def)
  qed
qed

lemma length_count_bits:
  "n + 2 ^ shift < 2 ^ (shift + k + 1) \<Longrightarrow> length (lz77_count_bits shift n) \<le> 2 * k + shift + 1"
proof (induction k arbitrary: shift n)
  case 0
  then show ?case by (subst lz77_count_bits.simps) auto
next
  case (Suc k)
  show ?case
  proof (cases "n < 2 ^ shift")
    case True
    then show ?thesis by (subst lz77_count_bits.simps) simp
  next
    case False
    have "n - 2 ^ shift + 2 ^ Suc shift < 2 ^ (Suc shift + k + 1)"
      using False Suc.prems by (auto simp: power_add)
    from Suc.IH [OF this] False show ?thesis by (subst lz77_count_bits.simps) simp
  qed
qed

lemma in_bits_small: "8 * length inp < 2 ^ 32 \<Longrightarrow> lz77_in_bits inp = 8 * length inp"
  by (simp add: lz77_in_bits_def SIZE_MAX_def)

lemma count_bits_nonempty [simp]: "lz77_count_bits shift n \<noteq> []"
  by (subst lz77_count_bits.simps) simp

lemma decode_count_bits:
  assumes "bits_at inp k (lz77_count_bits shift n)" and "8 * length inp < 2 ^ 32"
    and "length (lz77_count_bits shift n) \<le> max_bits"
  shows "rb_lz77_decode_count inp k shift count max_bits =
         Some (Inr (count + n, length (lz77_count_bits shift n)))"
proof -
  have "k + length (lz77_count_bits shift n) \<le> 8 * length inp"
    by (rule bits_at_range [OF assms(1)]) simp
  then show ?thesis
    using decode_count_loop_bits [OF assms(1), of k] assms(2,3)
    by (simp add: rb_lz77_decode_count_def in_bits_small)
qed

lemma length_count_bits_shift4: "n \<le> 65519 \<Longrightarrow> length (lz77_count_bits 4 n) \<le> 27"
  using length_count_bits [of n 4 11] by simp

lemma length_count_bits_shift0: "n \<le> 16382 \<Longrightarrow> length (lz77_count_bits 0 n) \<le> 27"
  using length_count_bits [of n 0 13] by simp

section \<open>One round per token\<close>

text \<open>The state after the bytes \<open>acc\<close> are out, with \<open>rest\<close> the memory behind them.\<close>

definition lz77_at :: "byte list \<Rightarrow> byte list \<Rightarrow> nat \<Rightarrow> nat \<Rightarrow> lz77_state" where
  "lz77_at acc rest k prev =
     \<lparr>lz_out = acc @ rest, lz_pos = length acc, lz_bit = k, lz_match_offset = prev\<rparr>"

lemma lz77_at_simps [simp]:
  "lz_out (lz77_at acc rest k prev) = acc @ rest"
  "lz_pos (lz77_at acc rest k prev) = length acc"
  "lz_bit (lz77_at acc rest k prev) = k"
  "lz_match_offset (lz77_at acc rest k prev) = prev"
  "lz77_at acc rest k prev\<lparr>lz_bit := j\<rparr> = lz77_at acc rest j prev"
  "lz77_at acc rest k prev\<lparr>lz_match_offset := q\<rparr> = lz77_at acc rest k q"
  by (simp_all add: lz77_at_def)

lemma byte_of_its_bits:
  "(b::byte) = (\<Sum>n\<leftarrow>[7, 6, 5, 4, 3, 2, 1, 0]. push_bit n (of_bool (bit b n)))"
proof -
  have "b = take_bit 8 b" by (rule bit_word_eqI) (simp add: bit_simps)
  also have "\<dots> = horner_sum of_bool 2 (map (bit b) [0..<8])"
    by (rule horner_sum_bit_eq_take_bit [symmetric])
  also have "\<dots> = (\<Sum>n\<leftarrow>[7, 6, 5, 4, 3, 2, 1, 0]. push_bit n (of_bool (bit b n)))"
    by (simp add: upt_rec numeral_eq_Suc push_bit_eq_mult algebra_simps)
  finally show ?thesis .
qed

lemma get_byte_bits:
  assumes "bits_at inp k (lz77_byte_bits b)"
  shows "rb_lz77_get_byte inp k = Some b"
proof -
  have "rb_lz77_get_byte inp k =
        Some (\<Sum>n\<leftarrow>[7, 6, 5, 4, 3, 2, 1, 0]. push_bit n (of_bool (bit b n)))"
    using assms
    by (simp add: rb_lz77_get_byte_def lz77_byte_bits_def eval_nat_numeral add.assoc)
  then show ?thesis using byte_of_its_bits [of b] by simp
qed

lemma length_byte_bits [simp]: "length (lz77_byte_bits b) = 8"
  by (simp add: lz77_byte_bits_def)

lemma length_group_bits [simp]: "length (concat (map lz77_byte_bits bs)) = 8 * length bs"
  by (induction bs) auto

lemma lz77_at_step:
  "lz77_at acc (r # rest) k prev
     \<lparr>lz_out := acc @ b # rest, lz_pos := Suc (length acc), lz_bit := j\<rparr> =
   lz77_at (acc @ [b]) rest j prev"
  by (simp add: lz77_at_def)

lemma literals_bits:
  assumes "bits_at inp k (concat (map lz77_byte_bits bs))" and "length bs \<le> length rest"
  shows "lz77_literals inp (length bs) (lz77_at acc rest k prev) =
         Some (lz77_at (acc @ bs) (drop (length bs) rest) (k + 8 * length bs) prev)"
  using assms
proof (induction bs arbitrary: k acc rest)
  case Nil
  then show ?case by simp
next
  case (Cons b bs)
  then obtain r rest' where rest: "rest = r # rest'" by (cases rest) auto
  have "rb_lz77_get_byte inp k = Some b"
    using Cons.prems(1) by (simp add: get_byte_bits)
  then show ?case
    using Cons.IH [of "k + 8" rest' "acc @ [b]"] Cons.prems rest
    by (simp add: add.assoc lz77_at_step)
qed

text \<open>The partial copies compute the byte-wise copy.\<close>

lemma repeat_add: "lz77_repeat off (m + n) acc = lz77_repeat off n (lz77_repeat off m acc)"
  by (induction m arbitrary: acc) auto

lemma length_repeat [simp]: "length (lz77_repeat off n acc) = length acc + n"
  by (induction n arbitrary: acc) auto

lemma repeat_short:
  assumes "n \<le> off" and "off \<le> length acc"
  shows "lz77_repeat off n acc = acc @ take n (drop (length acc - off) acc)"
  using assms
proof (induction n)
  case (Suc n)
  have "lz77_repeat off (Suc n) acc = lz77_repeat off 1 (lz77_repeat off n acc)"
    using repeat_add [of off n 1 acc] by simp
  then show ?case
    using Suc by (simp add: nth_append take_Suc_conv_app_nth)
qed simp

lemma memcpy_repeat:
  assumes "n \<le> off" and "off \<le> length acc" and "n \<le> length rest"
  shows "lz77_memcpy (acc @ rest) (length acc) (length acc - off) n =
         Some (lz77_repeat off n acc @ drop n rest)"
  using assms by (simp add: lz77_memcpy_def memcpy_at_def repeat_short)

lemma match_copy_repeat:
  assumes "0 < off" and "off \<le> length acc" and "n \<le> length rest"
  shows "lz77_match_copy off (acc @ rest) (length acc) n =
         Some (lz77_repeat off n acc @ drop n rest, length acc + n)"
  using assms
proof (induction n arbitrary: acc rest rule: less_induct)
  case (less n)
  show ?case
  proof (cases "off < n")
    case True
    let ?acc = "lz77_repeat off off acc"
    have "lz77_match_copy off (?acc @ drop off rest) (length ?acc) (n - off) =
          Some (lz77_repeat off (n - off) ?acc @ drop (n - off) (drop off rest),
                length ?acc + (n - off))"
      using less.prems True by (intro less.IH) auto
    moreover have "lz77_repeat off (n - off) ?acc = lz77_repeat off n acc"
      using repeat_add [of off off "n - off" acc] True by simp
    ultimately show ?thesis
      using less.prems True memcpy_repeat [of off off acc rest]
      by (subst lz77_match_copy.simps) simp
  next
    case False
    then show ?thesis
      using less.prems memcpy_repeat [of n off acc rest]
      by (subst lz77_match_copy.simps) simp
  qed
qed

text \<open>What the decoder makes of the head of a token.\<close>

lemma decode_lit:
  "bits_at inp k [False] \<Longrightarrow> rb_lz77_decode_instruction_operators inp k prev =
     Some (Inr \<lparr>op_instruction = INSTR_LITERAL_BYTE, op_offset = 0, op_length = 1,
                op_bits_used = 1, op_in_pos = k\<rparr>)"
  by (simp add: rb_lz77_decode_instruction_operators_def rb_lz77_decode_instruction_def)

lemma decode_prev:
  assumes "bits_at inp k ([True, False] @ lz77_count_bits 0 n)" and "n \<le> 16382"
    and "8 * length inp < 2 ^ 32"
  shows "rb_lz77_decode_instruction_operators inp k prev =
     Some (Inr \<lparr>op_instruction = INSTR_PREVIOUS_OFFSET, op_offset = prev, op_length = 1 + n,
                op_bits_used = 2 + length (lz77_count_bits 0 n), op_in_pos = k\<rparr>)"
proof -
  have "rb_lz77_decode_count inp (k + 2) 0 1 27 =
        Some (Inr (1 + n, length (lz77_count_bits 0 n)))"
    using assms by (intro decode_count_bits length_count_bits_shift0) auto
  then show ?thesis using assms(1)
    by (simp add: rb_lz77_decode_instruction_operators_def rb_lz77_decode_instruction_def
        MIKRO_LZ77_MAX_COUNT_BIT_LEN_def)
qed

lemma decode_long:
  assumes "bits_at inp k ([True, True] @ lz77_count_bits 4 off @ lz77_count_bits s n)"
    and "off \<le> 65519" and "s = (if off = 0 then 4 else 0)"
    and "n \<le> (if off = 0 then 65519 else 16382)" and "8 * length inp < 2 ^ 32"
  shows "rb_lz77_decode_instruction_operators inp k prev =
     Some (Inr \<lparr>op_instruction = INSTR_LONG, op_offset = off,
                op_length = (if off = 0 then 12 else 2) + n,
                op_bits_used = 2 + length (lz77_count_bits 4 off) + length (lz77_count_bits s n),
                op_in_pos = k\<rparr>)"
proof -
  have c1: "rb_lz77_decode_count inp (k + 2) 4 0 27 =
            Some (Inr (0 + off, length (lz77_count_bits 4 off)))"
    using assms by (intro decode_count_bits length_count_bits_shift4) auto
  have "length (lz77_count_bits s n) \<le> 27"
    using assms(3,4) length_count_bits_shift4 length_count_bits_shift0 by (auto split: if_splits)
  moreover have "bits_at inp (k + (2 + length (lz77_count_bits 4 off))) (lz77_count_bits s n)"
    using assms(1) by (simp add: add.assoc)
  ultimately have c2: "\<And>c. rb_lz77_decode_count inp (k + (2 + length (lz77_count_bits 4 off))) s c 27 =
            Some (Inr (c + n, length (lz77_count_bits s n)))"
    using assms(5) by (intro decode_count_bits) auto
  show ?thesis using assms(1,3) c1 c2
    by (auto simp: rb_lz77_decode_instruction_operators_def rb_lz77_decode_instruction_def
        MIKRO_LZ77_MAX_COUNT_BIT_LEN_def)
qed

text \<open>The rounds themselves, for \<open>out_len\<close> bytes granted of the memory.\<close>

lemma round_enter:
  assumes "length acc \<le> out_len" and "k \<le> 8 * length inp" and "8 * length inp < 2 ^ 32"
    and "rb_lz77_decode_instruction_operators inp k prev = Some (Inr op)"
    and "op_instruction op \<in> {INSTR_LITERAL_BYTE, INSTR_LONG}" and "op_offset op = 0"
  shows "lz77_round inp out_len (lz77_at acc rest k prev) =
     (if op_length op = 12 \<and> length inp < k + op_bits_used op + 96
      then Some (Inl (0, acc @ rest, length acc))
      else map_option Inr (lz77_literals inp (op_length op)
             (lz77_at acc rest (k + op_bits_used op) prev)))"
  using assms by (auto simp: lz77_round_def in_bits_small Let_def)

lemma bits_at_start: "bits_at inp k bs \<Longrightarrow> bs \<noteq> [] \<Longrightarrow> k \<le> 8 * length inp"
  using bits_at_range by fastforce

lemma round_lit:
  assumes "bits_at inp k (lz77_token_bits (Lit b))" and "8 * length inp < 2 ^ 32"
    and "length acc \<le> out_len" and "rest \<noteq> []"
  shows "lz77_round inp out_len (lz77_at acc rest k prev) =
         Some (Inr (lz77_at (acc @ [b]) (drop 1 rest) (k + 9) prev))"
proof -
  have "lz77_literals inp (length [b]) (lz77_at acc rest (k + 1) prev) =
        Some (lz77_at (acc @ [b]) (drop (length [b]) rest) (k + 1 + 8 * length [b]) prev)"
    using assms(1,4) by (intro literals_bits) (auto simp: Suc_le_eq)
  then show ?thesis
    using assms bits_at_start [OF assms(1)]
    by (subst round_enter [OF _ _ _ decode_lit]) auto
qed

lemma round_group:
  assumes "bits_at inp k (lz77_token_bits (Group bs))" and "8 * length inp < 2 ^ 32"
    and "length acc \<le> out_len" and "12 < length bs" and "length bs \<le> 12 + 65519"
    and "length bs \<le> length rest"
  shows "lz77_round inp out_len (lz77_at acc rest k prev) =
         Some (Inr (lz77_at (acc @ bs) (drop (length bs) rest)
                      (k + length (lz77_token_bits (Group bs))) prev))"
proof -
  let ?u = "2 + length (lz77_count_bits 4 0) + length (lz77_count_bits 4 (length bs - 12))"
  have start: "k \<le> 8 * length inp"
    using bits_at_start [OF assms(1)] by simp
  have "bits_at inp k ([True, True] @ lz77_count_bits 4 0 @ lz77_count_bits 4 (length bs - 12))"
    using assms(1) by (simp add: add.assoc)
  from decode_long [OF this] assms
  have dec: "rb_lz77_decode_instruction_operators inp k prev =
     Some (Inr \<lparr>op_instruction = INSTR_LONG, op_offset = 0, op_length = length bs,
                op_bits_used = ?u, op_in_pos = k\<rparr>)" by simp
  have "bits_at inp (k + ?u) (concat (map lz77_byte_bits bs))"
    using assms(1) by (simp add: add.assoc)
  from literals_bits [OF this assms(6)]
  have lits: "lz77_literals inp (length bs) (lz77_at acc rest (k + ?u) prev) =
     Some (lz77_at (acc @ bs) (drop (length bs) rest)
             (k + length (lz77_token_bits (Group bs))) prev)" by (simp add: add.assoc)
  show ?thesis
    using assms(4) lits by (subst round_enter [OF assms(3) start assms(2) dec]) auto
qed

lemma round_match:
  assumes "rb_lz77_decode_instruction_operators inp k prev = Some (Inr op)"
    and "op_instruction op = INSTR_PREVIOUS_OFFSET \<and> op_offset op = prev \<or>
         op_instruction op = INSTR_LONG"
    and "0 < op_offset op" and "op_offset op \<le> length acc"
    and "length acc + op_length op \<le> out_len" and "op_length op \<le> length rest"
    and "k \<le> 8 * length inp" and "8 * length inp < 2 ^ 32"
  shows "lz77_round inp out_len (lz77_at acc rest k prev) =
         Some (Inr (lz77_at (lz77_repeat (op_offset op) (op_length op) acc)
                      (drop (op_length op) rest) (k + op_bits_used op) (op_offset op)))"
proof -
  have "lz77_match_round out_len op (lz77_at acc rest (k + op_bits_used op) (op_offset op)) =
        Some (Inr (lz77_at (lz77_repeat (op_offset op) (op_length op) acc)
                      (drop (op_length op) rest) (k + op_bits_used op) (op_offset op)))"
    using assms(3-6) match_copy_repeat [of "op_offset op" acc "op_length op" rest]
    by (simp add: lz77_match_round_def lz77_at_def)
  then show ?thesis
    using assms by (auto simp: lz77_round_def in_bits_small)
qed

lemma round_match_token:
  assumes "bits_at inp k (lz77_token_bits (Match off len))" and "8 * length inp < 2 ^ 32"
    and "0 < off" "off \<le> length acc" "off \<le> 65519" "2 \<le> len" "len \<le> 2 + 16382"
    and "length acc + len \<le> out_len" and "len \<le> length rest"
  shows "lz77_round inp out_len (lz77_at acc rest k prev) =
         Some (Inr (lz77_at (lz77_repeat off len acc) (drop len rest)
                      (k + length (lz77_token_bits (Match off len))) off))"
proof -
  have "k \<le> 8 * length inp" using bits_at_start [OF assms(1)] by simp
  moreover from assms have "rb_lz77_decode_instruction_operators inp k prev =
     Some (Inr \<lparr>op_instruction = INSTR_LONG, op_offset = off, op_length = len,
                op_bits_used = length (lz77_token_bits (Match off len)), op_in_pos = k\<rparr>)"
    using decode_long [of inp k off 0 "len - 2" prev] by simp
  ultimately show ?thesis
    using assms round_match [where acc = acc and out_len = out_len and rest = rest
        and k = k and inp = inp and prev = prev] by fastforce
qed

lemma round_prev_token:
  assumes "bits_at inp k (lz77_token_bits (Prev len))" and "8 * length inp < 2 ^ 32"
    and "0 < prev" "prev \<le> length acc" "1 \<le> len" "len \<le> 1 + 16382"
    and "length acc + len \<le> out_len" and "len \<le> length rest"
  shows "lz77_round inp out_len (lz77_at acc rest k prev) =
         Some (Inr (lz77_at (lz77_repeat prev len acc) (drop len rest)
                      (k + length (lz77_token_bits (Prev len))) prev))"
proof -
  have "k \<le> 8 * length inp" using bits_at_start [OF assms(1)] by simp
  moreover from assms have "rb_lz77_decode_instruction_operators inp k prev =
     Some (Inr \<lparr>op_instruction = INSTR_PREVIOUS_OFFSET, op_offset = prev, op_length = len,
                op_bits_used = length (lz77_token_bits (Prev len)), op_in_pos = k\<rparr>)"
    using decode_prev [of inp k "len - 1" prev] by simp
  ultimately show ?thesis
    using assms round_match [where acc = acc and out_len = out_len and rest = rest
        and k = k and inp = inp and prev = prev] by fastforce
qed

lemma loop_round:
  "lz77_round inp out_len s = Some (Inr s') \<Longrightarrow> lz77_loop inp out_len s = lz77_loop inp out_len s'"
  by (subst lz77_loop.simps) simp

lemma loop_end:
  assumes "bits_at inp k lz77_end_bits" and "8 * length inp < 2 ^ 32"
    and "length acc \<le> out_len" and "length inp < k + length lz77_end_bits + 96"
  shows "lz77_loop inp out_len (lz77_at acc rest k prev) = Some (0, acc @ rest, length acc)"
proof -
  have "k \<le> 8 * length inp"
    using bits_at_start [OF assms(1)] by (simp add: lz77_end_bits_def)
  moreover have "rb_lz77_decode_instruction_operators inp k prev =
     Some (Inr \<lparr>op_instruction = INSTR_LONG, op_offset = 0, op_length = 12,
                op_bits_used = length lz77_end_bits, op_in_pos = k\<rparr>)"
    using decode_long [of inp k 0 4 0 prev] assms(1,2) by (simp add: lz77_end_bits_def)
  ultimately show ?thesis
    using assms(4) round_enter [OF assms(3) _ assms(2)]
    by (subst lz77_loop.simps) simp
qed

lemma expand_length: "length acc \<le> length (lz77_expand acc prev ts)"
  by (induction acc prev ts rule: lz77_expand.induct) auto

lemma encode_Cons: "lz77_encode (t # ts) = lz77_token_bits t @ lz77_encode ts"
  by (simp add: lz77_encode_def)

lemma loop_token:
  assumes "lz77_round inp out_len (lz77_at acc rest k prev) =
           Some (Inr (lz77_at acc' (drop (length acc' - length acc) rest)
                        (k + length (lz77_token_bits t)) prev'))"
    and "bits_at inp k (lz77_encode (t # ts))"
    and "length inp < k + length (lz77_encode (t # ts)) + 96"
    and "out_len \<le> length acc + length rest"
    and "length acc \<le> length acc'" and "length acc' \<le> out_len" and "length acc' \<le> length e"
    and "\<lbrakk>bits_at inp (k + length (lz77_token_bits t)) (lz77_encode ts);
          length inp < k + length (lz77_token_bits t) + length (lz77_encode ts) + 96;
          out_len \<le> length acc' + length (drop (length acc' - length acc) rest)\<rbrakk> \<Longrightarrow>
         lz77_loop inp out_len (lz77_at acc' (drop (length acc' - length acc) rest)
                        (k + length (lz77_token_bits t)) prev') =
         Some (0, e @ drop (length e - length acc') (drop (length acc' - length acc) rest), length e)"
  shows "lz77_loop inp out_len (lz77_at acc rest k prev) =
         Some (0, e @ drop (length e - length acc) rest, length e)"
proof -
  have "length e - length acc' + (length acc' - length acc) = length e - length acc"
    using assms(5,7) by simp
  then show ?thesis
    using loop_round [OF assms(1)] assms(2-) by (simp add: encode_Cons add.assoc)
qed

text \<open>The loop follows the tokens.\<close>

lemma loop_tokens:
  assumes "bits_at inp k (lz77_encode ts)"
    and "length inp < k + length (lz77_encode ts) + 96"
    and "out_len \<le> length acc + length rest"
    and "8 * length inp < 2 ^ 32"
    and "lz77_ok (length acc) prev ts"
    and "length (lz77_expand acc prev ts) \<le> out_len"
  shows "lz77_loop inp out_len (lz77_at acc rest k prev) =
         Some (0, lz77_expand acc prev ts @
                  drop (length (lz77_expand acc prev ts) - length acc) rest,
               length (lz77_expand acc prev ts))"
  using assms
proof (induction acc prev ts arbitrary: k rest rule: lz77_expand.induct)
  case (1 acc prev)
  then show ?case using loop_end [of inp k acc out_len rest prev] by (simp add: lz77_encode_def)
next
  case (2 acc prev b ts)
  let ?acc = "acc @ [b]"
  have len: "length ?acc \<le> out_len" and "rest \<noteq> []"
    using "2.prems"(3,6) expand_length [of ?acc prev ts] by auto
  then have round: "lz77_round inp out_len (lz77_at acc rest k prev) =
      Some (Inr (lz77_at ?acc (drop (length ?acc - length acc) rest)
                   (k + length (lz77_token_bits (Lit b))) prev))"
    using "2.prems" round_lit [of inp k b acc out_len rest prev] by (auto simp: encode_Cons)
  show ?case unfolding lz77_expand.simps
    by (rule loop_token [OF round "2.prems"(1,2,3) _ len expand_length
          "2.IH" [OF _ _ _ "2.prems"(4)]]) (use "2.prems"(5,6) in simp_all)
next
  case (3 acc prev bs ts)
  let ?acc = "acc @ bs"
  have len: "length ?acc \<le> out_len" "length bs \<le> length rest"
    using "3.prems"(3,6) expand_length [of ?acc prev ts] by auto
  then have round: "lz77_round inp out_len (lz77_at acc rest k prev) =
      Some (Inr (lz77_at ?acc (drop (length ?acc - length acc) rest)
                   (k + length (lz77_token_bits (Group bs))) prev))"
    using "3.prems" round_group [of inp k bs acc out_len rest prev]
    by (auto simp: encode_Cons simp del: lz77_token_bits.simps)
  show ?case unfolding lz77_expand.simps
    by (rule loop_token [OF round "3.prems"(1,2,3) _ len(1) expand_length
          "3.IH" [OF _ _ _ "3.prems"(4)]]) (use "3.prems"(5,6) in simp_all)
next
  case (4 acc prev off n ts)
  let ?acc = "lz77_repeat off n acc"
  have len: "length ?acc \<le> out_len" "n \<le> length rest"
    using "4.prems"(3,6) expand_length [of ?acc off ts] by auto
  then have round: "lz77_round inp out_len (lz77_at acc rest k prev) =
      Some (Inr (lz77_at ?acc (drop (length ?acc - length acc) rest)
                   (k + length (lz77_token_bits (Match off n))) off))"
    using "4.prems" round_match_token [of inp k off n acc out_len rest prev]
    by (auto simp: encode_Cons simp del: lz77_token_bits.simps)
  show ?case unfolding lz77_expand.simps
    by (rule loop_token [OF round "4.prems"(1,2,3) _ len(1) expand_length
          "4.IH" [OF _ _ _ "4.prems"(4)]]) (use "4.prems"(5,6) in simp_all)
next
  case (5 acc prev n ts)
  let ?acc = "lz77_repeat prev n acc"
  have len: "length ?acc \<le> out_len" "n \<le> length rest"
    using "5.prems"(3,6) expand_length [of ?acc prev ts] by auto
  then have round: "lz77_round inp out_len (lz77_at acc rest k prev) =
      Some (Inr (lz77_at ?acc (drop (length ?acc - length acc) rest)
                   (k + length (lz77_token_bits (Prev n))) prev))"
    using "5.prems" round_prev_token [of inp k n prev acc out_len rest]
    by (auto simp: encode_Cons simp del: lz77_token_bits.simps)
  show ?case unfolding lz77_expand.simps
    by (rule loop_token [OF round "5.prems"(1,2,3) _ len(1) expand_length
          "5.IH" [OF _ _ _ "5.prems"(4)]]) (use "5.prems"(5,6) in simp_all)
qed

section \<open>Packed bits\<close>

lemma length_pack: "length (lz77_pack bs) = (length bs + 7) div 8"
proof (induction bs rule: lz77_pack.induct)
  case (1 bs)
  show ?case
  proof (cases "bs = []")
    case True
    then show ?thesis by (simp add: lz77_pack.simps)
  next
    case False
    have "(length bs - 8 + 7) div 8 + 1 = (length bs + 7) div 8"
      using False by (cases "8 \<le> length bs") (auto simp: div_if not_le Suc_le_eq)
    then show ?thesis using 1 [OF False] False by (subst lz77_pack.simps) simp
  qed
qed

lemma pack_nth: "j < length (lz77_pack bs) \<Longrightarrow> lz77_pack bs ! j = lz77_byte_of (take 8 (drop (8 * j) bs))"
proof (induction bs arbitrary: j rule: lz77_pack.induct)
  case (1 bs)
  then have ne: "bs \<noteq> []" by (auto simp: lz77_pack.simps)
  then have eq: "lz77_pack bs = lz77_byte_of (take 8 bs) # lz77_pack (drop 8 bs)"
    by (subst lz77_pack.simps) simp
  show ?case
  proof (cases j)
    case (Suc i)
    then show ?thesis using 1 ne eq by (simp add: add.commute)
  qed (simp add: eq)
qed

lemma get_bit_nth:
  "k < 8 * length inp \<Longrightarrow> rb_lz77_get_bit inp k = Some (of_bool (bit (inp ! (k div 8)) (k mod 8)))"
  by (auto simp: rb_lz77_get_bit_def and_one_eq mod_2_eq_odd bit_iff_odd_drop_bit)

lemma bits_atI:
  "(\<And>i. i < length bs \<Longrightarrow> rb_lz77_get_bit inp (k + i) = Some (of_bool (bs ! i))) \<Longrightarrow> bits_at inp k bs"
proof (induction bs arbitrary: k)
  case (Cons b bs)
  then show ?case using Cons.prems [of 0] Cons.IH [of "Suc k"] Cons.prems [of "Suc i" for i] by simp
qed simp

lemma bits_at_pack: "bits_at (lz77_pack bs @ junk) 0 bs"
proof (rule bits_atI)
  fix i assume i: "i < length bs"
  then have j: "i div 8 < length (lz77_pack bs)" by (simp add: length_pack)
  have m: "i mod 8 < 8" "i mod 8 < length bs - 8 * (i div 8)" "8 * (i div 8) + i mod 8 = i"
    using i by (simp_all add: less_diff_conv)
  have "bit (lz77_pack bs ! (i div 8)) (i mod 8) = bs ! i"
    using m by (simp add: pack_nth [OF j] lz77_byte_of_def bit_horner_sum_bit_word_iff)
  then show "rb_lz77_get_bit (lz77_pack bs @ junk) (0 + i) = Some (of_bool (bs ! i))"
    using j by (subst get_bit_nth) (auto simp: nth_append)
qed

lemma pack_short: "bs \<noteq> [] \<Longrightarrow> length (lz77_pack bs) \<le> length bs"
  by (cases "length bs") (auto simp: length_pack)

lemma encode_nonempty [simp]: "lz77_encode ts \<noteq> []"
  by (simp add: lz77_encode_def lz77_end_bits_def)

text \<open>The decompressor on any input that begins with the bits of a token list and its end
  marker.\<close>

lemma decompress_tokens:
  assumes "bits_at inp 0 (lz77_encode ts)" and "length inp < length (lz77_encode ts) + 96"
    and "8 * length inp < 2 ^ 32" and "lz77_ok 0 0 ts"
    and "length (lz77_expand [] 0 ts) \<le> out_len" and "out_len \<le> length out"
  shows "rb_lz77_decompress True inp out out_len =
         Some (0, lz77_expand [] 0 ts @ drop (length (lz77_expand [] 0 ts)) out,
               length (lz77_expand [] 0 ts))"
  using loop_tokens [of inp 0 ts out_len "[]" out 0] assms
  by (simp add: rb_lz77_decompress_def in_bits_small SIZE_MAX_def lz77_at_def)

text \<open>The promise of a decoder of calibration data, kept by the LZ77 decompressor.\<close>

interpretation lz77_codec: caldata_codec
  "rb_lz77_decompress True" "\<lambda>ts. lz77_pack (lz77_encode ts)" "lz77_expand [] 0"
  "\<lambda>ts. lz77_ok 0 0 ts \<and> 8 * length (lz77_pack (lz77_encode ts)) < 2 ^ 32"
proof
  fix ts n and out :: "byte list"
  assume "lz77_ok 0 0 ts \<and> 8 * length (lz77_pack (lz77_encode ts)) < 2 ^ 32"
    "length (lz77_expand [] 0 ts) \<le> n" "n \<le> length out"
  then show "rb_lz77_decompress True (lz77_pack (lz77_encode ts)) out n =
      Some (0, lz77_expand [] 0 ts @ drop (length (lz77_expand [] 0 ts)) out,
            length (lz77_expand [] 0 ts))"
    using bits_at_pack [of "lz77_encode ts" "[]"] pack_short [OF encode_nonempty, of ts]
    by (intro decompress_tokens) auto
qed

section \<open>Properties\<close>

text \<open>C9: The decompressor computes the format. For every list of tokens the format can
  express, the input that packs their bits, with up to 95 bytes behind it, decompresses with
  return code 0 to the byte-wise expansion of the tokens; \<open>*out_len\<close> is its length, and the
  memory behind it is untouched.\<close>

theorem lz77_decompress_encode:
  assumes "lz77_ok 0 0 ts" and "length (lz77_expand [] 0 ts) \<le> out_len"
    and "out_len \<le> length out" and "length junk < 96"
    and "8 * length (lz77_pack (lz77_encode ts) @ junk) < 2 ^ 32"
  shows "rb_lz77_decompress True (lz77_pack (lz77_encode ts) @ junk) out out_len =
         Some (0, lz77_expand [] 0 ts @ drop (length (lz77_expand [] 0 ts)) out,
               length (lz77_expand [] 0 ts))"
  using assms pack_short [OF encode_nonempty, of ts]
  by (intro decompress_tokens bits_at_pack) auto

theorem lz77_decompress_encode_witness:
  "rb_lz77_decompress True
     (lz77_pack (lz77_encode
        [Lit 7, Lit 9, Match 2 5, Group [1, 2, 3, 4, 5, 6, 7, 8, 9, 10, 11, 12, 13], Prev 3]) @ [255])
     (replicate 24 0) 23 =
   Some (0, [7, 9, 7, 9, 7, 9, 7, 1, 2, 3, 4, 5, 6, 7, 8, 9, 10, 11, 12, 13, 12, 13, 12, 0], 23)"
proof -
  let ?ts = "[Lit 7, Lit 9, Match 2 5, Group [1, 2, 3, 4, 5, 6, 7, 8, 9, 10, 11, 12, 13], Prev 3]"
  have e: "lz77_expand [] 0 ?ts =
      [7, 9, 7, 9, 7, 9, 7, 1, 2, 3, 4, 5, 6, 7, 8, 9, 10, 11, 12, 13, 12, 13, 12]"
    by (simp add: eval_nat_numeral)
  have ok: "lz77_ok 0 0 ?ts" by simp
  have n: "length (lz77_encode ?ts) < 200" by code_simp
  show ?thesis
    using lz77_decompress_encode [OF ok, of 23 "replicate 24 0" "[255]"] n
    by (simp add: length_pack e del: lz77_expand.simps)
qed

text \<open>C26: A group of exactly twelve literal bytes is taken for the end marker unless it lies
  in the first eighth of the input: whatever follows the tokens \<open>ts\<close> is dropped, and the
  return code is 0.\<close>

theorem lz77_group_of_twelve_ends:
  assumes "lz77_ok 0 0 ts" and "length (lz77_expand [] 0 ts) \<le> out_len"
    and "out_len \<le> length out" and "length bs = 12"
    and "length (lz77_pack (lz77_encode (ts @ Group bs # us))) < length (lz77_encode ts) + 96"
    and "8 * length (lz77_pack (lz77_encode (ts @ Group bs # us))) < 2 ^ 32"
  shows "rb_lz77_decompress True (lz77_pack (lz77_encode (ts @ Group bs # us))) out out_len =
         Some (0, lz77_expand [] 0 ts @ drop (length (lz77_expand [] 0 ts)) out,
               length (lz77_expand [] 0 ts))"
proof (rule decompress_tokens)
  have "lz77_encode (ts @ Group bs # us) =
        lz77_encode ts @ concat (map lz77_byte_bits bs) @ lz77_encode us"
    using assms(4) by (simp add: lz77_encode_def lz77_end_bits_def)
  then show "bits_at (lz77_pack (lz77_encode (ts @ Group bs # us))) 0 (lz77_encode ts)"
    using bits_at_pack [of "lz77_encode (ts @ Group bs # us)" "[]"] by simp
qed (use assms in simp_all)

theorem lz77_group_of_twelve_ends_witness:
  "rb_lz77_decompress True
     (lz77_pack (lz77_encode ([Lit 7] @ Group [1, 2, 3, 4, 5, 6, 7, 8, 9, 10, 11, 12] # [Lit 8])))
     (replicate 14 0) 14 = Some (0, 7 # replicate 13 0, 1)"
proof -
  let ?bs = "[1, 2, 3, 4, 5, 6, 7, 8, 9, 10, 11, 12] :: byte list"
  have n: "length (lz77_encode ([Lit 7] @ Group ?bs # [Lit 8])) < 200" by code_simp
  have e: "lz77_ok 0 0 [Lit 7]" "lz77_expand [] 0 [Lit 7] = [7]" by simp_all
  show ?thesis
    using lz77_group_of_twelve_ends [OF e(1), of 14 "replicate 14 0" ?bs "[Lit 8]"] n
    by (simp add: length_pack e(2) del: lz77_expand.simps append.simps)
qed

text \<open>C19: The loop of partial copies is the byte-wise copy. For an offset that lies in the
  output and a match that fits the memory, copying blocks of \<open>offset\<close> bytes and then the
  remainder leaves the same bytes as copying them one at a time from \<open>offset\<close> back, where the
  match may read what it has just written; nothing behind the match changes.\<close>

theorem lz77_partial_copies:
  assumes "0 < off" and "off \<le> p" and "p + n \<le> length out"
  shows "lz77_match_copy off out p n =
         Some (lz77_repeat off n (take p out) @ drop (p + n) out, p + n)"
  using match_copy_repeat [of off "take p out" n "drop p out"] assms
  by (simp add: min_absorb2 add.commute)

theorem lz77_partial_copies_witness:
  "lz77_match_copy 2 [1, 2, 3, 0, 0, 0, 0, 0, 9] 3 5 = Some ([1, 2, 3, 2, 3, 2, 3, 2, 9], 8)"
  using lz77_partial_copies [of 2 3 5 "[1, 2, 3, 0, 0, 0, 0, 0, 9]"]
  by (simp add: eval_nat_numeral)

section \<open>Bounds on the operands\<close>

lemma decode_count_down_bound:
  "rb_lz77_decode_count_loop inp max_pos start pos w count False = Some (Inr (c, u)) \<Longrightarrow>
   start \<le> pos \<Longrightarrow>
   count \<le> c \<and> c < count + 2 ^ Suc w \<and> u = pos + w + 1 - start \<and> start + u \<le> max_pos"
proof (induction w arbitrary: pos count)
  case 0
  then show ?case
    by (subst (asm) rb_lz77_decode_count_loop.simps) (auto split: if_splits option.splits)
next
  case (Suc w)
  from Suc.prems(1) consider
      "rb_lz77_decode_count_loop inp max_pos start (Suc pos) w (count + 2 ^ Suc w) False =
       Some (Inr (c, u))"
    | "rb_lz77_decode_count_loop inp max_pos start (Suc pos) w count False = Some (Inr (c, u))"
    by (subst (asm) rb_lz77_decode_count_loop.simps)
       (auto simp: Let_def split: if_splits option.splits)
  then show ?case
    using Suc.prems(2) Suc.IH [of "Suc pos" "count + 2 ^ Suc w"] Suc.IH [of "Suc pos" count]
    by cases auto
qed

lemma decode_count_up_bound:
  "rb_lz77_decode_count_loop inp max_pos start pos sh count True = Some (Inr (c, u)) \<Longrightarrow>
   start \<le> pos \<Longrightarrow>
   \<exists>k. u = pos - start + 2 * k + sh + 1 \<and> start + u \<le> max_pos \<and> count \<le> c \<and>
       c + 2 ^ sh < count + 2 ^ (sh + k + 1)"
proof (induction "max_pos - pos" arbitrary: pos sh count rule: less_induct)
  case less
  from less.prems(1) obtain b where b: "rb_lz77_get_bit inp pos = Some b" and lt: "pos < max_pos"
    by (subst (asm) rb_lz77_decode_count_loop.simps) (auto split: if_splits option.splits)
  show ?case
  proof (cases "b = 0")
    case False
    have "rb_lz77_decode_count_loop inp max_pos start (Suc pos) (Suc sh) (count + 2 ^ sh) True =
          Some (Inr (c, u))"
      using less.prems(1) b lt False by (subst (asm) rb_lz77_decode_count_loop.simps) simp
    from less.hyps [OF _ this] lt less.prems(2) obtain k where
      "u = Suc pos - start + 2 * k + Suc sh + 1" "start + u \<le> max_pos" "count + 2 ^ sh \<le> c"
      "c + 2 ^ Suc sh < count + 2 ^ sh + 2 ^ (Suc sh + k + 1)"
      by (meson diff_less_mono2 le_SucI lessI)
    then show ?thesis using less.prems(2) by (intro exI [of _ "Suc k"]) (simp add: Suc_diff_le)
  next
    case True
    have "u = pos - start + sh + 1 \<and> start + u \<le> max_pos \<and> count \<le> c \<and> c < count + 2 ^ sh"
    proof (cases sh)
      case 0
      then show ?thesis using less.prems b lt True
        by (subst (asm) rb_lz77_decode_count_loop.simps) auto
    next
      case (Suc w)
      have "rb_lz77_decode_count_loop inp max_pos start (Suc pos) w count False = Some (Inr (c, u))"
        using less.prems(1) b lt True Suc by (subst (asm) rb_lz77_decode_count_loop.simps) simp
      from decode_count_down_bound [OF this] less.prems(2) Suc show ?thesis by auto
    qed
    then show ?thesis by (intro exI [of _ 0]) simp
  qed
qed

lemma decode_count_bound:
  assumes "rb_lz77_decode_count inp pos sh count 27 = Some (Inr (c, u))"
  shows "0 < u \<and> u \<le> 27 \<and> count \<le> c \<and> c + 2 ^ sh < count + 2 ^ (sh + (26 - sh) div 2 + 1)"
proof -
  from decode_count_up_bound [OF assms [unfolded rb_lz77_decode_count_def]]
  obtain k where k: "u = 2 * k + sh + 1" "u \<le> 27" "count \<le> c" "c + 2 ^ sh < count + 2 ^ (sh + k + 1)" by auto
  then have "k \<le> (26 - sh) div 2" by simp
  then have "(2::nat) ^ (sh + k + 1) \<le> 2 ^ (sh + (26 - sh) div 2 + 1)"
    by (intro power_increasing) auto
  then show ?thesis using k by linarith
qed

text \<open>The operands of every decoded instruction keep within the types that hold them: the
  bits used fit the \<open>u8\<close> counters, a new offset is at most 65519, and a length is positive and
  at most 65531, so neither \<open>int\<close> goes negative without an error.\<close>

theorem lz77_operand_bounds:
  assumes "rb_lz77_decode_instruction_operators inp k prev = Some (Inr op)"
  shows "op_bits_used op \<le> 56 \<and> (op_offset op = prev \<or> op_offset op \<le> 65519) \<and>
         0 < op_length op \<and> op_length op \<le> 65531"
  using assms
  by (cases rule: decode_operators_cases)
     (auto dest!: decode_count_bound split: if_splits)

theorem lz77_operand_bounds_witness:
  "0 < op_length \<lparr>op_instruction = INSTR_LITERAL_BYTE, op_offset = 0, op_length = 1,
                   op_bits_used = 1, op_in_pos = 0\<rparr>"
  using lz77_operand_bounds [of "[0]" 0 0] decode_lit [of "[0]" 0 0]
  by (simp add: rb_lz77_get_bit_def)

section \<open>Return codes\<close>

lemma decode_count_loop_error:
  "rb_lz77_decode_count_loop inp max_pos start pos sh count up = Some (Inl e) \<Longrightarrow> e = - EFBIG"
proof (induction inp max_pos start pos sh count up rule: rb_lz77_decode_count_loop.induct)
  case (1 inp max_pos start pos sh count up)
  then show ?case
    by (subst (asm) (3) rb_lz77_decode_count_loop.simps)
       (auto simp: Let_def split: if_splits option.splits)
qed

lemma decode_operators_error:
  assumes "rb_lz77_decode_instruction_operators inp k prev = Some (Inl e)"
  shows "e = - EFBIG"
  using assms
  by (cases rule: decode_operators_cases)
     (auto simp: rb_lz77_decode_count_def dest!: decode_count_loop_error)

lemma decode_operators_no_error:
  assumes "rb_lz77_decode_instruction_operators inp k prev = Some (Inr op)"
  shows "op_instruction op \<noteq> INSTR_ERROR"
  using assms by (cases rule: decode_operators_cases) auto

lemma length_match_copy:
  "lz77_match_copy off out p n = Some (out', q) \<Longrightarrow> length out' = length out"
proof (induction off out p n rule: lz77_match_copy.induct)
  case (1 off out p n)
  have m: "lz77_memcpy out p (p - off) m = Some o1 \<Longrightarrow> length o1 = length out" for m o1
    by (auto simp: lz77_memcpy_def split: if_splits)
  show ?case
  proof (cases "0 < off \<and> off < n")
    case True
    with "1.prems" obtain o1 where "lz77_memcpy out p (p - off) off = Some o1"
      "lz77_match_copy off o1 (p + off) (n - off) = Some (out', q)"
      by (subst (asm) lz77_match_copy.simps) (auto split: option.splits)
    with "1.IH" [OF True] m show ?thesis by metis
  next
    case False
    with "1.prems" m show ?thesis
      by (subst (asm) lz77_match_copy.simps) (auto split: option.splits)
  qed
qed

lemma length_literals:
  "lz77_literals inp n s = Some s' \<Longrightarrow> length (lz_out s') = length (lz_out s)"
  by (induction n arbitrary: s) (auto split: option.splits if_splits)

lemma match_round_outcome:
  "lz77_match_round out_len op s = Some r \<Longrightarrow>
   (case r of Inr s' \<Rightarrow> length (lz_out s') = length (lz_out s)
    | Inl (rc, out, n) \<Rightarrow> out = lz_out s \<and> n = out_len \<and> rc \<in> {- EBADMSG, - ENOBUFS, - ESPIPE})"
  by (auto simp: lz77_match_round_def dest: length_match_copy split: if_splits option.splits)

lemma round_goes_on:
  "lz77_round inp out_len s = Some (Inr s') \<Longrightarrow> length (lz_out s') = length (lz_out s)"
  by (auto simp: lz77_round_def Let_def dest!: match_round_outcome length_literals
      split: if_splits option.splits sum.splits rb_lz77_instruction.splits)

lemma round_leaves:
  "lz77_round inp out_len s = Some (Inl (rc, out, n)) \<Longrightarrow>
   out = lz_out s \<and>
   (rc = 0 \<and> n \<le> out_len \<or>
    n = out_len \<and> rc \<in> {- EOVERFLOW, - ENODATA, - EFBIG, - EBADMSG, - ENOBUFS, - ESPIPE})"
proof -
  assume r: "lz77_round inp out_len s = Some (Inl (rc, out, n))"
  show ?thesis
  proof (cases "out_len < lz_pos s \<or> lz77_in_bits inp < lz_bit s")
    case True
    then show ?thesis using r by (auto simp: lz77_round_def split: if_splits)
  next
    case False
    then show ?thesis using r
      by (auto simp: lz77_round_def Let_def dest!: decode_operators_error match_round_outcome
          dest: decode_operators_no_error
          split: if_splits option.splits sum.splits rb_lz77_instruction.splits)
  qed
qed

lemma loop_outcome:
  "lz77_loop inp out_len s = Some (rc, out, n) \<Longrightarrow>
   length out = length (lz_out s) \<and>
   (rc = 0 \<and> n \<le> out_len \<or>
    n = out_len \<and> rc \<in> {- EOVERFLOW, - ENODATA, - EFBIG, - EBADMSG, - ENOBUFS, - ESPIPE})"
proof (induction inp out_len s rule: lz77_loop.induct)
  case (1 inp out_len s)
  from "1.prems" consider "lz77_round inp out_len s = Some (Inl (rc, out, n))"
    | s' where "lz77_round inp out_len s = Some (Inr s')" "lz77_loop inp out_len s' = Some (rc, out, n)"
    by (subst (asm) lz77_loop.simps) (auto split: option.splits sum.splits)
  then show ?case
  proof cases
    case 1
    from round_leaves [OF this] show ?thesis by blast
  next
    case (2 s')
    from "1.IH" [OF 2(1) refl 2(2)] round_goes_on [OF 2(1)] show ?thesis by simp
  qed
qed

text \<open>C24: Every return of the decompressor, whatever the input: on success the reported
  length is at most the length granted, on an error \<open>*out_len\<close> is as it was and the code is
  one of those of the error exits; \<open>-EINVAL\<close> never occurs, the exits that return it are dead.\<close>

theorem lz77_return_codes:
  assumes "rb_lz77_decompress kmalloc_ok inp out out_len = Some (rc, out', n)"
  shows "length out' = length out \<and>
    (rc = 0 \<and> n \<le> out_len \<or>
     n = out_len \<and> rc \<in> {- ENOMEM, - EOVERFLOW, - ENODATA, - EFBIG, - EBADMSG, - ENOBUFS, - ESPIPE})"
  using assms loop_outcome [of inp out_len
      "\<lparr>lz_out = out, lz_pos = 0, lz_bit = 0, lz_match_offset = 0\<rparr>" rc out' n]
  by (auto simp: rb_lz77_decompress_def split: if_splits)

theorem lz77_return_codes_witness:
  "\<exists>n. rb_lz77_decompress True (lz77_pack (lz77_encode [Lit 7])) [0, 5] 2 = Some (0, [7, 5], n) \<and>
       n \<le> 2"
proof -
  have "length (lz77_encode [Lit 7]) < 50" by code_simp
  then have "rb_lz77_decompress True (lz77_pack (lz77_encode [Lit 7])) [0, 5] 2 = Some (0, [7, 5], 1)"
    using decompress_tokens [OF bits_at_pack [of "lz77_encode [Lit 7]" "[]", simplified], of 2 "[0, 5]"]
      pack_short [OF encode_nonempty, of "[Lit 7]"] by (simp add: length_pack)
  from this lz77_return_codes [OF this] show ?thesis by auto
qed

section \<open>Literal bytes and the end of the output\<close>

lemma loop_literals_overrun:
  assumes "bits_at inp k (concat (map (lz77_token_bits \<circ> Lit) bs))" and "8 * length inp < 2 ^ 32"
    and "length rest < length bs"
  shows "lz77_loop inp (length acc + length rest) (lz77_at acc rest k prev) = None"
  using assms
proof (induction bs arbitrary: k acc rest)
  case (Cons b bs)
  have bits: "bits_at inp k (lz77_token_bits (Lit b))"
    and more: "bits_at inp (k + 9) (concat (map (lz77_token_bits \<circ> Lit) bs))"
    using Cons.prems(1) by (auto simp: add.commute o_def)
  show ?case
  proof (cases rest)
    case Nil
    have "rb_lz77_get_byte inp (k + 1) = Some b"
      using bits by (simp add: get_byte_bits)
    moreover have "k \<le> 8 * length inp" using bits_at_start [OF bits] by simp
    ultimately have "lz77_round inp (length acc) (lz77_at acc [] k prev) = None"
      using bits Cons.prems(2)
      by (subst round_enter [OF _ _ _ decode_lit]) auto
    then show ?thesis using Nil by (subst lz77_loop.simps) simp
  next
    case (Cons r rest')
    with Cons.IH [OF more Cons.prems(2), of rest' "acc @ [b]"] Cons.prems(3)
      loop_round [OF round_lit [OF bits Cons.prems(2), of acc "length acc + length rest" rest prev]]
    show ?thesis by simp
  qed
qed simp

text \<open>C25: Literal bytes are written without a check of the space left: an input that holds
  more literal bytes than the output buffer makes the decompressor write past its end. The
  test for an overrun at the top of the loop compares with \<open>>\<close> and comes after the write.\<close>

theorem lz77_literals_overrun:
  assumes "length out < length bs" and "8 * length (lz77_pack (lz77_encode (map Lit bs))) < 2 ^ 32"
  shows "rb_lz77_decompress True (lz77_pack (lz77_encode (map Lit bs))) out (length out) = None"
proof -
  let ?inp = "lz77_pack (lz77_encode (map Lit bs))"
  have "bits_at ?inp 0 (concat (map (lz77_token_bits \<circ> Lit) bs))"
    using bits_at_pack [of "lz77_encode (map Lit bs)" "[]"] by (simp add: lz77_encode_def)
  from loop_literals_overrun [OF this assms(2,1), of "[]" 0] assms(2) show ?thesis
    by (simp add: rb_lz77_decompress_def in_bits_small SIZE_MAX_def lz77_at_def)
qed

theorem lz77_literals_overrun_witness:
  "rb_lz77_decompress True (lz77_pack (lz77_encode (map Lit [7, 8]))) [0] 1 = None"
proof -
  have "length (lz77_encode (map Lit [7, 8])) < 50" by code_simp
  then show ?thesis
    using lz77_literals_overrun [of "[0]" "[7, 8]"] by (simp add: length_pack)
qed

end
