(* ===== verification/Rb_Routerboot.thy ===== *)
theory Rb_Routerboot
  imports Rb_Lz77
begin

text \<open>
  The common routines of the MikroTik RouterBoot driver
  (\<open>src/target/linux/generic/files/drivers/platform/mikrotik/routerboot.c\<close>): the search for
  a tag node in configuration data, and the run-length decoder for calibration data.

  A buffer is the list of the bytes of memory from its pointer on, \<open>None\<close> for a null pointer,
  beside the length that the caller passes; an access outside the list is the outcome
  \<open>None\<close>. Nodes are in the byte order of the processor, the parameter \<open>be\<close> (true for big
  endian), since the driver is built for both.
\<close>

abbreviation ENOENT :: int where "ENOENT \<equiv> 2"

section \<open>Words in processor order\<close>

definition cpu_u32_bytes :: "bool \<Rightarrow> u32 \<Rightarrow> byte list" where
  "cpu_u32_bytes be w = (if be then rev (le32_bytes w) else le32_bytes w)"

definition cpu_u32 :: "bool \<Rightarrow> byte list \<Rightarrow> nat \<Rightarrow> u32 option" where
  "cpu_u32 be buf ofs =
     (if ofs + 4 \<le> length buf
      then Some (le32_of ((if be then rev else id) (take 4 (drop ofs buf))))
      else None)"

section \<open>Tags\<close>

text \<open>\<open>ALIGN(len, 4)\<close>, stored back into the \<open>u16\<close>.\<close>

definition align4 :: "u16 \<Rightarrow> u16" where
  "align4 len = (len + 3) AND NOT 3"

text \<open>The loop of \<open>routerboot_tag_find\<close>, \<open>datum\<close> at byte \<open>ofs\<close>: an error, or the offset and the
  length of the payload.\<close>

function routerboot_tag_find_loop ::
  "bool \<Rightarrow> byte list \<Rightarrow> nat \<Rightarrow> u16 \<Rightarrow> nat \<Rightarrow> (int + u16 \<times> u16) option" where
  "routerboot_tag_find_loop be buf buflen tag_id ofs =
     (if ofs < buflen then
        case cpu_u32 be buf ofs of
          None \<Rightarrow> None
        | Some node \<Rightarrow>
            if node = 0 then Some (Inl (- ENOENT))
            else if tag_id = ucast (node AND 0xFFFF)
            then if buflen \<le> ofs + 4 then Some (Inl (- ENOENT))
                 else Some (Inr (of_nat (ofs + 4), ucast (drop_bit 16 node)))
            else routerboot_tag_find_loop be buf buflen tag_id
                   (ofs + 4 + unat (align4 (ucast (drop_bit 16 node))))
      else Some (Inl (- ENOENT)))"
  by pat_completeness auto
termination
  by (relation "measure (\<lambda>(be, buf, buflen, tag_id, ofs). buflen - ofs)") auto

declare routerboot_tag_find_loop.simps [simp del]

definition routerboot_tag_find ::
  "bool \<Rightarrow> byte list option \<Rightarrow> nat \<Rightarrow> u16 \<Rightarrow> (int + u16 \<times> u16) option" where
  "routerboot_tag_find be bufhead buflen tag_id =
     (case bufhead of
        None \<Rightarrow> Some (Inl (- EINVAL))
      | Some buf \<Rightarrow>
          if tag_id = 0 then Some (Inl (- EINVAL))
          else routerboot_tag_find_loop be buf buflen tag_id 0)"

section \<open>Run-length decoding\<close>

text \<open>The loop of \<open>routerboot_rle_decode\<close>: \<open>inp\<close> is the memory at \<open>in\<close>, \<open>inlen\<close> the length still
  to decode, \<open>nbytes\<close> the position of \<open>out\<close>.\<close>

function routerboot_rle_loop ::
  "byte list \<Rightarrow> nat \<Rightarrow> byte list \<Rightarrow> nat \<Rightarrow> nat \<Rightarrow> (int \<times> byte list \<times> nat) option" where
  "routerboot_rle_loop inp inlen out nbytes outlen =
     (if inlen < 2 then Some (0, out, nbytes)
      else case inp of
        [] \<Rightarrow> None
      | r # inp \<Rightarrow>
          (let inlen = inlen - 1 in
           if r AND 0x80 \<noteq> 0 then
             let run = unat (NOT r AND 0xFF) + 1 in
             if inlen < run then Some (- ENOSPC, out, nbytes)
             else if outlen < nbytes + run then Some (- ENOSPC, out, nbytes + run)
             else if run \<le> length inp \<and> nbytes + run \<le> length out
             then routerboot_rle_loop (drop run inp) (inlen - run)
                    (memcpy_at out nbytes (take run inp)) (nbytes + run) outlen
             else None
           else case inp of
             [] \<Rightarrow> None
           | byte # inp \<Rightarrow>
               (let run = unat r in
                if outlen < nbytes + run then Some (- ENOSPC, out, nbytes + run)
                else if nbytes + run \<le> length out
                then routerboot_rle_loop inp (inlen - 1)
                       (memcpy_at out nbytes (replicate run byte)) (nbytes + run) outlen
                else None)))"
  by pat_completeness auto
termination
  by (relation "measure (\<lambda>(inp, inlen, out, nbytes, outlen). inlen)") auto

declare routerboot_rle_loop.simps [simp del]

text \<open>Return code, output memory and \<open>*outlen\<close>.\<close>

definition routerboot_rle_decode ::
  "byte list option \<Rightarrow> nat \<Rightarrow> byte list option \<Rightarrow> nat \<Rightarrow> (int \<times> byte list option \<times> nat) option" where
  "routerboot_rle_decode inp inlen out outlen =
     (case (inp, out) of
        (Some i, Some q) \<Rightarrow>
          if inlen < 2 then Some (- EINVAL, out, outlen)
          else map_option (\<lambda>(ret, q', n). (ret, Some q', n)) (routerboot_rle_loop i inlen q 0 outlen)
      | _ \<Rightarrow> Some (- EINVAL, out, outlen))"

section \<open>Showing payloads\<close>

text \<open>\<open>%08x\<close> of a word, and bytes as characters.\<close>

definition hex_digit :: "'a::len word \<Rightarrow> char" where
  "hex_digit d = (if d < 10 then char_of (48 + unat d) else char_of (87 + unat d))"

definition hex8 :: "u32 \<Rightarrow> string" where
  "hex8 w = map (\<lambda>i. hex_digit (drop_bit (4 * i) w AND 0xF)) [7, 6, 5, 4, 3, 2, 1, 0]"

definition chars_of :: "byte list \<Rightarrow> string" where
  "chars_of bs = map (\<lambda>b. char_of (unat b)) bs"

text \<open>\<open>scnprintf\<close> with \<open>%s\<close> reads up to the first null byte and keeps at most \<open>pld_len\<close>
  characters.\<close>

definition routerboot_tag_show_string :: "byte list \<Rightarrow> u16 \<Rightarrow> string option" where
  "routerboot_tag_show_string pld pld_len =
     (if 0 \<in> set pld
      then Some (take (unat pld_len) (chars_of (takeWhile (\<lambda>b. b \<noteq> 0) pld) @ [CHR 0x0A]))
      else None)"

text \<open>The \<open>do\<close> loop, with \<open>n\<close> words to print.\<close>

primrec routerboot_show_words :: "bool \<Rightarrow> byte list \<Rightarrow> nat \<Rightarrow> nat \<Rightarrow> string option" where
  "routerboot_show_words be pld 0 ofs = Some []"
| "routerboot_show_words be pld (Suc n) ofs =
     (case cpu_u32 be pld ofs of
        None \<Rightarrow> None
      | Some w \<Rightarrow> map_option ((@) (''0x'' @ hex8 w @ [CHR 0x0A])) (routerboot_show_words be pld n (ofs + 4)))"

text \<open>The caller ensures a positive length.\<close>

definition routerboot_tag_show_u32s :: "bool \<Rightarrow> byte list \<Rightarrow> u16 \<Rightarrow> (int + string) option" where
  "routerboot_tag_show_u32s be pld pld_len =
     (if unat pld_len mod 4 \<noteq> 0 then Some (Inl (- EINVAL))
      else map_option Inr (routerboot_show_words be pld (unat pld_len div 4) 0))"

section \<open>The format of run-length data\<close>

datatype rle_token = Run nat byte | Verbatim "byte list"

fun rle_ok :: "rle_token \<Rightarrow> bool" where
  "rle_ok (Run n b) = (n < 128)"
| "rle_ok (Verbatim bs) = (bs \<noteq> [] \<and> length bs \<le> 128)"

fun rle_token_bytes :: "rle_token \<Rightarrow> byte list" where
  "rle_token_bytes (Run n b) = [of_nat n, b]"
| "rle_token_bytes (Verbatim bs) = - of_nat (length bs) # bs"

fun rle_token_expand :: "rle_token \<Rightarrow> byte list" where
  "rle_token_expand (Run n b) = replicate n b"
| "rle_token_expand (Verbatim bs) = bs"

definition rle_encode :: "rle_token list \<Rightarrow> byte list" where
  "rle_encode ts = concat (map rle_token_bytes ts)"

definition rle_expand :: "rle_token list \<Rightarrow> byte list" where
  "rle_expand ts = concat (map rle_token_expand ts)"

lemma sign_bit: "(r :: byte) AND 0x80 = 0 \<longleftrightarrow> unat r < 128"
proof -
  have "(0x80 :: byte) = push_bit 7 1" by simp
  then have "r AND 0x80 = 0 \<longleftrightarrow> \<not> bit r 7"
    by (metis and_exp_eq_0_iff_not_bit push_bit_of_1)
  also have "bit r 7 \<longleftrightarrow> odd (unat r div 128)"
    using bit_unsigned_iff [where ?'a = nat, of r 7] by (simp add: bit_iff_odd)
  also have "\<not> odd (unat r div 128) \<longleftrightarrow> unat r < 128"
    using unat_bound [of r] by (cases "unat r < 128") (auto simp: div_if)
  finally show ?thesis .
qed

lemma run_bit: "n < 128 \<Longrightarrow> (of_nat n :: byte) AND 0x80 = 0"
  by (simp add: sign_bit unat_of_nat take_bit_nat_eq_self)

lemma verbatim_header:
  assumes "0 < n" and "n \<le> 128"
  shows "(- of_nat n :: byte) AND 0x80 \<noteq> 0" and "unat (NOT (- of_nat n :: byte) AND 0xFF) + 1 = n"
proof -
  have "(- of_nat n :: byte) = of_nat (256 - n)"
    using assms by (simp add: of_nat_diff)
  then have "unat (- of_nat n :: byte) = 256 - n"
    using assms by (simp only: unat_of_nat) (simp add: take_bit_nat_eq_self)
  then show "(- of_nat n :: byte) AND 0x80 \<noteq> 0" using assms by (simp add: sign_bit)
  have "(0xFF :: byte) = - 1" by simp
  then have "NOT (- of_nat n :: byte) AND 0xFF = of_nat (n - 1)"
    using assms by (simp only: and.right_neutral) (simp add: not_eq_complement of_nat_diff)
  then show "unat (NOT (- of_nat n :: byte) AND 0xFF) + 1 = n"
    using assms by (simp only: unat_of_nat) (simp add: take_bit_nat_eq_self)
qed

lemma memcpy_at_behind:
  "length bs \<le> length rest \<Longrightarrow> memcpy_at (acc @ rest) (length acc) bs = acc @ bs @ drop (length bs) rest"
  by (simp add: memcpy_at_def)

lemma rle_loop_tokens:
  assumes "list_all rle_ok ts" and "length acc + length (rle_expand ts) \<le> outlen"
    and "outlen \<le> length acc + length rest" and "n < 2"
  shows "routerboot_rle_loop (rle_encode ts @ tail) (length (rle_encode ts) + n) (acc @ rest)
           (length acc) outlen =
         Some (0, acc @ rle_expand ts @ drop (length (rle_expand ts)) rest,
               length acc + length (rle_expand ts))"
  using assms
proof (induction ts arbitrary: acc rest)
  case Nil
  then show ?case by (simp add: rle_encode_def rle_expand_def routerboot_rle_loop.simps)
next
  case (Cons t ts)
  let ?e = "rle_token_expand t"
  have len: "length ?e \<le> length rest" "length acc + length ?e \<le> outlen"
    using Cons.prems(2,3) by (auto simp: rle_expand_def)
  have IH: "routerboot_rle_loop (rle_encode ts @ tail) (length (rle_encode ts) + n)
         ((acc @ ?e) @ drop (length ?e) rest) (length (acc @ ?e)) outlen =
       Some (0, (acc @ ?e) @ rle_expand ts @ drop (length (rle_expand ts)) (drop (length ?e) rest),
             length (acc @ ?e) + length (rle_expand ts))"
    using Cons.prems len by (intro Cons.IH) (auto simp: rle_expand_def)
  have step: "routerboot_rle_loop (rle_encode (t # ts) @ tail) (length (rle_encode (t # ts)) + n)
      (acc @ rest) (length acc) outlen =
    routerboot_rle_loop (rle_encode ts @ tail) (length (rle_encode ts) + n)
      (acc @ ?e @ drop (length ?e) rest) (length acc + length ?e) outlen"
  proof (cases t)
    case (Run k b)
    then show ?thesis
      using Cons.prems(1) len
      by (subst routerboot_rle_loop.simps)
         (simp add: rle_encode_def run_bit memcpy_at_behind unat_of_nat take_bit_nat_eq_self)
  next
    case (Verbatim bs)
    then have ok: "0 < length bs" "length bs \<le> 128" using Cons.prems(1) by auto
    from verbatim_header [OF this] show ?thesis
      using Verbatim len ok
      by (subst routerboot_rle_loop.simps)
         (simp add: rle_encode_def memcpy_at_behind Let_def del: of_nat_Suc)
  qed
  from step IH show ?case by (simp add: rle_expand_def add_ac)
qed


text \<open>The run-length decoder as a decoder of calibration data, on a buffer of its own length.\<close>

definition rle_decode_buffer :: "byte list \<Rightarrow> byte list \<Rightarrow> nat \<Rightarrow> (int \<times> byte list \<times> nat) option" where
  "rle_decode_buffer inp out outlen =
     (case routerboot_rle_decode (Some inp) (length inp) (Some out) outlen of
        Some (ret, Some out', n) \<Rightarrow> Some (ret, out', n)
      | _ \<Rightarrow> None)"

lemma rle_decode_tokens:
  assumes "list_all rle_ok ts" and "2 \<le> length (rle_encode ts) + n" and "n < 2"
    and "length (rle_expand ts) \<le> outlen" and "outlen \<le> length out"
  shows "routerboot_rle_decode (Some (rle_encode ts @ tail)) (length (rle_encode ts) + n)
           (Some out) outlen =
         Some (0, Some (rle_expand ts @ drop (length (rle_expand ts)) out), length (rle_expand ts))"
  using rle_loop_tokens [of ts "[]" outlen out n tail] assms
  by (simp add: routerboot_rle_decode_def)

lemma rle_encode_length: "list_all rle_ok ts \<Longrightarrow> ts \<noteq> [] \<Longrightarrow> 2 \<le> length (rle_encode ts)"
proof (cases ts)
  case (Cons t us)
  assume "list_all rle_ok ts"
  then have "rle_ok t" using Cons by simp
  then have "2 \<le> length (rle_token_bytes t)"
    by (cases t rule: rle_token_bytes.cases) (auto simp: Suc_le_eq)
  then show ?thesis by (simp add: Cons rle_encode_def)
qed simp

interpretation rle_codec: caldata_codec rle_decode_buffer rle_encode rle_expand
  "\<lambda>ts. list_all rle_ok ts \<and> ts \<noteq> []"
  using rle_decode_tokens [where n = 0 and tail = "[]"] rle_encode_length
  by unfold_locales (simp add: rle_decode_buffer_def)

text \<open>C20: Run-length data round trip: for every list of runs of at most 127 bytes and verbatim
  pieces of 1 to 128 bytes, decoding its encoding, with or without one stray byte behind it,
  returns 0, the expansion and its length, and leaves the memory behind it alone.\<close>

theorem rle_decode_encode:
  assumes "list_all rle_ok ts" and "2 \<le> length (rle_encode ts) + n" and "n < 2"
    and "length (rle_expand ts) \<le> outlen" and "outlen \<le> length out"
  shows "routerboot_rle_decode (Some (rle_encode ts @ tail)) (length (rle_encode ts) + n)
           (Some out) outlen =
         Some (0, Some (rle_expand ts @ drop (length (rle_expand ts)) out), length (rle_expand ts))"
  using assms by (rule rle_decode_tokens)

theorem rle_decode_encode_witness:
  "routerboot_rle_decode (Some ([3, 9, - 2, 1, 2] @ [7])) 6 (Some [0, 0, 0, 0, 0, 0]) 5 =
   Some (0, Some [9, 9, 9, 1, 2, 0], 5)"
  using rle_decode_encode [of "[Run 3 9, Verbatim [1, 2]]" 1 5 "[0, 0, 0, 0, 0, 0]" "[7]"]
  by (simp add: rle_encode_def rle_expand_def eval_nat_numeral)

text \<open>The decoder stays within its buffers.\<close>

lemma rle_loop_safe:
  assumes "inlen \<le> length inp" and "nbytes \<le> outlen" and "outlen \<le> length out"
  shows "\<exists>ret out' n. routerboot_rle_loop inp inlen out nbytes outlen = Some (ret, out', n) \<and>
           length out' = length out \<and> drop outlen out' = drop outlen out \<and>
           (ret = 0 \<and> n \<le> outlen \<or> ret = - ENOSPC)"
  using assms
proof (induction inlen arbitrary: inp out nbytes rule: less_induct)
  case (less inlen)
  have frame: "length (memcpy_at out nbytes bs) = length out"
    "drop outlen (memcpy_at out nbytes bs) = drop outlen out"
    if "nbytes + length bs \<le> outlen" for bs
    using that less.prems by (auto simp: memcpy_at_def)
  show ?case
  proof (cases "inlen < 2")
    case True
    then show ?thesis using less.prems by (simp add: routerboot_rle_loop.simps)
  next
    case False
    then obtain r b rest where inp: "inp = r # b # rest"
      using less.prems(1) by (cases inp; cases "tl inp") auto
    show ?thesis
    proof (cases "r AND 0x80 = 0")
      case True
      let ?out = "memcpy_at out nbytes (replicate (unat r) b)"
      show ?thesis
        using less.IH [of "inlen - 2" rest "nbytes + unat r" ?out] less.prems False True
          frame [of "replicate (unat r) b"]
        by (subst routerboot_rle_loop.simps) (simp add: inp numeral_2_eq_2 Let_def)
    next
      case neg: False
      let ?run = "unat (NOT r AND 0xFF) + 1"
      let ?out = "memcpy_at out nbytes (take ?run (b # rest))"
      show ?thesis
        using less.IH [of "inlen - 1 - ?run" "drop ?run (b # rest)" "nbytes + ?run" ?out]
          less.prems False neg frame [of "take ?run (b # rest)"]
        by (subst routerboot_rle_loop.simps) (auto simp: inp Let_def)
    qed
  qed
qed

text \<open>C21: On any input whatever the decoder keeps within its two buffers: it returns, with 0
  and a length of at most \<open>outlen\<close> or with one of its two errors, and the memory behind the
  granted \<open>outlen\<close> bytes is unchanged.\<close>

theorem rle_decode_safe:
  assumes "inlen \<le> length inp" and "outlen \<le> length out"
  shows "\<exists>ret out' n. routerboot_rle_decode (Some inp) inlen (Some out) outlen = Some (ret, Some out', n) \<and>
           length out' = length out \<and> drop outlen out' = drop outlen out \<and>
           (ret = 0 \<and> n \<le> outlen \<or> ret \<in> {- ENOSPC, - EINVAL})"
  using rle_loop_safe [of inlen inp 0 outlen out] assms
  by (auto simp: routerboot_rle_decode_def)

theorem rle_decode_safe_witness:
  "\<exists>ret out' n. routerboot_rle_decode (Some [200, 1, 2]) 3 (Some [5, 6]) 1 = Some (ret, Some out', n) \<and>
     drop 1 out' = [6]"
  using rle_decode_safe [of 3 "[200, 1, 2]" 1 "[5, 6]"] by auto

section \<open>The layout of tags\<close>

text \<open>A tag is its number and its payload; the payload is padded to whole words.\<close>

definition tag_node :: "u16 \<times> byte list \<Rightarrow> u32" where
  "tag_node t = ucast (fst t) OR push_bit 16 (ucast (of_nat (length (snd t)) :: u16))"

definition tag_bytes :: "bool \<Rightarrow> byte \<Rightarrow> u16 \<times> byte list \<Rightarrow> byte list" where
  "tag_bytes be pad t =
     cpu_u32_bytes be (tag_node t) @ snd t @ replicate ((4 - length (snd t) mod 4) mod 4) pad"

definition tags_bytes :: "bool \<Rightarrow> byte \<Rightarrow> (u16 \<times> byte list) list \<Rightarrow> byte list" where
  "tags_bytes be pad ts = concat (map (tag_bytes be pad) ts)"

definition tag_ok :: "u16 \<times> byte list \<Rightarrow> bool" where
  "tag_ok t \<longleftrightarrow> fst t \<noteq> 0 \<and> snd t \<noteq> [] \<and> length (snd t) \<le> 0xFFFC"

lemma length_cpu_u32_bytes [simp]: "length (cpu_u32_bytes be w) = 4"
  by (simp add: cpu_u32_bytes_def)

lemma cpu_u32_at:
  "cpu_u32 be (pre @ cpu_u32_bytes be w @ post) (length pre) = Some w"
  using le32_of_bytes [of w "[]"] by (simp add: cpu_u32_def cpu_u32_bytes_def)

definition tag_size :: "u16 \<times> byte list \<Rightarrow> nat" where
  "tag_size t = 4 + 4 * ((length (snd t) + 3) div 4)"

lemma pad_to_word: "n + (4 - n mod 4) mod 4 = 4 * ((n + 3) div 4)" for n :: nat
proof -
  obtain q r where n: "n = 4 * q + r" "r < 4"
    by (metis mod_less_divisor mult_div_mod_eq zero_less_numeral)
  then consider "r = 0" | "r = 1" | "r = 2" | "r = 3" by fastforce
  then show ?thesis by cases (simp_all add: n(1) del: add_2_eq_Suc add_2_eq_Suc')
qed

lemma length_tag_bytes [simp]: "length (tag_bytes be pad t) = tag_size t"
  using pad_to_word [of "length (snd t)"] by (simp add: tag_bytes_def tag_size_def)

lemma unat_align4:
  assumes "n \<le> 0xFFFC"
  shows "unat (align4 (of_nat n)) = 4 * ((n + 3) div 4)"
proof -
  have "align4 (of_nat n) = push_bit 2 (drop_bit 2 (of_nat (n + 3)))"
    using and_not_mask [of "of_nat (n + 3) :: u16" 2] by (simp add: align4_def mask_eq_exp_minus_1)
  also have "unat \<dots> = take_bit 16 (push_bit 2 ((n + 3) div 4))"
    using assms by (simp only: unsigned_push_bit_eq unat_drop_bit unat_of_nat)
       (simp add: take_bit_nat_eq_self)
  also have "\<dots> = 4 * ((n + 3) div 4)"
    using assms by (simp add: push_bit_eq_mult take_bit_nat_eq_self)
  finally show ?thesis .
qed

lemma tag_node_fields:
  "ucast (tag_node t AND 0xFFFF) = fst t"
  "ucast (drop_bit 16 (tag_node t)) = (of_nat (length (snd t)) :: u16)"
proof -
  have m: "(0xFFFF :: u32) = mask 16" by (simp add: mask_eq_exp_minus_1)
  show "ucast (tag_node t AND 0xFFFF) = fst t"
    unfolding tag_node_def m
    by (rule bit_word_eqI) (simp add: bit_simps)
  show "ucast (drop_bit 16 (tag_node t)) = (of_nat (length (snd t)) :: u16)"
    unfolding tag_node_def
    by (rule bit_word_eqI) (auto simp: bit_simps dest: bit_imp_le_length)
qed

lemma tag_node_nonzero: "fst t \<noteq> 0 \<Longrightarrow> tag_node t \<noteq> 0"
  using tag_node_fields(1) [of t] by auto

lemma find_skip:
  assumes "tag_ok t" and "fst t \<noteq> tag_id" and "length pre < buflen"
  shows "routerboot_tag_find_loop be (pre @ tag_bytes be pad t @ post) buflen tag_id (length pre) =
         routerboot_tag_find_loop be (pre @ tag_bytes be pad t @ post) buflen tag_id
           (length (pre @ tag_bytes be pad t))"
proof -
  let ?buf = "pre @ tag_bytes be pad t @ post"
  have "cpu_u32 be ?buf (length pre) = Some (tag_node t)"
    using cpu_u32_at [of be pre "tag_node t"] by (simp add: tag_bytes_def)
  then show ?thesis
    using assms tag_node_nonzero [of t]
    by (subst routerboot_tag_find_loop.simps)
       (simp add: tag_node_fields tag_ok_def unat_align4 tag_size_def add.assoc)
qed

lemma find_skip_all:
  assumes "list_all tag_ok ts" and "tag_id \<notin> fst ` set ts"
    and "length pre + length (tags_bytes be pad ts) \<le> buflen"
  shows "routerboot_tag_find_loop be (pre @ tags_bytes be pad ts @ post) buflen tag_id (length pre) =
         routerboot_tag_find_loop be (pre @ tags_bytes be pad ts @ post) buflen tag_id
           (length (pre @ tags_bytes be pad ts))"
  using assms
proof (induction ts arbitrary: pre)
  case (Cons t ts)
  have "length pre < buflen" using Cons.prems(3) by (simp add: tags_bytes_def tag_size_def)
  moreover have "fst t \<noteq> tag_id" using Cons.prems(2) by auto
  ultimately show ?case
    using find_skip [of t tag_id pre buflen be pad "tags_bytes be pad ts @ post"]
      Cons.IH [of "pre @ tag_bytes be pad t"] Cons.prems
    by (simp add: tags_bytes_def add.assoc)
qed (simp add: tags_bytes_def)

lemma find_here:
  assumes "fst t \<noteq> 0" and "length pre + 4 < buflen"
  shows "routerboot_tag_find_loop be (pre @ tag_bytes be pad t @ post) buflen (fst t) (length pre) =
         Some (Inr (of_nat (length pre + 4), of_nat (length (snd t))))"
proof -
  have "cpu_u32 be (pre @ tag_bytes be pad t @ post) (length pre) = Some (tag_node t)"
    using cpu_u32_at [of be pre "tag_node t"] by (simp add: tag_bytes_def)
  then show ?thesis
    using assms tag_node_nonzero [of t]
    by (subst routerboot_tag_find_loop.simps) (simp add: tag_node_fields)
qed

lemma tag_find_at:
  assumes "list_all tag_ok (before @ [(tag_id, pld)])" and "tag_id \<notin> fst ` set before"
    and "length (tags_bytes be pad before) + 4 < buflen"
  shows "routerboot_tag_find be (Some (tags_bytes be pad (before @ [(tag_id, pld)]) @ post)) buflen tag_id =
         Some (Inr (of_nat (length (tags_bytes be pad before) + 4), of_nat (length pld)))"
  using find_skip_all [of before tag_id "[]" be pad buflen "tag_bytes be pad (tag_id, pld) @ post"]
    find_here [of "(tag_id, pld)" "tags_bytes be pad before" buflen be pad post] assms
  by (simp add: routerboot_tag_find_def tags_bytes_def tag_ok_def)

lemma tags_bytes_aligned: "4 dvd length (tags_bytes be pad ts)"
  by (induction ts) (auto simp: tags_bytes_def tag_size_def)

lemma tag_find_some:
  assumes "list_all tag_ok (before @ [(tag_id, pld)])" and "tag_id \<notin> fst ` set before"
    and "buf = tags_bytes be pad (before @ [(tag_id, pld)]) @ post" and "length buf < 65536"
  shows "\<exists>ofs len. routerboot_tag_find be (Some buf) (length buf) tag_id = Some (Inr (ofs, len)) \<and>
           take (unat len) (drop (unat ofs) buf) = pld \<and> 4 dvd unat ofs \<and>
           unat ofs + unat len \<le> length buf \<and> len \<noteq> 0"
proof -
  let ?n = "length (tags_bytes be pad before) + 4"
  have buf: "buf = (tags_bytes be pad before @ cpu_u32_bytes be (tag_node (tag_id, pld))) @ pld @
      replicate ((4 - length pld mod 4) mod 4) pad @ post"
    by (simp add: assms(3) tags_bytes_def tag_bytes_def)
  have len: "?n + length pld \<le> length buf" by (simp add: buf)
  have pld: "take (length pld) (drop ?n buf) = pld" by (simp add: buf)
  have "pld \<noteq> []" using assms(1) by (simp add: tag_ok_def)
  then have "?n < length buf" using len by (cases pld) auto
  from tag_find_at [OF assms(1,2) this, of post] assms(3)
  have "routerboot_tag_find be (Some buf) (length buf) tag_id =
        Some (Inr (of_nat ?n, of_nat (length pld)))" by simp
  moreover have "unat (of_nat ?n :: u16) = ?n" "unat (of_nat (length pld) :: u16) = length pld"
    using assms(4) len by (simp_all add: unat_of_nat take_bit_nat_eq_self del: of_nat_add)
  moreover from this have "(of_nat (length pld) :: u16) \<noteq> 0" using \<open>pld \<noteq> []\<close> by auto
  ultimately show ?thesis using pld len tags_bytes_aligned [of be pad before] by auto
qed

lemma tag_find_none:
  assumes "list_all tag_ok ts" and "tag_id \<notin> fst ` set ts" and "tag_id \<noteq> 0"
    and "post = [] \<or> take 4 post = cpu_u32_bytes be 0"
  shows "routerboot_tag_find be (Some (tags_bytes be pad ts @ post))
           (length (tags_bytes be pad ts @ post)) tag_id = Some (Inl (- ENOENT))"
proof -
  let ?ts = "tags_bytes be pad ts"
  have "routerboot_tag_find_loop be (?ts @ post) (length (?ts @ post)) tag_id (length ?ts) =
        Some (Inl (- ENOENT))"
  proof (cases "post = []")
    case True
    then show ?thesis by (simp add: routerboot_tag_find_loop.simps)
  next
    case False
    then have "post = cpu_u32_bytes be 0 @ drop 4 post"
      using assms(4) append_take_drop_id [of 4 post] by simp
    then have "cpu_u32 be (?ts @ post) (length ?ts) = Some 0"
      using cpu_u32_at [of be ?ts 0 "drop 4 post"] by simp
    then show ?thesis using False by (subst routerboot_tag_find_loop.simps) simp
  qed
  then show ?thesis
    using find_skip_all [OF assms(1,2), of "[]" be pad "length (?ts @ post)" post] assms(3)
    by (simp add: routerboot_tag_find_def)
qed

text \<open>C22: The search finds the first tag with the number asked for: in a buffer of less than
  64 KiB that holds well-formed tags, whatever follows the one searched, it returns an
  aligned offset and a length that delimit exactly the payload of that tag.\<close>

theorem tag_find_first:
  assumes "list_all tag_ok (before @ [(tag_id, pld)])" and "tag_id \<notin> fst ` set before"
    and "buf = tags_bytes be pad (before @ [(tag_id, pld)]) @ post" and "length buf < 65536"
  shows "\<exists>ofs len. routerboot_tag_find be (Some buf) (length buf) tag_id = Some (Inr (ofs, len)) \<and>
           take (unat len) (drop (unat ofs) buf) = pld \<and> 4 dvd unat ofs"
  using tag_find_some [OF assms] by blast

theorem tag_find_first_witness:
  "\<exists>ofs len. routerboot_tag_find True
       (Some (tags_bytes True 0 [(3, [1, 2, 3, 4, 5]), (0x16, [7, 8])] @ [9, 9]))
       (length (tags_bytes True 0 [(3, [1, 2, 3, 4, 5]), (0x16, [7, 8])] @ [9, 9])) 0x16 =
     Some (Inr (ofs, len)) \<and>
     take (unat len) (drop (unat ofs)
       (tags_bytes True 0 [(3, [1, 2, 3, 4, 5]), (0x16, [7, 8])] @ [9, 9])) = [7, 8]"
  using tag_find_first [where before = "[(3, [1, 2, 3, 4, 5])]" and tag_id = 22 and pld = "[7, 8]" and be = True
      and pad = 0 and post = "[9, 9]", OF _ _ refl]
  by (auto simp: tag_ok_def tags_bytes_def tag_size_def)

text \<open>A tag that is not there is reported as \<open>-ENOENT\<close>, both when the list ends with a
  null node and when it ends with the buffer.\<close>

theorem tag_find_absent:
  assumes "list_all tag_ok ts" and "tag_id \<notin> fst ` set ts" and "tag_id \<noteq> 0"
    and "post = [] \<or> take 4 post = cpu_u32_bytes be 0"
  shows "routerboot_tag_find be (Some (tags_bytes be pad ts @ post))
           (length (tags_bytes be pad ts @ post)) tag_id = Some (Inl (- ENOENT))"
  using assms by (rule tag_find_none)

theorem tag_find_absent_witness:
  "routerboot_tag_find False (Some (tags_bytes False 0 [(3, [1, 2])] @ [0, 0, 0, 0, 9]))
     (length (tags_bytes False 0 [(3, [1, 2])] @ [0, 0, 0, 0, 9])) 0x16 = Some (Inl (- ENOENT))"
  using tag_find_absent [where ts = "[(3, [1, 2])]" and tag_id = 22 and post = "[0, 0, 0, 0, 9]"
      and be = False and pad = 0]
  by (simp add: tag_ok_def cpu_u32_bytes_def le32_bytes_def)

end
