(* ===== verification/Rb_Hardconfig.thy ===== *)
theory Rb_Hardconfig
  imports Rb_Routerboot
begin

text \<open>
  The hard configuration of a RouterBOARD
  (\<open>src/target/linux/generic/files/drivers/platform/mikrotik/rb_hardconfig.c\<close>): locating the
  tags of the \<open>hard_config\<close> partition, unpacking the Wi-Fi calibration data, which is stored
  run-length encoded, LZO-compressed, behind a fixed dictionary, or LZ77-compressed, and the
  sysfs files that publish them.

  Parameters stand for the kernel: the LZO library, \<open>kmalloc\<close> with the contents of the fresh
  memory, the MTD layer and sysfs. Memory is modelled as in the theories of the two decoders;
  \<open>None\<close> is an access outside a buffer.
\<close>

section \<open>Constants\<close>

definition RB_MAGIC_HARD :: u32 where "RB_MAGIC_HARD = 0x64726148"
definition RB_MAGIC_LZOR :: u32 where "RB_MAGIC_LZOR = 0x524F5A4C"
definition RB_MAGIC_LZ77 :: u32 where "RB_MAGIC_LZ77 = 0x4C5A3737"
definition RB_MAGIC_ERD :: u32 where "RB_MAGIC_ERD = 0x00455244"

abbreviation RB_WLAN_ERD_ID_SOLO :: u16 where "RB_WLAN_ERD_ID_SOLO \<equiv> 0x0001"
abbreviation RB_WLAN_ERD_ID_MULTI_8001 :: u16 where "RB_WLAN_ERD_ID_MULTI_8001 \<equiv> 0x8001"
abbreviation RB_WLAN_ERD_ID_MULTI_8201 :: u16 where "RB_WLAN_ERD_ID_MULTI_8201 \<equiv> 0x8201"
abbreviation RB_ID_WLAN_DATA :: u16 where "RB_ID_WLAN_DATA \<equiv> 0x16"

definition RB_ART_SIZE :: nat where "RB_ART_SIZE = 0x10000"

text \<open>A return code of the LZO library that the driver tolerates.\<close>

abbreviation LZO_E_INPUT_NOT_CONSUMED :: int where "LZO_E_INPUT_NOT_CONSUMED \<equiv> - 8"

definition hc_lzor_prefix :: "byte list" where
  "hc_lzor_prefix =
    [0x00, 0x05, 0x4c, 0x4c, 0x44, 0x00, 0x34, 0xfe, 0xfe, 0x34, 0x11, 0x3c, 0x1e, 0x3c, 0x2e, 0x3c,
     0x4c, 0x34, 0x00, 0x52, 0x62, 0x92, 0xa2, 0xb2, 0xc3, 0x2a, 0x14, 0x00, 0x00, 0x05, 0xfe, 0x6a,
     0x3c, 0x16, 0x32, 0x16, 0x11, 0x1e, 0x12, 0x46, 0x32, 0x46, 0x11, 0x4e, 0x12, 0x36, 0x32, 0x36,
     0x11, 0x3e, 0x12, 0x5a, 0x9a, 0x64, 0x00, 0x04, 0xfe, 0x10, 0x3c, 0x00, 0x01, 0x00, 0x00, 0x28,
     0x0c, 0x00, 0x0f, 0xfe, 0x14, 0x00, 0x24, 0x24, 0x23, 0x24, 0x24, 0x23, 0x25, 0x22, 0x21, 0x21,
     0x23, 0x22, 0x21, 0x22, 0x21, 0x2d, 0x38, 0x00, 0x0c, 0x25, 0x25, 0x24, 0x25, 0x25, 0x24, 0x23,
     0x22, 0x21, 0x20, 0x23, 0x21, 0x21, 0x22, 0x21, 0x2d, 0x38, 0x00, 0x28, 0xb0, 0x00, 0x00, 0x22,
     0x00, 0x00, 0xc0, 0xfe, 0x03, 0x00, 0xc0, 0x00, 0x62, 0xff, 0x62, 0xff, 0xfe, 0x06, 0x00, 0xbb,
     0xff, 0xba, 0xff, 0xfe, 0x08, 0x00, 0x9e, 0xff, 0xfe, 0x0a, 0x00, 0x53, 0xff, 0xfe, 0x02, 0x00,
     0x20, 0xff, 0xb1, 0xfe, 0xfe, 0xb2, 0xfe, 0xfe, 0xed, 0xfe, 0xfe, 0xfe, 0x04, 0x00, 0x3a, 0xff,
     0x3a, 0xff, 0xde, 0xfd, 0x5f, 0x04, 0x33, 0xff, 0x4c, 0x74, 0x03, 0x05, 0x05, 0xff, 0x6d, 0xfe,
     0xfe, 0x6d, 0xfe, 0xfe, 0xaf, 0x08, 0x63, 0xff, 0x64, 0x6f, 0x08, 0xac, 0xff, 0xbf, 0x6d, 0x08,
     0x7a, 0x6d, 0x08, 0x96, 0x74, 0x04, 0x00, 0x08, 0x79, 0xff, 0xda, 0xfe, 0xfe, 0xdb, 0xfe, 0xfe,
     0x56, 0xff, 0xfe, 0x04, 0x00, 0x5e, 0xff, 0x5e, 0xff, 0x6c, 0xfe, 0xfe, 0xfe, 0x06, 0x00, 0x41,
     0xff, 0x7f, 0x74, 0x03, 0x00, 0x11, 0x44, 0xff, 0xa9, 0xfe, 0xfe, 0xa9, 0xfe, 0xfe, 0xa5, 0x8f,
     0x01, 0x00, 0x08, 0x01, 0x01, 0x02, 0x04, 0x08, 0x02, 0x04, 0x08, 0x08, 0x01, 0x01, 0xfe, 0x22,
     0x00, 0x4c, 0x60, 0x64, 0x8c, 0x90, 0xd0, 0xd4, 0xd8, 0x5c, 0x10, 0x09, 0xd8, 0xff, 0xb0, 0xff,
     0x00, 0x00, 0xba, 0xff, 0x14, 0x00, 0xba, 0xff, 0x64, 0x00, 0x00, 0x08, 0xfe, 0x06, 0x00, 0x74,
     0xff, 0x42, 0xff, 0xce, 0xff, 0x60, 0xff, 0x0a, 0x00, 0xb4, 0x00, 0xa0, 0x00, 0xa0, 0xfe, 0x07,
     0x00, 0x0a, 0x00, 0xb0, 0xff, 0x96, 0x4d, 0x00, 0x56, 0x57, 0x18, 0xa6, 0xff, 0x92, 0x70, 0x11,
     0x00, 0x12, 0x90, 0x90, 0x76, 0x5a, 0x54, 0x54, 0x4c, 0x46, 0x38, 0x00, 0x10, 0x10, 0x08, 0xfe,
     0x05, 0x00, 0x38, 0x29, 0x25, 0x23, 0x22, 0x22, 0x1f, 0x00, 0x00, 0x00, 0xf6, 0xe1, 0xdd, 0xf8,
     0xfe, 0x00, 0xfe, 0x15, 0x00, 0x00, 0xd0, 0x02, 0x74, 0x02, 0x08, 0xf8, 0xe5, 0xde, 0x02, 0x04,
     0x04, 0xfd, 0x00, 0x00, 0x00, 0x07, 0x50, 0x2d, 0x01, 0x90, 0x90, 0x76, 0x60, 0xb0, 0x07, 0x07,
     0x0c, 0x0c, 0x04, 0xfe, 0x05, 0x00, 0x66, 0x66, 0x5a, 0x56, 0xbc, 0x01, 0x06, 0xfc, 0xfc, 0xf1,
     0xfe, 0x07, 0x00, 0x24, 0x95, 0x70, 0x64, 0x18, 0x06, 0x2c, 0xff, 0xb5, 0xfe, 0xfe, 0xb5, 0xfe,
     0xfe, 0xe2, 0x8c, 0x24, 0x02, 0x2f, 0xff, 0x2f, 0xff, 0xb4, 0x78, 0x02, 0x05, 0x73, 0xff, 0xed,
     0xfe, 0xfe, 0x4f, 0xff, 0x36, 0x74, 0x1e, 0x09, 0x4f, 0xff, 0x50, 0xff, 0xfe, 0x16, 0x00, 0x70,
     0xac, 0x70, 0x8e, 0xac, 0x40, 0x0e, 0x01, 0x70, 0x7f, 0x8e, 0xac, 0x6c, 0x00, 0x0b, 0xfe, 0x02,
     0x00, 0xfe, 0x0a, 0x2c, 0x2a, 0x2a, 0x28, 0x26, 0x1e, 0x1e, 0xfe, 0x02, 0x20, 0x65, 0x20, 0x00,
     0x00, 0x05, 0x12, 0x00, 0x11, 0x1e, 0x11, 0x11, 0x41, 0x1e, 0x41, 0x11, 0x31, 0x1e, 0x31, 0x11,
     0x70, 0x75, 0x7a, 0x7f, 0x84, 0x89, 0x8e, 0x93, 0x98, 0x30, 0x20, 0x00, 0x02, 0x00, 0xfe, 0x06,
     0x3c, 0xbc, 0x32, 0x0c, 0x00, 0x00, 0x2a, 0x12, 0x1e, 0x12, 0x2e, 0x12, 0xcc, 0x12, 0x11, 0x1a,
     0x1e, 0x1a, 0x2e, 0x1a, 0x4c, 0x10, 0x1e, 0x10, 0x11, 0x18, 0x1e, 0x42, 0x1e, 0x42, 0x2e, 0x42,
     0xcc, 0x42, 0x11, 0x4a, 0x1e, 0x4a, 0x2e, 0x4a, 0x4c, 0x40, 0x1e, 0x40, 0x11, 0x48, 0x1e, 0x32,
     0x1e, 0x32, 0x2e, 0x32, 0xcc, 0x32, 0x11, 0x3a, 0x1e, 0x3a, 0x2e, 0x3a, 0x4c, 0x30, 0x1e, 0x30,
     0x11, 0x38, 0x1e, 0x27, 0x9a, 0x01, 0x9d, 0xa2, 0x2f, 0x28, 0x00, 0x00, 0x46, 0xde, 0xc4, 0xbf,
     0xa6, 0x9d, 0x81, 0x7b, 0x5c, 0x61, 0x40, 0xc7, 0xc0, 0xae, 0xa9, 0x8c, 0x83, 0x6a, 0x62, 0x50,
     0x3e, 0xce, 0xc2, 0xae, 0xa3, 0x8c, 0x7b, 0x6a, 0x5a, 0x50, 0x35, 0xd7, 0xc2, 0xb7, 0xa4, 0x95,
     0x7e, 0x72, 0x5a, 0x59, 0x37, 0xfe, 0x02, 0xf8, 0x8c, 0x95, 0x90, 0x8f, 0x00, 0xd7, 0xc0, 0xb7,
     0xa2, 0x95, 0x7b, 0x72, 0x56, 0x59, 0x32, 0xc7, 0xc3, 0xae, 0xad, 0x8c, 0x85, 0x6a, 0x63, 0x50,
     0x3e, 0xce, 0xc3, 0xae, 0xa4, 0x8c, 0x7c, 0x6a, 0x59, 0x50, 0x34, 0xd7, 0xc2, 0xb7, 0xa5, 0x95,
     0x7e, 0x72, 0x59, 0x59, 0x36, 0xfc, 0x05, 0x00, 0x02, 0xce, 0xc5, 0xae, 0xa5, 0x95, 0x83, 0x72,
     0x5c, 0x59, 0x36, 0xbf, 0xc6, 0xa5, 0xab, 0x8c, 0x8c, 0x6a, 0x67, 0x50, 0x41, 0x64, 0x07, 0x00,
     0x02, 0x95, 0x8c, 0x72, 0x65, 0x59, 0x3f, 0xce, 0xc7, 0xae, 0xa8, 0x95, 0x86, 0x72, 0x5f, 0x59,
     0x39, 0xfe, 0x02, 0xf8, 0x8b, 0x7c, 0x0b, 0x09, 0xb7, 0xc2, 0x9d, 0xa4, 0x83, 0x85, 0x6a, 0x6b,
     0x50, 0x44, 0xb7, 0xc1, 0x64, 0x01, 0x00, 0x06, 0x61, 0x5d, 0x48, 0x3d, 0xae, 0xc4, 0x9d, 0xad,
     0x7b, 0x85, 0x61, 0x66, 0x48, 0x46, 0xae, 0xc3, 0x95, 0xa3, 0x72, 0x7c, 0x59, 0x56, 0x38, 0x31,
     0x7c, 0x0b, 0x00, 0x0c, 0x96, 0x91, 0x8f, 0x00, 0xb7, 0xc0, 0xa5, 0xab, 0x8c, 0x8a, 0x6a, 0x64,
     0x50, 0x3c, 0xb7, 0xc0, 0x9d, 0xa0, 0x83, 0x80, 0x6a, 0x64, 0x50, 0x3d, 0xb7, 0xc5, 0x9d, 0xa5,
     0x83, 0x87, 0x6c, 0x08, 0x07, 0xae, 0xc0, 0x9d, 0xa8, 0x83, 0x88, 0x6a, 0x6d, 0x50, 0x46, 0xfc,
     0x05, 0x00, 0x16, 0xbf, 0xc0, 0xa5, 0xa2, 0x8c, 0x7f, 0x6a, 0x57, 0x50, 0x2f, 0xb7, 0xc7, 0xa5,
     0xb1, 0x8c, 0x8e, 0x72, 0x6d, 0x59, 0x45, 0xbf, 0xc6, 0xa5, 0xa8, 0x8c, 0x87, 0x6a, 0x5f, 0x50,
     0x37, 0xbf, 0xc2, 0xa5, 0xa4, 0x8c, 0x83, 0x6a, 0x5c, 0x50, 0x34, 0xbc, 0x05, 0x00, 0x0e, 0x90,
     0x00, 0xc7, 0xc2, 0xae, 0xaa, 0x95, 0x82, 0x7b, 0x60, 0x61, 0x3f, 0xb7, 0xc6, 0xa5, 0xb1, 0x8c,
     0x8d, 0x72, 0x6b, 0x61, 0x51, 0xbf, 0xc4, 0xa5, 0xa5, 0x8c, 0x82, 0x72, 0x61, 0x59, 0x39, 0x6c,
     0x26, 0x03, 0x95, 0x82, 0x7b, 0x61, 0x61, 0x40, 0xfc, 0x05, 0x00, 0x00, 0x7e, 0xd7, 0xc3, 0xb7,
     0xa8, 0x9d, 0x80, 0x83, 0x5d, 0x6a, 0x3f, 0xbf, 0xc7, 0xa5, 0xa8, 0x8c, 0x84, 0x72, 0x60, 0x61,
     0x46, 0xbf, 0xc2, 0xae, 0xb0, 0x9d, 0x92, 0x83, 0x6f, 0x6a, 0x50, 0xd7, 0xc3, 0xb7, 0xa7, 0x9d,
     0x80, 0x83, 0x5e, 0x6a, 0x40, 0xfe, 0x02, 0xf8, 0x8d, 0x96, 0x90, 0x90, 0xfe, 0x05, 0x00, 0x8a,
     0xc4, 0x63, 0xb8, 0x3c, 0xa6, 0x29, 0x97, 0x16, 0x81, 0x84, 0xb7, 0x5b, 0xa9, 0x33, 0x94, 0x1e,
     0x83, 0x11, 0x70, 0xb8, 0xc2, 0x70, 0xb1, 0x4d, 0xa3, 0x2a, 0x8d, 0x1b, 0x7b, 0xa8, 0xbc, 0x68,
     0xab, 0x47, 0x9d, 0x27, 0x87, 0x18, 0x75, 0xae, 0xc6, 0x7d, 0xbb, 0x4d, 0xaa, 0x1c, 0x84, 0x11,
     0x72, 0xa3, 0xbb, 0x6e, 0xad, 0x3c, 0x97, 0x24, 0x85, 0x16, 0x71, 0x80, 0xb2, 0x57, 0xa4, 0x30,
     0x8e, 0x1c, 0x7c, 0x10, 0x68, 0xbb, 0xbd, 0x75, 0xac, 0x4f, 0x9e, 0x2b, 0x87, 0x1a, 0x76, 0x96,
     0xc5, 0x5e, 0xb5, 0x3e, 0xa5, 0x1f, 0x8c, 0x12, 0x7a, 0xc1, 0xc6, 0x42, 0x9f, 0x27, 0x8c, 0x16,
     0x77, 0x0f, 0x67, 0x9d, 0xbc, 0x68, 0xad, 0x36, 0x95, 0x20, 0x83, 0x11, 0x6d, 0x9b, 0xb8, 0x67,
     0xa8, 0x34, 0x90, 0x1f, 0x7c, 0x10, 0x67, 0x9e, 0xc9, 0x6a, 0xbb, 0x37, 0xa4, 0x20, 0x90, 0x11,
     0x7b, 0xc6, 0xc8, 0x47, 0xa4, 0x2a, 0x90, 0x18, 0x7b, 0x10, 0x6c, 0xae, 0xc4, 0x5d, 0xad, 0x37,
     0x9a, 0x1f, 0x85, 0x13, 0x75, 0x70, 0xad, 0x42, 0x99, 0x25, 0x84, 0x17, 0x74, 0x0b, 0x56, 0x87,
     0xc8, 0x57, 0xb8, 0x2b, 0x9e, 0x19, 0x8a, 0x0d, 0x74, 0xa7, 0xc8, 0x6e, 0xb9, 0x36, 0xa0, 0x1f,
     0x8b, 0x11, 0x75, 0x94, 0xbe, 0x4b, 0xa5, 0x2a, 0x92, 0x18, 0x7c, 0x0f, 0x6b, 0xaf, 0xc0, 0x58,
     0xa8, 0x34, 0x94, 0x1d, 0x7d, 0x12, 0x6d, 0x82, 0xc0, 0x52, 0xb0, 0x25, 0x94, 0x14, 0x7f, 0x0c,
     0x68, 0x84, 0xbf, 0x3e, 0xa4, 0x22, 0x8e, 0x10, 0x76, 0x0b, 0x65, 0x88, 0xb6, 0x42, 0x9b, 0x26,
     0x87, 0x14, 0x70, 0x0c, 0x5f, 0xc5, 0xc2, 0x3e, 0x97, 0x23, 0x83, 0x13, 0x6c, 0x0c, 0x5c, 0xb1,
     0xc9, 0x76, 0xbc, 0x4a, 0xaa, 0x20, 0x8d, 0x12, 0x78, 0x93, 0xbf, 0x46, 0xa3, 0x26, 0x8d, 0x14,
     0x74, 0x0c, 0x62, 0xc8, 0xc4, 0x3b, 0x97, 0x21, 0x82, 0x11, 0x6a, 0x0a, 0x59, 0xa3, 0xb9, 0x68,
     0xa9, 0x30, 0x8d, 0x1a, 0x78, 0x0f, 0x61, 0xa0, 0xc9, 0x73, 0xbe, 0x50, 0xb1, 0x30, 0x9f, 0x14,
     0x80, 0x83, 0xb7, 0x3c, 0x9a, 0x20, 0x84, 0x0e, 0x6a, 0x0a, 0x57, 0xac, 0xc2, 0x68, 0xb0, 0x2e,
     0x92, 0x19, 0x7c, 0x0d, 0x63, 0x93, 0xbe, 0x62, 0xb0, 0x3c, 0x9e, 0x1a, 0x80, 0x0e, 0x6b, 0xbb,
     0x02, 0xa0, 0x02, 0xa0, 0x02, 0x6f, 0x00, 0x75, 0x00, 0x75, 0x00, 0x00, 0x00, 0xad, 0x02, 0xb3,
     0x02, 0x6f, 0x00, 0x87, 0x00, 0x85, 0xfe, 0x03, 0x00, 0xc2, 0x02, 0x82, 0x4d, 0x92, 0x6e, 0x4d,
     0xb1, 0xa8, 0x84, 0x01, 0x00, 0x07, 0x7e, 0x00, 0xa8, 0x02, 0xa4, 0x02, 0xa4, 0x02, 0xa2, 0x00,
     0xa6, 0x00, 0xa6, 0x00, 0x00, 0x00, 0xb4, 0x02, 0xb4, 0x02, 0x92, 0x00, 0x96, 0x00, 0x96, 0x46,
     0x04, 0xb0, 0x02, 0x64, 0x02, 0x0a, 0x8c, 0x00, 0x90, 0x02, 0x98, 0x02, 0x98, 0x02, 0x0e, 0x01,
     0x11, 0x01, 0x11, 0x50, 0xc3, 0x08, 0x88, 0x02, 0x88, 0x02, 0x19, 0x01, 0x02, 0x01, 0x02, 0x01,
     0xf3, 0x2d, 0x00, 0x00]"

section \<open>The kernel and the state of the driver\<close>

datatype rb_alloc = Alloc_hcbuf | Alloc_outbuf | Alloc_tempbuf | Alloc_opcode

record rb_env =
  env_be :: bool
  env_lzo1x_decompress_safe :: "byte list \<Rightarrow> byte list \<Rightarrow> nat \<Rightarrow> int \<times> byte list \<times> nat"
  env_kmalloc :: "rb_alloc \<Rightarrow> nat \<Rightarrow> byte list option"
  env_get_mtd_device :: int
  env_mtd_size :: nat
  env_mtd_read :: "int \<times> byte list"
  env_kobject_create :: "string \<Rightarrow> bool"
  env_sysfs_create :: "string \<Rightarrow> bool"

text \<open>The function \<open>tshow\<close> of an attribute; the calibration data has none.\<close>

datatype hc_tshow = Show_u32s | Show_string | Show_mac | Show_hwoptions | Show_none

record hc_attr =
  tag_id :: u16
  attr_name :: string
  attr_tshow :: hc_tshow
  pld_ofs :: u16
  pld_len :: u16

text \<open>The static variables; \<open>hc_files\<close> collects the sysfs entries created.\<close>

record hc_state =
  hc_buf :: "byte list option"
  hc_buflen :: nat
  hc_kobj :: bool
  hc_attrs :: "hc_attr list"
  hc_wd_solo_battr :: hc_attr
  hc_wd_multi_battrs :: "hc_attr list"
  hc_files :: "string list"

definition hc_attr_init :: "u16 \<Rightarrow> string \<Rightarrow> hc_tshow \<Rightarrow> hc_attr" where
  "hc_attr_init t n f = \<lparr>tag_id = t, attr_name = n, attr_tshow = f, pld_ofs = 0, pld_len = 0\<rparr>"

definition hc_wd_multi_battrs_init :: "hc_attr list" where
  "hc_wd_multi_battrs_init =
     [hc_attr_init RB_WLAN_ERD_ID_MULTI_8001 ''data_0'' Show_none,
      hc_attr_init RB_WLAN_ERD_ID_MULTI_8201 ''data_2'' Show_none]"

definition hc_wd_solo_battr_init :: hc_attr where
  "hc_wd_solo_battr_init = hc_attr_init RB_WLAN_ERD_ID_SOLO ''wlan_data'' Show_none"

definition hc_attrs_init :: "hc_attr list" where
  "hc_attrs_init =
     [hc_attr_init 0x03 ''flash_info'' Show_u32s,
      hc_attr_init 0x04 ''mac_base'' Show_mac,
      hc_attr_init 0x05 ''board_product_code'' Show_string,
      hc_attr_init 0x06 ''booter_version'' Show_string,
      hc_attr_init 0x0B ''board_serial'' Show_string,
      hc_attr_init 0x0D ''mem_size'' Show_u32s,
      hc_attr_init 0x0E ''mac_count'' Show_u32s,
      hc_attr_init 0x15 ''hw_options'' Show_hwoptions,
      hc_attr_init RB_ID_WLAN_DATA '''' Show_none,
      hc_attr_init 0x17 ''board_identifier'' Show_string,
      hc_attr_init 0x21 ''product_name'' Show_string,
      hc_attr_init 0x26 ''defconf'' Show_string,
      hc_attr_init 0x27 ''board_revision'' Show_string]"

text \<open>Subtraction of \<open>size_t\<close> values.\<close>

definition size_sub :: "nat \<Rightarrow> nat \<Rightarrow> nat" where
  "size_sub a b = (a + (SIZE_MAX + 1) - b) mod (SIZE_MAX + 1)"

section \<open>Showing attributes\<close>

text \<open>\<open>%pM\<close> prints six bytes in hexadecimal, separated by colons.\<close>

definition hex2 :: "byte \<Rightarrow> string" where
  "hex2 b = [hex_digit (drop_bit 4 b), hex_digit (b AND 0xF)]"

definition hc_tag_show_mac :: "byte list \<Rightarrow> u16 \<Rightarrow> (int + string) option" where
  "hc_tag_show_mac pld len =
     (if len \<noteq> 8 then Some (Inl (- EINVAL))
      else if length pld < 6 then None
      else Some (Inr (hex2 (pld ! 0) @ concat (map (\<lambda>b. '':'' @ hex2 b) (take 5 (drop 1 pld))) @ [CHR 0x0A])))"

text \<open>The known option bits; the names carry the tabulators that align them.\<close>

definition hc_hwopts :: "(u32 \<times> string) list" where
  "hc_hwopts =
     (let t = CHR 0x09 in
      [(push_bit 0 1, ''no UART'' @ [t, t]), (push_bit 1 1, ''has Vreg'' @ [t]),
       (push_bit 2 1, ''has usb'' @ [t, t]), (push_bit 3 1, ''has ATtiny'' @ [t]),
       (push_bit 14 1, ''no NAND'' @ [t, t]), (push_bit 15 1, ''has LCD'' @ [t, t]),
       (push_bit 16 1, ''has POE out'' @ [t]), (push_bit 17 1, ''has MicroSD'' @ [t]),
       (push_bit 18 1, ''has SIM'' @ [t, t]), (push_bit 20 1, ''has SFP'' @ [t, t]),
       (push_bit 21 1, ''has WiFi'' @ [t]), (push_bit 22 1, ''has TS ADC'' @ [t]),
       (push_bit 29 1, ''has PLC'' @ [t, t])])"

definition hc_tag_show_hwoptions :: "bool \<Rightarrow> byte list \<Rightarrow> u16 \<Rightarrow> (int + string) option" where
  "hc_tag_show_hwoptions be pld len =
     (if len \<noteq> 4 then Some (Inl (- EINVAL))
      else case cpu_u32 be pld 0 of
        None \<Rightarrow> None
      | Some data \<Rightarrow>
          Some (Inr (''raw'' @ [CHR 0x09, CHR 0x09] @ '': 0x'' @ hex8 data @ [CHR 0x0A, CHR 0x0A] @
            concat (map (\<lambda>(b, str). str @ '': '' @ (if data AND b \<noteq> 0 then ''true'' else ''false'') @
                                     [CHR 0x0A]) hc_hwopts))))"

definition hc_attr_show :: "rb_env \<Rightarrow> hc_state \<Rightarrow> hc_attr \<Rightarrow> (int + string) option" where
  "hc_attr_show env h a =
     (if pld_len a = 0 then Some (Inl (- ENOENT))
      else case hc_buf h of
        None \<Rightarrow> None
      | Some buf \<Rightarrow>
          (let pld = drop (unat (pld_ofs a)) buf in
           case attr_tshow a of
             Show_u32s \<Rightarrow> routerboot_tag_show_u32s (env_be env) pld (pld_len a)
           | Show_string \<Rightarrow> map_option Inr (routerboot_tag_show_string pld (pld_len a))
           | Show_mac \<Rightarrow> hc_tag_show_mac pld (pld_len a)
           | Show_hwoptions \<Rightarrow> hc_tag_show_hwoptions (env_be env) pld (pld_len a)
           | Show_none \<Rightarrow> None))"

section \<open>Unpacking calibration data\<close>

text \<open>Each returns the code, the output memory and \<open>*outlen\<close>; \<open>inbuf\<close> is the memory at the input
  pointer.\<close>

definition hc_wlan_data_unpack_erd ::
  "rb_env \<Rightarrow> u16 \<Rightarrow> byte list \<Rightarrow> nat \<Rightarrow> byte list \<Rightarrow> nat \<Rightarrow> (int \<times> byte list \<times> nat) option" where
  "hc_wlan_data_unpack_erd env tag inbuf inlen outbuf outlen =
     (case routerboot_tag_find (env_be env) (Some inbuf) inlen tag of
        None \<Rightarrow> None
      | Some (Inl ret) \<Rightarrow> Some (ret, outbuf, outlen)
      | Some (Inr (lzo_ofs, lzo_len)) \<Rightarrow>
          if inlen < unat lzo_len then Some (- EINVAL, outbuf, outlen)
          else if unat lzo_ofs + unat lzo_len \<le> length inbuf
          then Some (env_lzo1x_decompress_safe env
                       (take (unat lzo_len) (drop (unat lzo_ofs) inbuf)) outbuf outlen)
          else None)"

text \<open>The search for the magic number: \<open>needle\<close> at byte \<open>ofs\<close>; past the magic, or an error.\<close>

function hc_find_erd :: "bool \<Rightarrow> byte list \<Rightarrow> nat \<Rightarrow> nat \<Rightarrow> (int + nat) option" where
  "hc_find_erd be tempbuf templen ofs =
     (case cpu_u32 be tempbuf ofs of
        None \<Rightarrow> None
      | Some w \<Rightarrow>
          if w = RB_MAGIC_ERD then Some (Inr (ofs + 4))
          else if templen \<le> ofs + 4 then Some (Inl (- ENODATA))
          else hc_find_erd be tempbuf templen (ofs + 4))"
  by pat_completeness auto
termination
  by (relation "measure (\<lambda>(be, tempbuf, templen, ofs). templen - ofs)") auto

declare hc_find_erd.simps [simp del]

text \<open>What follows the decompression.\<close>

definition hc_unpack_tagged_rle ::
  "rb_env \<Rightarrow> u16 \<Rightarrow> byte list \<Rightarrow> nat \<Rightarrow> byte list \<Rightarrow> nat \<Rightarrow> (int \<times> byte list \<times> nat) option" where
  "hc_unpack_tagged_rle env tag tempbuf templen outbuf outlen =
     (case hc_find_erd (env_be env) tempbuf templen 0 of
        None \<Rightarrow> None
      | Some (Inl ret) \<Rightarrow> Some (ret, outbuf, outlen)
      | Some (Inr needle) \<Rightarrow>
          (let templen = size_sub templen needle in
           case routerboot_tag_find (env_be env) (Some (drop needle tempbuf)) templen tag of
             None \<Rightarrow> None
           | Some (Inl ret) \<Rightarrow> Some (ret, outbuf, outlen)
           | Some (Inr (rle_ofs, rle_len)) \<Rightarrow>
               if templen < unat rle_len then Some (- EINVAL, outbuf, outlen)
               else case routerboot_rle_decode (Some (drop (needle + unat rle_ofs) tempbuf))
                           (unat rle_len) (Some outbuf) outlen of
                 Some (ret, Some outbuf', outlen') \<Rightarrow> Some (ret, outbuf', outlen')
               | _ \<Rightarrow> None))"

definition hc_wlan_data_unpack_lzor_lz77 ::
  "rb_env \<Rightarrow> u16 \<Rightarrow> byte list \<Rightarrow> nat \<Rightarrow> byte list \<Rightarrow> nat \<Rightarrow> u32 \<Rightarrow> (int \<times> byte list \<times> nat) option" where
  "hc_wlan_data_unpack_lzor_lz77 env tag inbuf inlen outbuf outlen magic =
     (case env_kmalloc env Alloc_tempbuf outlen of
        None \<Rightarrow> Some (- ENOMEM, outbuf, outlen)
      | Some tempbuf \<Rightarrow>
          (let lzo_len = (if magic = RB_MAGIC_LZOR
                          then (inlen + length hc_lzor_prefix) mod (SIZE_MAX + 1) else inlen) in
           if outlen < lzo_len then Some (- EFBIG, outbuf, outlen)
           else if magic = RB_MAGIC_LZOR then
             if inlen \<le> length inbuf \<and> length hc_lzor_prefix + inlen \<le> length outbuf then
               let outbuf = memcpy_at (memcpy_at outbuf 0 hc_lzor_prefix)
                              (length hc_lzor_prefix) (take inlen inbuf);
                   (ret, tempbuf, templen) =
                     env_lzo1x_decompress_safe env (take lzo_len outbuf) tempbuf outlen
               in if ret \<noteq> 0 \<and> ret \<noteq> LZO_E_INPUT_NOT_CONSUMED then Some (ret, outbuf, outlen)
                  else hc_unpack_tagged_rle env tag tempbuf templen outbuf outlen
             else None
           else if magic = RB_MAGIC_LZ77 then
             case rb_lz77_decompress (env_kmalloc env Alloc_opcode 24 \<noteq> None)
                    (take inlen inbuf) tempbuf outlen of
               None \<Rightarrow> None
             | Some (ret, tempbuf, templen) \<Rightarrow>
                 if ret \<noteq> 0 then Some (ret, outbuf, outlen)
                 else hc_unpack_tagged_rle env tag tempbuf templen outbuf outlen
           else Some (- EINVAL, outbuf, outlen)))"

text \<open>\<open>buf\<close> and \<open>buflen\<close> are \<open>hc_buf\<close> and \<open>hc_buflen\<close>.\<close>

definition hc_wlan_data_unpack ::
  "rb_env \<Rightarrow> byte list \<Rightarrow> nat \<Rightarrow> u16 \<Rightarrow> nat \<Rightarrow> nat \<Rightarrow> byte list \<Rightarrow> nat \<Rightarrow> (int \<times> byte list \<times> nat) option" where
  "hc_wlan_data_unpack env buf buflen tag tofs tlen outbuf outlen =
     (if buflen < tofs + tlen then Some (- EIO, outbuf, outlen)
      else case cpu_u32 (env_be env) buf tofs of
        None \<Rightarrow> None
      | Some magic \<Rightarrow>
          if magic = RB_MAGIC_LZ77 \<and> tag = RB_WLAN_ERD_ID_SOLO
          then Some (- ENODATA, outbuf, outlen)
          else if magic = RB_MAGIC_LZ77 \<or> magic = RB_MAGIC_LZOR
          then hc_wlan_data_unpack_lzor_lz77 env tag (drop (tofs + 4) buf) (size_sub tlen 4)
                 outbuf outlen magic
          else if magic = RB_MAGIC_ERD
          then hc_wlan_data_unpack_erd env tag (drop (tofs + 4) buf) (size_sub tlen 4) outbuf outlen
          else if tag = RB_WLAN_ERD_ID_SOLO
          then (case routerboot_rle_decode (Some (drop tofs buf)) tlen (Some outbuf) outlen of
                  Some (ret, Some outbuf', outlen') \<Rightarrow> Some (ret, outbuf', outlen')
                | _ \<Rightarrow> None)
          else Some (- ENODATA, outbuf, outlen))"

text \<open>Reading \<open>count\<close> bytes at \<open>off\<close> of a calibration file: the result and the bytes put into
  the reader's buffer.\<close>

definition hc_wlan_data_bin_read ::
  "rb_env \<Rightarrow> hc_state \<Rightarrow> hc_attr \<Rightarrow> nat \<Rightarrow> nat \<Rightarrow> (int \<times> byte list) option" where
  "hc_wlan_data_bin_read env h attr off count =
     (if pld_len attr = 0 then Some (- ENOENT, [])
      else let outlen = RB_ART_SIZE in
      if outlen < unat (pld_len attr) then Some (- EFBIG, [])
      else case env_kmalloc env Alloc_outbuf outlen of
        None \<Rightarrow> Some (- ENOMEM, [])
      | Some outbuf \<Rightarrow>
          case hc_buf h of
            None \<Rightarrow> None
          | Some buf \<Rightarrow>
              case hc_wlan_data_unpack env buf (hc_buflen h) (tag_id attr) (unat (pld_ofs attr))
                     (unat (pld_len attr)) outbuf outlen of
                None \<Rightarrow> None
              | Some (ret, outbuf, outlen) \<Rightarrow>
                  if ret \<noteq> 0 then Some (ret, [])
                  else if outlen \<le> off then Some (0, [])
                  else let count = (if outlen < off + count then outlen - off else count) in
                       Some (int count, take count (drop off outbuf)))"

section \<open>Start and stop\<close>

text \<open>Creation of a sysfs entry; a failure is only logged.\<close>

definition hc_publish :: "rb_env \<Rightarrow> string \<Rightarrow> hc_state \<Rightarrow> hc_state" where
  "hc_publish env name h =
     (if env_sysfs_create env name then h\<lparr>hc_files := hc_files h @ [name]\<rparr> else h)"

text \<open>The inner loop over \<open>hc_wd_multi_battrs\<close>: the entries rewritten so far, the state and the
  reused output buffer.\<close>

fun hc_publish_multi ::
  "rb_env \<Rightarrow> byte list \<Rightarrow> hc_attr \<Rightarrow> hc_attr list \<Rightarrow> byte list \<Rightarrow> hc_state \<Rightarrow>
     (hc_attr list \<times> hc_state) option" where
  "hc_publish_multi env buf wd [] outbuf h = Some ([], h)"
| "hc_publish_multi env buf wd (a # as) outbuf h =
     (case hc_wlan_data_unpack env buf (hc_buflen h) (tag_id a) (unat (pld_ofs wd))
             (unat (pld_len wd)) outbuf RB_ART_SIZE of
        None \<Rightarrow> None
      | Some (ret, outbuf, _) \<Rightarrow>
          (let (a, h) =
             (if ret \<noteq> 0 then (a\<lparr>pld_ofs := 0, pld_len := 0\<rparr>, h)
              else (a\<lparr>pld_ofs := pld_ofs wd, pld_len := pld_len wd\<rparr>,
                    hc_publish env (''wlan_data/'' @ attr_name a) h))
           in case hc_publish_multi env buf wd as outbuf h of
                None \<Rightarrow> None
              | Some (as, h) \<Rightarrow> Some (a # as, h)))"

text \<open>The special case of \<open>RB_ID_WLAN_DATA\<close>, for the located entry \<open>wd\<close>.\<close>

definition hc_publish_wlan :: "rb_env \<Rightarrow> byte list \<Rightarrow> hc_attr \<Rightarrow> hc_state \<Rightarrow> hc_state option" where
  "hc_publish_wlan env buf wd h =
     (case env_kmalloc env Alloc_outbuf RB_ART_SIZE of
        None \<Rightarrow> Some h
      | Some outbuf \<Rightarrow>
          case hc_wlan_data_unpack env buf (hc_buflen h) RB_WLAN_ERD_ID_SOLO (unat (pld_ofs wd))
                 (unat (pld_len wd)) outbuf RB_ART_SIZE of
            None \<Rightarrow> None
          | Some (ret, outbuf, _) \<Rightarrow>
              if ret = 0 then
                Some (hc_publish env ''wlan_data''
                  (h\<lparr>hc_wd_solo_battr :=
                       (hc_wd_solo_battr h)\<lparr>pld_ofs := pld_ofs wd, pld_len := pld_len wd\<rparr>\<rparr>))
              else if \<not> env_kobject_create env ''wlan_data'' then Some h
              else case hc_publish_multi env buf wd (hc_wd_multi_battrs h) outbuf h of
                     None \<Rightarrow> None
                   | Some (ms, h) \<Rightarrow> Some (h\<lparr>hc_wd_multi_battrs := ms\<rparr>))"

text \<open>The outer loop over \<open>hc_attrs\<close>; the buffer searched starts behind the magic number.\<close>

fun hc_publish_tags ::
  "rb_env \<Rightarrow> byte list \<Rightarrow> hc_attr list \<Rightarrow> hc_state \<Rightarrow> (hc_attr list \<times> hc_state) option" where
  "hc_publish_tags env buf [] h = Some ([], h)"
| "hc_publish_tags env buf (a # as) h =
     (case routerboot_tag_find (env_be env) (Some (drop 4 buf)) (size_sub (hc_buflen h) 4) (tag_id a) of
        None \<Rightarrow> None
      | Some r \<Rightarrow>
          (let a = (case r of
                      Inl _ \<Rightarrow> a\<lparr>pld_ofs := 0, pld_len := 0\<rparr>
                    | Inr (ofs, len) \<Rightarrow> a\<lparr>pld_ofs := ofs + 4, pld_len := len\<rparr>)
           in case (case r of
                      Inl _ \<Rightarrow> Some h
                    | Inr _ \<Rightarrow>
                        if tag_id a = RB_ID_WLAN_DATA \<and> pld_len a \<noteq> 0
                        then hc_publish_wlan env buf a h
                        else Some (hc_publish env (attr_name a) h)) of
                None \<Rightarrow> None
              | Some h \<Rightarrow>
                  case hc_publish_tags env buf as h of
                    None \<Rightarrow> None
                  | Some (as, h) \<Rightarrow> Some (a # as, h)))"

definition rb_hardconfig_init :: "rb_env \<Rightarrow> hc_state \<Rightarrow> (int \<times> hc_state) option" where
  "rb_hardconfig_init env h =
     (let h = h\<lparr>hc_buf := None, hc_kobj := False\<rparr> in
      if env_get_mtd_device env \<noteq> 0 then Some (- ENODEV, h)
      else let h = h\<lparr>hc_buflen := env_mtd_size env\<rparr> in
      case env_kmalloc env Alloc_hcbuf (env_mtd_size env) of
        None \<Rightarrow> Some (- ENOMEM, h)
      | Some fresh \<Rightarrow>
          (let (ret, bytes) = env_mtd_read env; buf = memcpy_at fresh 0 bytes in
           if ret \<noteq> 0 then Some (ret, h)
           else if length bytes \<noteq> hc_buflen h then Some (- EIO, h)
           else case cpu_u32 (env_be env) buf 0 of
             None \<Rightarrow> None
           | Some magic \<Rightarrow>
               if magic \<noteq> RB_MAGIC_HARD then Some (- EINVAL, h)
               else if \<not> env_kobject_create env ''hard_config'' then Some (- ENOMEM, h)
               else case hc_publish_tags env buf (hc_attrs h) (h\<lparr>hc_buf := Some buf, hc_kobj := True\<rparr>) of
                 None \<Rightarrow> None
               | Some (as, h) \<Rightarrow> Some (0, h\<lparr>hc_attrs := as\<rparr>)))"

definition rb_hardconfig_exit :: "hc_state \<Rightarrow> hc_state" where
  "rb_hardconfig_exit h = h\<lparr>hc_kobj := False, hc_buf := None, hc_files := []\<rparr>"

section \<open>Calibration data end to end\<close>

lemma size_sub_le: "b \<le> a \<Longrightarrow> a < 2 ^ 32 \<Longrightarrow> size_sub a b = a - b"
proof -
  assume "b \<le> a" "a < 2 ^ 32"
  then have "a + (SIZE_MAX + 1) - b = (a - b) + (SIZE_MAX + 1)" by simp
  moreover have "a - b < SIZE_MAX + 1" using \<open>a < 2 ^ 32\<close> by (simp add: SIZE_MAX_def)
  ultimately show ?thesis by (simp only: size_sub_def mod_add_self2 mod_less)
qed

lemma find_erd_words:
  assumes "RB_MAGIC_ERD \<notin> set ws" and "length pre + 4 * length ws < templen"
  shows "hc_find_erd be (pre @ concat (map (cpu_u32_bytes be) ws) @
           cpu_u32_bytes be RB_MAGIC_ERD @ post) templen (length pre) =
         Some (Inr (length pre + 4 * length ws + 4))"
  using assms
proof (induction ws arbitrary: pre)
  case Nil
  then show ?case
    using cpu_u32_at [of be pre RB_MAGIC_ERD post] by (subst hc_find_erd.simps) simp
next
  case (Cons w ws)
  let ?post = "concat (map (cpu_u32_bytes be) ws) @ cpu_u32_bytes be RB_MAGIC_ERD @ post"
  show ?case
    using cpu_u32_at [of be pre w ?post] Cons.IH [of "pre @ cpu_u32_bytes be w"] Cons.prems
    by (subst hc_find_erd.simps) auto
qed

text \<open>The contents of a decompressed blob: words, the magic number, and tags.\<close>

definition erd_blob :: "bool \<Rightarrow> byte \<Rightarrow> u32 list \<Rightarrow> (u16 \<times> byte list) list \<Rightarrow> byte list" where
  "erd_blob be pad ws ts =
     concat (map (cpu_u32_bytes be) ws) @ cpu_u32_bytes be RB_MAGIC_ERD @ tags_bytes be pad ts"

lemma length_words [simp]: "length (concat (map (cpu_u32_bytes be) ws)) = 4 * length ws"
  by (induction ws) auto

lemma unpack_tagged_rle:
  assumes "RB_MAGIC_ERD \<notin> set ws" and "list_all tag_ok (before @ [(tag, rle_encode ts)])"
    and "tag \<notin> fst ` set before" and "list_all rle_ok ts" and "ts \<noteq> []"
    and "length (rle_expand ts) \<le> outlen" and "outlen \<le> length outbuf"
    and "blob = erd_blob (env_be env) pad ws (before @ [(tag, rle_encode ts)]) @ rest"
    and "length blob \<le> 65536"
  shows "hc_unpack_tagged_rle env tag (blob @ junk) (length blob) outbuf outlen =
         Some (0, rle_expand ts @ drop (length (rle_expand ts)) outbuf, length (rle_expand ts))"
proof -
  let ?be = "env_be env" and ?rle = "rle_encode ts"
  let ?needle = "4 * length ws + 4" and ?n = "length (tags_bytes (env_be env) pad before) + 4"
  let ?pad = "replicate ((4 - length ?rle mod 4) mod 4) pad"
  let ?tags = "tags_bytes ?be pad (before @ [(tag, ?rle)])"
  have ne: "2 \<le> length ?rle" using assms(4,5) by (rule rle_encode_length)
  have blob: "blob @ junk = (concat (map (cpu_u32_bytes ?be) ws) @ cpu_u32_bytes ?be RB_MAGIC_ERD) @
      ?tags @ rest @ junk"
    by (simp add: assms(8) erd_blob_def)
  have tags: "?tags = (tags_bytes ?be pad before @ cpu_u32_bytes ?be (tag_node (tag, ?rle))) @ ?rle @ ?pad"
    by (simp add: tags_bytes_def tag_bytes_def)
  have len: "length blob = ?needle + length ?tags + length rest"
    by (simp add: assms(8) erd_blob_def)
  have len_tags: "length ?tags = ?n + length ?rle + length ?pad"
    by (subst tags) simp
  have find: "hc_find_erd ?be (blob @ junk) (length blob) 0 = Some (Inr ?needle)"
    using find_erd_words [OF assms(1), of "[]" "length blob" ?be] len
    by (simp add: assms(8) erd_blob_def)
  have at: "drop ?needle (blob @ junk) = ?tags @ rest @ junk" by (subst blob) simp
  have sub: "size_sub (length blob) ?needle = length ?tags + length rest"
    using len assms(9) by (subst size_sub_le) auto
  have tag_find: "routerboot_tag_find ?be (Some (?tags @ rest @ junk)) (length ?tags + length rest) tag =
      Some (Inr (of_nat ?n, of_nat (length ?rle)))"
    using len_tags ne by (intro tag_find_at assms(2,3)) linarith
  have un: "unat (of_nat ?n :: u16) = ?n" "unat (of_nat (length ?rle) :: u16) = length ?rle"
    using assms(9) len len_tags by (simp_all add: unat_of_nat take_bit_nat_eq_self del: of_nat_add)
  have "drop (?needle + ?n) (blob @ junk) = drop ?n (?tags @ rest @ junk)"
    by (simp only: at [symmetric] drop_drop) (simp add: add.commute)
  also have "\<dots> = ?rle @ ?pad @ rest @ junk" by (subst tags) simp
  finally have rle: "drop (?needle + ?n) (blob @ junk) = ?rle @ ?pad @ rest @ junk" .
  have dec: "routerboot_rle_decode (Some (?rle @ ?pad @ rest @ junk)) (length ?rle) (Some outbuf) outlen =
      Some (0, Some (rle_expand ts @ drop (length (rle_expand ts)) outbuf), length (rle_expand ts))"
    using rle_decode_tokens [OF assms(4) _ _ assms(6,7), of 0] ne by simp
  have fits: "\<not> length ?tags + length rest < length ?rle" using len_tags by linarith
  show ?thesis
    by (simp only: hc_unpack_tagged_rle_def find at sub tag_find rle un dec fits Let_def option.case
        sum.case prod.case if_False)
qed



text \<open>Reading a calibration file gives slices of the unpacked data: whatever the offset and
  the count, the bytes returned are those of the data from the offset on, at most \<open>count\<close> of
  them, none behind its end, and the result is their number; the rest of the buffer, which
  held uninitialised memory, is never given out.\<close>

theorem hc_read_is_slice:
  assumes "pld_len attr \<noteq> 0" and "env_kmalloc env Alloc_outbuf RB_ART_SIZE = Some fresh"
    and "hc_buf h = Some buf"
    and "hc_wlan_data_unpack env buf (hc_buflen h) (tag_id attr) (unat (pld_ofs attr))
           (unat (pld_len attr)) fresh RB_ART_SIZE = Some (0, out, n)"
    and "n \<le> length out"
  shows "hc_wlan_data_bin_read env h attr off count =
         Some (int (length (take count (drop off (take n out)))), take count (drop off (take n out)))"
proof -
  have "\<not> RB_ART_SIZE < unat (pld_len attr)"
    using unat_bound [of "pld_len attr"] by (simp add: RB_ART_SIZE_def)
  then show ?thesis
    using assms
    by (auto simp: hc_wlan_data_bin_read_def Let_def drop_take min_def)
qed

theorem hc_read_is_slice_witness:
  "hc_wlan_data_bin_read
     \<lparr>env_be = False, env_lzo1x_decompress_safe = (\<lambda>i out n. (0, out, n)),
      env_kmalloc = (\<lambda>site n. Some (replicate n 0)), env_get_mtd_device = 0, env_mtd_size = 0,
      env_mtd_read = (0, []), env_kobject_create = (\<lambda>n. True), env_sysfs_create = (\<lambda>n. True)\<rparr>
     \<lparr>hc_buf = Some [3, 9, 2, 8], hc_buflen = 4, hc_kobj = True, hc_attrs = [],
      hc_wd_solo_battr = hc_wd_solo_battr_init, hc_wd_multi_battrs = [], hc_files = []\<rparr>
     \<lparr>tag_id = 1, attr_name = ''wlan_data'', attr_tshow = Show_none, pld_ofs = 0, pld_len = 4\<rparr> 1 3 = Some (3, [9, 9, 8])"
proof -
  let ?env = "\<lparr>env_be = False, env_lzo1x_decompress_safe = (\<lambda>i out n. (0, out, n)),
      env_kmalloc = (\<lambda>site n. Some (replicate n 0)), env_get_mtd_device = 0, env_mtd_size = 0,
      env_mtd_read = (0, []), env_kobject_create = (\<lambda>n. True), env_sysfs_create = (\<lambda>n. True)\<rparr>"
  let ?h = "\<lparr>hc_buf = Some [3, 9, 2, 8], hc_buflen = 4, hc_kobj = True, hc_attrs = [],
      hc_wd_solo_battr = hc_wd_solo_battr_init, hc_wd_multi_battrs = [], hc_files = []\<rparr>"
  have e: "rle_encode [Run 3 9, Run 2 8] = [3, 9, 2, 8]" "rle_expand [Run 3 9, Run 2 8] = [9, 9, 9, 8, 8]"
    by (simp_all add: rle_encode_def rle_expand_def eval_nat_numeral)
  have art: "5 \<le> RB_ART_SIZE" by (simp add: RB_ART_SIZE_def)
  have rle: "routerboot_rle_decode (Some [3, 9, 2, 8]) 4 (Some (replicate RB_ART_SIZE 0)) RB_ART_SIZE =
      Some (0, Some ([9, 9, 9, 8, 8] @ drop 5 (replicate RB_ART_SIZE 0)), 5)"
    using rle_decode_tokens [of "[Run 3 9, Run 2 8]" 0 RB_ART_SIZE "replicate RB_ART_SIZE 0" "[]"] art
    by (simp add: e del: drop_replicate) (simp add: eval_nat_numeral del: drop_replicate)
  have "cpu_u32 False [3, 9, 2, 8] 0 = Some 0x08020903"
    by (simp add: cpu_u32_def)
  then have "hc_wlan_data_unpack ?env [3, 9, 2, 8] 4 1 0 4 (replicate RB_ART_SIZE 0) RB_ART_SIZE =
      Some (0, [9, 9, 9, 8, 8] @ drop 5 (replicate RB_ART_SIZE 0), 5)"
    using rle by (simp add: hc_wlan_data_unpack_def RB_MAGIC_LZ77_def RB_MAGIC_LZOR_def RB_MAGIC_ERD_def)
  then show ?thesis
    using hc_read_is_slice [of "\<lparr>tag_id = 1, attr_name = ''wlan_data'', attr_tshow = Show_none, pld_ofs = 0, pld_len = 4\<rparr>" ?env
        "replicate RB_ART_SIZE 0" ?h "[3, 9, 2, 8]" _ _ 1 3] by simp
qed

section \<open>Locating the tags\<close>

definition attr_located :: "byte list \<Rightarrow> (u16 \<times> byte list) list \<Rightarrow> hc_attr \<Rightarrow> bool" where
  "attr_located img ts a =
     (case map_of ts (tag_id a) of
        None \<Rightarrow> pld_len a = 0
      | Some pld \<Rightarrow> take (unat (pld_len a)) (drop (unat (pld_ofs a)) img) = pld)"

lemma map_of_split_first:
  "map_of ts k = Some v \<Longrightarrow> \<exists>us vs. ts = us @ (k, v) # vs \<and> k \<notin> fst ` set us"
proof (induction ts)
  case (Cons t ts)
  show ?case
  proof (cases "fst t = k")
    case True
    then show ?thesis using Cons.prems by (intro exI [of _ "[]"] exI [of _ ts]) (cases t, auto)
  next
    case False
    then obtain us vs where "ts = us @ (k, v) # vs" "k \<notin> fst ` set us"
      using Cons by (cases t) auto
    then show ?thesis using False by (intro exI [of _ "t # us"] exI [of _ vs]) auto
  qed
qed simp

text \<open>The result of the search that the driver makes for one attribute.\<close>

lemma tag_find_lookup:
  assumes "list_all tag_ok ts" and "k \<noteq> 0" and "post = [] \<or> take 4 post = cpu_u32_bytes be 0"
    and "buf = tags_bytes be pad ts @ post" and "length buf + 4 < 65536" and "length magic = 4"
  shows "\<exists>r. routerboot_tag_find be (Some buf) (length buf) k = Some r \<and>
     (case map_of ts k of
        None \<Rightarrow> r = Inl (- ENOENT)
      | Some pld \<Rightarrow> \<exists>ofs len. r = Inr (ofs, len) \<and> len \<noteq> 0 \<and>
          take (unat len) (drop (unat (ofs + 4)) (magic @ buf)) = pld)"
proof (cases "map_of ts k")
  case None
  then have "k \<notin> fst ` set ts" by (simp add: map_of_eq_None_iff)
  from tag_find_none [OF assms(1) this assms(2,3)] None assms(4) show ?thesis by simp
next
  case (Some pld)
  from map_of_split_first [OF this] obtain us vs
    where ts: "ts = us @ (k, pld) # vs" and k: "k \<notin> fst ` set us" by blast
  have buf: "buf = tags_bytes be pad (us @ [(k, pld)]) @ (tags_bytes be pad vs @ post)"
    by (simp add: assms(4) ts tags_bytes_def)
  obtain ofs len where f: "routerboot_tag_find be (Some buf) (length buf) k = Some (Inr (ofs, len))"
    and p: "take (unat len) (drop (unat ofs) buf) = pld" "unat ofs + unat len \<le> length buf" "len \<noteq> 0"
    using tag_find_some [OF _ k buf] assms(1,5) ts by auto
  have "unat (ofs + 4) = unat ofs + 4"
    using p(2) assms(5) by (simp add: unat_word_ariths)
  then show ?thesis using f p Some assms(6) by auto
qed

text \<open>The steps that publish entries leave the buffer alone.\<close>

lemma publish_frame [frame_simps]:
  "hc_buf (hc_publish env n h) = hc_buf h" "hc_buflen (hc_publish env n h) = hc_buflen h"
  by (simp_all add: hc_publish_def)

lemma publish_multi_frame:
  "hc_publish_multi env buf wd as out h = Some (ms, h') \<Longrightarrow>
   hc_buf h' = hc_buf h \<and> hc_buflen h' = hc_buflen h"
  by (induction env buf wd as out h arbitrary: ms h' rule: hc_publish_multi.induct)
     (fastforce simp: frame_simps split: option.splits if_splits prod.splits)+

lemma publish_wlan_frame:
  "hc_publish_wlan env buf wd h = Some h' \<Longrightarrow> hc_buf h' = hc_buf h \<and> hc_buflen h' = hc_buflen h"
  by (auto simp: hc_publish_wlan_def frame_simps dest!: publish_multi_frame
      split: option.splits if_splits)

lemma publish_tags_located:
  assumes "hc_publish_tags env (magic @ buf) as h = Some (as', h')"
    and "list_all tag_ok ts" and "post = [] \<or> take 4 post = cpu_u32_bytes (env_be env) 0"
    and "buf = tags_bytes (env_be env) pad ts @ post" and "length buf + 4 < 65536"
    and "length magic = 4" and "0 \<notin> tag_id ` set as" and "hc_buflen h = length (magic @ buf)"
  shows "hc_buf h' = hc_buf h \<and> map tag_id as' = map tag_id as \<and>
         list_all (attr_located (magic @ buf) ts) as'"
  using assms
proof (induction as arbitrary: h as')
  case (Cons a as)
  have sub: "size_sub (hc_buflen h) 4 = length buf"
    using Cons.prems(5,6,8) by (simp add: size_sub_le)
  obtain r where r: "routerboot_tag_find (env_be env) (Some buf) (length buf) (tag_id a) = Some r"
    and r': "case map_of ts (tag_id a) of
        None \<Rightarrow> r = Inl (- ENOENT)
      | Some pld \<Rightarrow> \<exists>ofs len. r = Inr (ofs, len) \<and> len \<noteq> 0 \<and>
          take (unat len) (drop (unat (ofs + 4)) (magic @ buf)) = pld"
    using tag_find_lookup [OF Cons.prems(2) _ Cons.prems(3,4,5,6), of "tag_id a"] Cons.prems(7)
    by auto
  define b where "b = (case r of Inl _ \<Rightarrow> a\<lparr>pld_ofs := 0, pld_len := 0\<rparr>
                       | Inr (ofs, len) \<Rightarrow> a\<lparr>pld_ofs := ofs + 4, pld_len := len\<rparr>)"
  have b: "tag_id b = tag_id a" "attr_located (magic @ buf) ts b"
    using r' by (auto simp: b_def attr_located_def split: option.splits sum.splits)
  define g where "g = (case r of Inl _ \<Rightarrow> Some h | Inr _ \<Rightarrow>
      if tag_id b = RB_ID_WLAN_DATA \<and> pld_len b \<noteq> 0 then hc_publish_wlan env (magic @ buf) b h
      else Some (hc_publish env (attr_name b) h))"
  have "(case g of None \<Rightarrow> None | Some h \<Rightarrow> (case hc_publish_tags env (magic @ buf) as h of
          None \<Rightarrow> None | Some (as, h) \<Rightarrow> Some (b # as, h))) = Some (as', h')"
    using Cons.prems(1,6) r sub unfolding b_def g_def by (simp add: Let_def)
  then obtain h1 bs where g: "g = Some h1" and as': "as' = b # bs"
    and rest: "hc_publish_tags env (magic @ buf) as h1 = Some (bs, h')"
    by (auto split: option.splits)
  have "hc_buf h1 = hc_buf h" "hc_buflen h1 = hc_buflen h"
    using g by (auto simp: g_def frame_simps dest: publish_wlan_frame split: sum.splits if_splits)
  with Cons.IH [OF rest Cons.prems(2-6)] Cons.prems(7,8) b as' show ?case by auto
qed simp

text \<open>C17: After a start that returns, the table of the driver describes the flash: for an image
  of less than 64 KiB that holds the magic number and well-formed tags, the start succeeds with
  the image as its buffer, and every entry of \<open>hc_attrs\<close> delimits the payload of the first tag
  with its number, or is empty when there is none.\<close>

theorem hc_init_locates_tags:
  assumes "rb_hardconfig_init env h = Some (ret, h')"
    and "env_get_mtd_device env = 0" and "env_mtd_size env = length img"
    and "env_kmalloc env Alloc_hcbuf (length img) = Some fresh" and "length fresh = length img"
    and "env_mtd_read env = (0, img)" and "env_kobject_create env ''hard_config''"
    and "img = cpu_u32_bytes (env_be env) RB_MAGIC_HARD @ tags_bytes (env_be env) pad ts @ post"
    and "list_all tag_ok ts" and "post = [] \<or> take 4 post = cpu_u32_bytes (env_be env) 0"
    and "length img < 65536" and "0 \<notin> tag_id ` set (hc_attrs h)"
  shows "ret = 0 \<and> hc_buf h' = Some img \<and> map tag_id (hc_attrs h') = map tag_id (hc_attrs h) \<and>
         list_all (attr_located img ts) (hc_attrs h')"
proof -
  let ?buf = "tags_bytes (env_be env) pad ts @ post"
  let ?h = "h\<lparr>hc_buflen := length img, hc_buf := Some img, hc_kobj := True\<rparr>"
  have magic: "cpu_u32 (env_be env) img 0 = Some RB_MAGIC_HARD"
    using cpu_u32_at [of "env_be env" "[]" RB_MAGIC_HARD ?buf] by (simp add: assms(8))
  have buf: "memcpy_at fresh 0 img = img" using assms(5) by (simp add: memcpy_at_whole)
  obtain as h1 where run: "hc_publish_tags env img (hc_attrs h) ?h = Some (as, h1)"
    and h': "ret = 0" "h' = h1\<lparr>hc_attrs := as\<rparr>"
    using assms(1-7) magic buf
    by (auto simp: rb_hardconfig_init_def Let_def split: option.splits)
  from publish_tags_located [OF run [unfolded assms(8)] assms(9,10) refl]
  show ?thesis using assms(8,11,12) h' by simp
qed

theorem hc_init_locates_tags_witness:
  "\<exists>h'. rb_hardconfig_init
     \<lparr>env_be = False, env_lzo1x_decompress_safe = (\<lambda>i out n. (0, out, n)),
      env_kmalloc = (\<lambda>site n. Some (replicate n 0)), env_get_mtd_device = 0, env_mtd_size = 12,
      env_mtd_read = (0, [72, 97, 114, 100, 11, 0, 2, 0, 65, 66, 0, 0]),
      env_kobject_create = (\<lambda>n. True), env_sysfs_create = (\<lambda>n. True)\<rparr>
     \<lparr>hc_buf = None, hc_buflen = 0, hc_kobj = False, hc_attrs = [hc_attr_init 0x0B ''board_serial'' Show_string],
      hc_wd_solo_battr = hc_wd_solo_battr_init, hc_wd_multi_battrs = hc_wd_multi_battrs_init,
      hc_files = []\<rparr> = Some (0, h') \<and>
     list_all (attr_located [72, 97, 114, 100, 11, 0, 2, 0, 65, 66, 0, 0] [(0x0B, [65, 66])]) (hc_attrs h')"
proof -
  let ?img = "[72, 97, 114, 100, 11, 0, 2, 0, 65, 66, 0, 0] :: byte list"
  let ?env = "\<lparr>env_be = False, env_lzo1x_decompress_safe = (\<lambda>i out n. (0, out, n)),
      env_kmalloc = (\<lambda>site n. Some (replicate n 0)), env_get_mtd_device = 0, env_mtd_size = 12,
      env_mtd_read = (0, ?img), env_kobject_create = (\<lambda>n. True), env_sysfs_create = (\<lambda>n. True)\<rparr>"
  let ?h = "\<lparr>hc_buf = None, hc_buflen = 0, hc_kobj = False,
      hc_attrs = [hc_attr_init 0x0B ''board_serial'' Show_string],
      hc_wd_solo_battr = hc_wd_solo_battr_init, hc_wd_multi_battrs = hc_wd_multi_battrs_init,
      hc_files = []\<rparr>"
  have two: "replicate 2 (0 :: byte) = [0, 0]" by (simp add: numeral_2_eq_2)
  have twelve: "replicate 12 (0 :: byte) = [0, 0, 0, 0, 0, 0, 0, 0, 0, 0, 0, 0]"
    by (simp add: eval_nat_numeral)
  have img: "?img = cpu_u32_bytes (env_be ?env) RB_MAGIC_HARD @
      tags_bytes (env_be ?env) 0 [(0x0B, [65, 66])] @ []"
    by (simp add: cpu_u32_bytes_def le32_bytes_def RB_MAGIC_HARD_def tags_bytes_def tag_bytes_def
        tag_node_def two)
  have node: "cpu_u32 False ?img 0 = Some RB_MAGIC_HARD"
     "cpu_u32 False (drop 4 ?img) 0 = Some 0x0002000B"
    by (simp_all add: cpu_u32_def RB_MAGIC_HARD_def)
  have "\<exists>h'. rb_hardconfig_init ?env ?h = Some (0, h')"
    using node
    by (simp add: rb_hardconfig_init_def memcpy_at_whole hc_attr_init_def size_sub_le
        routerboot_tag_find_def routerboot_tag_find_loop.simps Let_def)
  then obtain h' where "rb_hardconfig_init ?env ?h = Some (0, h')" by blast
  from this hc_init_locates_tags [OF this _ _ _ _ _ _ img, of "replicate 12 0"] show ?thesis
    by (simp add: tag_ok_def hc_attr_init_def twelve)
qed

end
