(* ===== verification/Rb_Nvmem.thy ===== *)
theory Rb_Nvmem
  imports Rb_Hardconfig
begin

text \<open>
  The NVMEM layout of the hard configuration
  (\<open>src/target/linux/generic/files/drivers/platform/mikrotik/rb_nvmem.c\<close>): a second parser of
  the tags, which registers a cell for every known tag. Parameters stand for the NVMEM core and
  for the Ethernet address helpers. Offsets stay below the length of the data plus one payload
  and are natural numbers.
\<close>

section \<open>Cells\<close>

record nvmem_cell_info =
  cell_name :: string
  cell_offset :: nat
  cell_bytes :: nat
  cell_mac_cb :: bool

definition rb_tlv_cell_name :: "u16 \<Rightarrow> string option" where
  "rb_tlv_cell_name tag =
     map_of [(0x03, ''flash-info''), (0x04, ''base-mac-address''), (0x05, ''board-product-code''),
             (0x06, ''booter-version''), (0x0B, ''board-serial''), (0x0D, ''mem-size''),
             (0x0E, ''mac-count''), (0x15, ''hw-options''), (0x16, ''wlan-data''),
             (0x17, ''board-identifier''), (0x21, ''product-name''), (0x26, ''defconf''),
             (0x27, ''board-revision'')] tag"

abbreviation RB_ID_MAC_ADDRESS_PACK :: u16 where "RB_ID_MAC_ADDRESS_PACK \<equiv> 0x04"

abbreviation ETH_ALEN :: nat where "ETH_ALEN \<equiv> 6"

definition rb_tlv_read_cb :: "u16 \<Rightarrow> bool" where
  "rb_tlv_read_cb tag \<longleftrightarrow> tag = RB_ID_MAC_ADDRESS_PACK"

text \<open>The callback on the bytes of an address, with \<open>is_valid_ether_addr\<close> and \<open>eth_addr_add\<close>.\<close>

definition rb_tlv_mac_read_cb ::
  "(byte list \<Rightarrow> bool) \<Rightarrow> (byte list \<Rightarrow> int \<Rightarrow> byte list) \<Rightarrow> int \<Rightarrow> byte list \<Rightarrow> int \<times> byte list" where
  "rb_tlv_mac_read_cb valid add index buf =
     (if index < 0 then (- EINVAL, buf)
      else if \<not> valid buf then (- EINVAL, buf)
      else (0, add buf index))"

text \<open>\<open>ALIGN(tlv_len, 4)\<close>, here in the arithmetic of \<open>int\<close>.\<close>

definition tlv_align :: "nat \<Rightarrow> nat" where
  "tlv_align n = 4 * ((n + 3) div 4)"

text \<open>The loop of \<open>rb_add_cells\<close>; \<open>add_one\<close> is \<open>nvmem_add_one_cell\<close>. The result is the code
  and the cells added.\<close>

function rb_add_cells_loop ::
  "(nvmem_cell_info \<Rightarrow> int) \<Rightarrow> bool \<Rightarrow> byte list \<Rightarrow> nat \<Rightarrow> nvmem_cell_info list \<Rightarrow>
     (int \<times> nvmem_cell_info list) option" where
  "rb_add_cells_loop add_one be data offset cells =
     (if offset + 4 \<le> length data then
        case cpu_u32 be data offset of
          None \<Rightarrow> None
        | Some node \<Rightarrow>
            if node = 0 then Some (0, cells)
            else let tlv_tag = (ucast (node AND 0xFFFF) :: u16);
                     tlv_len = unat (ucast (drop_bit 16 node) :: u16);
                     next_offset = offset + 4 + tlv_align tlv_len
                 in if length data < offset + 4 + tlv_len then Some (0, cells)
                    else case rb_tlv_cell_name tlv_tag of
                      None \<Rightarrow> rb_add_cells_loop add_one be data next_offset cells
                    | Some name \<Rightarrow>
                        let cell = \<lparr>cell_name = name, cell_offset = offset + 4,
                              cell_bytes = (if tlv_tag = RB_ID_MAC_ADDRESS_PACK then ETH_ALEN else tlv_len),
                              cell_mac_cb = rb_tlv_read_cb tlv_tag\<rparr>;
                            ret = add_one cell
                        in if ret \<noteq> 0 then Some (ret, cells)
                           else rb_add_cells_loop add_one be data next_offset (cells @ [cell])
      else Some (0, cells))"
  by pat_completeness auto
termination
  by (relation "measure (\<lambda>(add_one, be, data, offset, cells). length data - offset)") auto

declare rb_add_cells_loop.simps [simp del]

definition rb_add_cells ::
  "bool \<Rightarrow> (nvmem_cell_info \<Rightarrow> int) \<Rightarrow> bool \<Rightarrow> byte list \<Rightarrow> (int \<times> nvmem_cell_info list) option" where
  "rb_add_cells layout add_one be data =
     (if \<not> layout then Some (- ENOENT, []) else rb_add_cells_loop add_one be data 4 [])"

text \<open>\<open>rb_parse_table\<close>: \<open>read n\<close> is \<open>nvmem_device_read\<close> of the first \<open>n\<close> bytes, a negative code or
  the number of bytes with the bytes; \<open>kmalloc_ok\<close> tells whether \<open>devm_kmalloc\<close> succeeds.\<close>

definition rb_parse_table ::
  "bool \<Rightarrow> (nvmem_cell_info \<Rightarrow> int) \<Rightarrow> bool \<Rightarrow> (nat \<Rightarrow> int \<times> byte list) \<Rightarrow> nat \<Rightarrow> bool \<Rightarrow>
     (int \<times> nvmem_cell_info list) option" where
  "rb_parse_table layout add_one be read mtd_size kmalloc_ok =
     (let (ret, hdr) = read 4 in
      if ret < 0 then Some (ret, [])
      else case cpu_u32 be hdr 0 of
        None \<Rightarrow> None
      | Some magic \<Rightarrow>
          if magic \<noteq> RB_MAGIC_HARD then Some (- EINVAL, [])
          else if \<not> kmalloc_ok then Some (- ENOMEM, [])
          else let (ret, data) = read mtd_size in
               if ret \<noteq> int mtd_size then Some (ret, [])
               else rb_add_cells layout add_one be data)"

section \<open>The cells of an image\<close>

text \<open>The cells that tags from offset \<open>ofs\<close> on call for.\<close>

fun tag_cells :: "nat \<Rightarrow> (u16 \<times> byte list) list \<Rightarrow> nvmem_cell_info list" where
  "tag_cells ofs [] = []"
| "tag_cells ofs (t # ts) =
     (case rb_tlv_cell_name (fst t) of
        None \<Rightarrow> []
      | Some name \<Rightarrow>
          [\<lparr>cell_name = name, cell_offset = ofs + 4,
            cell_bytes = (if fst t = RB_ID_MAC_ADDRESS_PACK then ETH_ALEN else length (snd t)),
            cell_mac_cb = (fst t = RB_ID_MAC_ADDRESS_PACK)\<rparr>]) @
     tag_cells (ofs + tag_size t) ts"

lemma add_cells_tags:
  assumes "list_all tag_ok ts" and "post = [] \<or> take 4 post = cpu_u32_bytes be 0"
    and "\<And>c. add_one c = 0"
  shows "rb_add_cells_loop add_one be (pre @ tags_bytes be pad ts @ post) (length pre) cells =
         Some (0, cells @ tag_cells (length pre) ts)"
  using assms(1)
proof (induction ts arbitrary: pre cells)
  case Nil
  show ?case
  proof (cases "post = []")
    case True
    then show ?thesis by (simp add: tags_bytes_def rb_add_cells_loop.simps)
  next
    case False
    then have "post = cpu_u32_bytes be 0 @ drop 4 post"
      using assms(2) append_take_drop_id [of 4 post] by simp
    then have "cpu_u32 be (pre @ post) (length pre) = Some 0"
      using cpu_u32_at [of be pre 0 "drop 4 post"] by simp
    moreover from this have "length pre + 4 \<le> length (pre @ post)"
      by (simp add: cpu_u32_def split: if_splits)
    ultimately show ?thesis by (subst rb_add_cells_loop.simps) (simp add: tags_bytes_def)
  qed
next
  case (Cons t ts)
  let ?buf = "pre @ tags_bytes be pad (t # ts) @ post"
  have buf: "?buf = (pre @ tag_bytes be pad t) @ tags_bytes be pad ts @ post"
    by (simp add: tags_bytes_def)
  have node: "cpu_u32 be ?buf (length pre) = Some (tag_node t)"
    using cpu_u32_at [of be pre "tag_node t"] by (simp add: tags_bytes_def tag_bytes_def)
  have ok: "fst t \<noteq> 0" "length (snd t) \<le> 0xFFFC" using Cons.prems by (auto simp: tag_ok_def)
  have len: "unat (of_nat (length (snd t)) :: u16) = length (snd t)"
    using ok by (simp add: unat_of_nat take_bit_nat_eq_self)
  have size: "length pre + tag_size t \<le> length ?buf" "4 + length (snd t) \<le> tag_size t"
    using pad_to_word [of "length (snd t)"] by (simp_all add: buf tag_size_def)
  have IH: "rb_add_cells_loop add_one be ?buf (length pre + tag_size t) cs =
      Some (0, cs @ tag_cells (length pre + tag_size t) ts)" for cs
    using Cons.IH [of "pre @ tag_bytes be pad t" cs] Cons.prems by (simp add: buf)
  show ?case
    using node tag_node_nonzero [OF ok(1)] size IH assms(3)
    by (subst rb_add_cells_loop.simps)
       (auto simp: tag_node_fields len Let_def tlv_align_def tag_size_def rb_tlv_read_cb_def add.assoc
          split: option.splits)
qed

text \<open>What the cells should hold: name and bytes of every known tag, in the order of the image.\<close>

definition tag_contents :: "(u16 \<times> byte list) list \<Rightarrow> (string \<times> byte list) list" where
  "tag_contents ts =
     concat (map (\<lambda>t. case rb_tlv_cell_name (fst t) of
                        None \<Rightarrow> []
                      | Some name \<Rightarrow>
                          [(name, if fst t = RB_ID_MAC_ADDRESS_PACK then take ETH_ALEN (snd t) else snd t)]) ts)"

definition cell_contents :: "byte list \<Rightarrow> nvmem_cell_info \<Rightarrow> string \<times> byte list" where
  "cell_contents img c = (cell_name c, take (cell_bytes c) (drop (cell_offset c) img))"

lemma tag_cells_contents:
  assumes "\<forall>t\<in>set ts. fst t = RB_ID_MAC_ADDRESS_PACK \<longrightarrow> ETH_ALEN \<le> length (snd t)"
  shows "map (cell_contents (pre @ tags_bytes be pad ts @ post)) (tag_cells (length pre) ts) = tag_contents ts"
  using assms
proof (induction ts arbitrary: pre)
  case (Cons t ts)
  let ?buf = "pre @ tags_bytes be pad (t # ts) @ post"
  have buf: "?buf = (pre @ cpu_u32_bytes be (tag_node t)) @ snd t @
      replicate ((4 - length (snd t) mod 4) mod 4) pad @ tags_bytes be pad ts @ post"
    by (simp add: tags_bytes_def tag_bytes_def)
  have at: "take n (drop (length pre + 4) ?buf) = take n (snd t)" if "n \<le> length (snd t)" for n
    unfolding buf using that by simp
  have IH: "map (cell_contents ?buf) (tag_cells (length pre + tag_size t) ts) = tag_contents ts"
    using Cons.IH [of "pre @ tag_bytes be pad t"] Cons.prems by (simp add: tags_bytes_def)
  have "map (cell_contents ?buf) (tag_cells (length pre) (t # ts)) =
      (case rb_tlv_cell_name (fst t) of None \<Rightarrow> []
       | Some name \<Rightarrow> [(name, if fst t = RB_ID_MAC_ADDRESS_PACK then take ETH_ALEN (snd t) else snd t)]) @
      tag_contents ts"
    using IH at [of ETH_ALEN] at [of "length (snd t)"] Cons.prems
    by (simp add: cell_contents_def split: option.splits)
  then show ?case by (simp add: tag_contents_def)
qed (simp add: tag_contents_def tags_bytes_def)

text \<open>C18: The cells describe the image: for a partition that holds the magic number and
  well-formed tags, with a MAC tag of at least six bytes, parsing it registers without an error
  exactly one cell per known tag, in order, and each cell delimits the payload of its tag (the
  six bytes of the address for the MAC tag).\<close>

theorem nvmem_cells_of_image:
  assumes "img = cpu_u32_bytes be RB_MAGIC_HARD @ tags_bytes be pad ts @ post"
    and "list_all tag_ok ts" and "post = [] \<or> take 4 post = cpu_u32_bytes be 0"
    and "\<forall>t\<in>set ts. fst t = RB_ID_MAC_ADDRESS_PACK \<longrightarrow> ETH_ALEN \<le> length (snd t)"
    and "\<forall>c. add_one c = 0" and "\<forall>n \<le> length img. read n = (int n, take n img)"
  shows "\<exists>cells. rb_parse_table True add_one be read (length img) True = Some (0, cells) \<and>
           map (cell_contents img) cells = tag_contents ts"
proof -
  let ?m = "cpu_u32_bytes be RB_MAGIC_HARD"
  have hdr: "read 4 = (4, ?m)" "read (length img) = (int (length img), img)"
    using assms(6) by (simp_all add: assms(1))
  have magic: "cpu_u32 be ?m 0 = Some RB_MAGIC_HARD"
    using cpu_u32_at [of be "[]" RB_MAGIC_HARD "[]"] by simp
  have "rb_add_cells True add_one be img = Some (0, tag_cells 4 ts)"
    using add_cells_tags [OF assms(2,3), of add_one ?m pad "[]"] assms(5)
    by (simp add: rb_add_cells_def assms(1))
  then have "rb_parse_table True add_one be read (length img) True = Some (0, tag_cells 4 ts)"
    using hdr magic by (simp add: rb_parse_table_def)
  moreover have "map (cell_contents img) (tag_cells 4 ts) = tag_contents ts"
    using tag_cells_contents [OF assms(4), of ?m be pad post] by (simp add: assms(1))
  ultimately show ?thesis by blast
qed

theorem nvmem_cells_of_image_witness:
  "\<exists>cells. rb_parse_table True (\<lambda>c. 0) False
       (\<lambda>n. (int n, take n (cpu_u32_bytes False RB_MAGIC_HARD @
               tags_bytes False 0 [(0x0B, [65, 66]), (0x99, [1]), (0x04, [1, 2, 3, 4, 5, 6, 0, 0])] @ [])))
       (length (cpu_u32_bytes False RB_MAGIC_HARD @
               tags_bytes False 0 [(0x0B, [65, 66]), (0x99, [1]), (0x04, [1, 2, 3, 4, 5, 6, 0, 0])] @ []))
       True = Some (0, cells) \<and>
     map (cell_contents (cpu_u32_bytes False RB_MAGIC_HARD @
            tags_bytes False 0 [(0x0B, [65, 66]), (0x99, [1]), (0x04, [1, 2, 3, 4, 5, 6, 0, 0])] @ [])) cells =
     [(''board-serial'', [65, 66]), (''base-mac-address'', [1, 2, 3, 4, 5, 6])]"
proof -
  let ?ts = "[(0x0B, [65, 66]), (0x99, [1]), (0x04, [1, 2, 3, 4, 5, 6, 0, 0])] :: (u16 \<times> byte list) list"
  have "tag_contents ?ts = [(''board-serial'', [65, 66]), (''base-mac-address'', [1, 2, 3, 4, 5, 6])]"
    by (simp add: tag_contents_def rb_tlv_cell_name_def)
  moreover have "list_all tag_ok ?ts" by (simp add: tag_ok_def)
  ultimately show ?thesis
    using nvmem_cells_of_image [OF refl, where be = False and pad = 0 and ts = ?ts and post = "[]"
        and add_one = "\<lambda>c. 0"
        and read = "\<lambda>n. (int n, take n (cpu_u32_bytes False RB_MAGIC_HARD @ tags_bytes False 0 ?ts @ []))"]
    by simp
qed

text \<open>The cells collected so far stay within the data.\<close>

lemma add_cells_safe:
  assumes "\<forall>c\<in>set cells. cell_mac_cb c \<or> cell_offset c + cell_bytes c \<le> length data"
  shows "\<exists>ret cells'. rb_add_cells_loop add_one be data offset cells = Some (ret, cells') \<and>
           (\<forall>c\<in>set cells'. cell_mac_cb c \<or> cell_offset c + cell_bytes c \<le> length data)"
  using assms
proof (induction "length data - offset" arbitrary: offset cells rule: less_induct)
  case less
  show ?case
  proof (cases "offset + 4 \<le> length data")
    case False
    then show ?thesis using less.prems by (simp add: rb_add_cells_loop.simps)
  next
    case True
    then obtain node where node: "cpu_u32 be data offset = Some node" by (simp add: cpu_u32_def)
    let ?tag = "ucast (node AND 0xFFFF) :: u16" and ?len = "unat (ucast (drop_bit 16 node) :: u16)"
    let ?next = "offset + 4 + tlv_align ?len"
    have IH: "\<forall>c\<in>set cs. cell_mac_cb c \<or> cell_offset c + cell_bytes c \<le> length data \<Longrightarrow>
      \<exists>ret cells'. rb_add_cells_loop add_one be data ?next cs = Some (ret, cells') \<and>
        (\<forall>c\<in>set cells'. cell_mac_cb c \<or> cell_offset c + cell_bytes c \<le> length data)" for cs
      using True by (intro less.hyps) auto
    show ?thesis
    proof (cases "node = 0 \<or> length data < offset + 4 + ?len")
      case True
      then show ?thesis
        using node less.prems by (subst rb_add_cells_loop.simps) (auto simp: Let_def)
    next
      case ok: False
      show ?thesis
      proof (cases "rb_tlv_cell_name ?tag")
        case None
        then show ?thesis using node True ok IH [OF less.prems]
          by (subst rb_add_cells_loop.simps) (simp add: Let_def)
      next
        case (Some name)
        define cell where "cell = \<lparr>cell_name = name, cell_offset = offset + 4,
          cell_bytes = (if ?tag = RB_ID_MAC_ADDRESS_PACK then ETH_ALEN else ?len),
          cell_mac_cb = rb_tlv_read_cb ?tag\<rparr>"
        have "\<forall>c\<in>set (cells @ [cell]). cell_mac_cb c \<or> cell_offset c + cell_bytes c \<le> length data"
          using less.prems ok by (auto simp: cell_def rb_tlv_read_cb_def)
        from IH [OF this] node True ok Some less.prems show ?thesis
          by (subst rb_add_cells_loop.simps) (simp add: Let_def flip: cell_def)
      qed
    qed
  qed
qed

text \<open>C23: On any partition whatever the parser reads only the partition and returns, and every
  cell it registers, the MAC address apart, lies within the partition.\<close>

theorem nvmem_cells_in_bounds:
  "\<exists>ret cells. rb_add_cells layout add_one be data = Some (ret, cells) \<and>
     list_all (\<lambda>c. cell_mac_cb c \<or> cell_offset c + cell_bytes c \<le> length data) cells"
  using add_cells_safe [of "[]" data add_one be 4] by (auto simp: rb_add_cells_def list_all_iff)

end
