(* ===== verification/Rb_Softconfig.thy ===== *)
theory Rb_Softconfig
  imports Rb_Routerboot
begin

text \<open>
  The soft configuration of a RouterBOARD
  (\<open>src/target/linux/generic/files/drivers/platform/mikrotik/rb_softconfig.c\<close>): boot settings
  kept as tags of the \<open>soft_config\<close> partition behind a magic number and a checksum, shown and
  changed through sysfs files in a buffer, and written back by \<open>commit\<close>. A zero in the
  checksum field marks the buffer dirty.

  Parameters stand for the kernel: the MTD layer, \<open>kmalloc\<close>, \<open>crc32\<close>, the string helpers
  \<open>sysfs_streq\<close>, \<open>kstrtou32\<close> and \<open>kstrtobool\<close>, sysfs, and the board. The lock makes each
  access to the buffer atomic, so the operations are steps on one state.
\<close>

abbreviation EACCES :: int where "EACCES \<equiv> 13"
abbreviation EOPNOTSUPP :: int where "EOPNOTSUPP \<equiv> 95"

definition RB_MAGIC_SOFT :: u32 where "RB_MAGIC_SOFT = 0x74666F53"

abbreviation RB_SC_CRC32_OFFSET :: nat where "RB_SC_CRC32_OFFSET \<equiv> 4"

section \<open>Settings\<close>

type_synonym sc_u32tvs = "(u32 \<times> string) list"

definition sc_uartspeeds :: sc_u32tvs where
  "sc_uartspeeds =
     [(8, ''off''), (7, ''1200''), (6, ''2400''), (5, ''4800''), (4, ''9600''), (3, ''19200''),
      (2, ''38400''), (1, ''57600''), (0, ''115200'')]"

definition sc_bootdevices :: sc_u32tvs where
  "sc_bootdevices =
     [(0, ''eth''), (1, ''flasheth''), (3, ''ethonce''), (5, ''flash''), (7, ''cfg''), (8, ''cfgonce'')]"

text \<open>A Boolean setting: the strings for false and true.\<close>

type_synonym sc_boolts = "string \<times> string"

definition sc_bootkey :: sc_boolts where "sc_bootkey = (''any'', ''del'')"
definition sc_cpumode :: sc_boolts where "sc_cpumode = (''powersave'', ''regular'')"
definition sc_bootproto :: sc_boolts where "sc_bootproto = (''bootp'', ''dhcp'')"
definition sc_booter :: sc_boolts where "sc_booter = (''regular'', ''backup'')"
definition sc_silent_boot :: sc_boolts where "sc_silent_boot = (''off'', ''on'')"

definition sc_cpufreq_indexes_ath79_9x :: sc_u32tvs where
  "sc_cpufreq_indexes_ath79_9x =
     [(0, ''a''), (0x8, ''b''), (0x10, ''c''), (0x18, ''d''), (0x20, ''e''), (0x28, ''f'')]"

definition sc_cpufreq_indexes_ath79_7x :: sc_u32tvs where
  "sc_cpufreq_indexes_ath79_7x =
     [(0, ''a''), (0x90, ''b''), (0x120, ''c''), (0x1B0, ''d''), (0x240, ''e''), (0x2D0, ''f''),
      (0x360, ''g''), (0x3F0, ''h'')]"

text \<open>The chips that the accessors of the CPU frequency tell apart.\<close>

datatype sc_soc =
  SOC_AR7161 | SOC_AR71XX | SOC_AR724X | SOC_AR9344 | SOC_QCA953X | SOC_QCA9556 | SOC_QCA9558 |
  SOC_OTHER

definition sc_tag_cpufreq_ath79_arraysize :: "sc_soc \<Rightarrow> int" where
  "sc_tag_cpufreq_ath79_arraysize soc =
     (case soc of
        SOC_AR7161 \<Rightarrow> 8 | SOC_AR724X \<Rightarrow> 4 | SOC_AR9344 \<Rightarrow> 6 | SOC_QCA953X \<Rightarrow> 5
      | SOC_QCA9556 \<Rightarrow> 3 | SOC_QCA9558 \<Rightarrow> 4 | _ \<Rightarrow> - EOPNOTSUPP)"

definition sc_cpufreq_indexes :: "sc_soc \<Rightarrow> sc_u32tvs" where
  "sc_cpufreq_indexes soc =
     (if soc \<in> {SOC_AR7161, SOC_AR71XX, SOC_AR724X} then sc_cpufreq_indexes_ath79_7x
      else sc_cpufreq_indexes_ath79_9x)"

section \<open>State\<close>

text \<open>The pair of functions \<open>tshow\<close> and \<open>tstore\<close> of an attribute.\<close>

datatype sc_kind =
    Kind_u32tvs sc_u32tvs
  | Kind_boolts sc_boolts
  | Kind_bootdelays
  | Kind_string
  | Kind_cpufreq_indexes

record sc_attr =
  sc_tag_id :: u16
  sc_name :: string
  sc_kind :: sc_kind
  sc_pld_ofs :: u16
  sc_pld_len :: u16

text \<open>\<open>se_soc\<close> is \<open>None\<close> when the kernel is not built for ATH79. The MTD functions work on the
  contents of the partition: a read gives the code and the bytes read, an erase the code and
  the new contents, a write the code, the number of bytes written and the new contents.\<close>

record sc_env =
  se_be :: bool
  se_soc :: "sc_soc option"
  se_capable :: bool
  se_sysfs_streq :: "string \<Rightarrow> string \<Rightarrow> bool"
  se_kstrtou32 :: "string \<Rightarrow> int + u32"
  se_kstrtobool :: "string \<Rightarrow> int + bool"
  se_crc32 :: "u32 \<Rightarrow> byte list \<Rightarrow> u32"
  se_kmalloc :: "nat \<Rightarrow> byte list option"
  se_get_mtd_device :: int
  se_get_mtd_device_nm :: bool
  se_mtd_read :: "byte list \<Rightarrow> int \<times> byte list"
  se_mtd_erase :: "byte list \<Rightarrow> int \<times> byte list"
  se_mtd_write :: "byte list \<Rightarrow> byte list \<Rightarrow> int \<times> nat \<times> byte list"
  se_kobject_create :: bool
  se_sysfs_create :: "string \<Rightarrow> int"

record sc_state =
  sc_buf :: "byte list option"
  sc_buflen :: nat
  sc_kobj :: bool
  sc_attrs :: "sc_attr list"
  sc_files :: "string list"
  sc_flash :: "byte list"

definition sc_attr_init :: "u16 \<Rightarrow> string \<Rightarrow> sc_kind \<Rightarrow> sc_attr" where
  "sc_attr_init t n k = \<lparr>sc_tag_id = t, sc_name = n, sc_kind = k, sc_pld_ofs = 0, sc_pld_len = 0\<rparr>"

definition sc_attrs_init :: "sc_attr list" where
  "sc_attrs_init =
     [sc_attr_init 0x01 ''uart_speed'' (Kind_u32tvs sc_uartspeeds),
      sc_attr_init 0x02 ''boot_delay'' Kind_bootdelays,
      sc_attr_init 0x03 ''boot_device'' (Kind_u32tvs sc_bootdevices),
      sc_attr_init 0x04 ''boot_key'' (Kind_boolts sc_bootkey),
      sc_attr_init 0x05 ''cpu_mode'' (Kind_boolts sc_cpumode),
      sc_attr_init 0x06 ''bios_version'' Kind_string,
      sc_attr_init 0x09 ''boot_proto'' (Kind_boolts sc_bootproto),
      sc_attr_init 0x0C ''cpufreq_index'' Kind_cpufreq_indexes,
      sc_attr_init 0x0D ''booter'' (Kind_boolts sc_booter),
      sc_attr_init 0x0F ''silent_boot'' (Kind_boolts sc_silent_boot)]"

section \<open>Showing a setting\<close>

text \<open>\<open>pld\<close> is the memory of the buffer at the payload.\<close>

definition sc_tag_show_u32tvs ::
  "bool \<Rightarrow> byte list \<Rightarrow> u16 \<Rightarrow> sc_u32tvs \<Rightarrow> int \<Rightarrow> (int + string) option" where
  "sc_tag_show_u32tvs be pld pld_len tvs tvselmts =
     (if tvselmts < 0 then routerboot_tag_show_u32s be pld pld_len
      else if pld_len \<noteq> 4 then Some (Inl (- EINVAL))
      else case cpu_u32 be pld 0 of
        None \<Rightarrow> None
      | Some data \<Rightarrow>
          Some (Inr (concat (map (\<lambda>(val, str). if val = data then ''['' @ str @ ''] '' else str @ '' '')
                                 (take (nat tvselmts) tvs)) @ [CHR 0x0A])))"

definition sc_tag_show_boolts :: "bool \<Rightarrow> byte list \<Rightarrow> u16 \<Rightarrow> sc_boolts \<Rightarrow> (int + string) option" where
  "sc_tag_show_boolts be pld pld_len bts =
     (if pld_len \<noteq> 4 then Some (Inl (- EINVAL))
      else case cpu_u32 be pld 0 of
        None \<Rightarrow> None
      | Some data \<Rightarrow>
          Some (Inr ((if data \<noteq> 0 then fst bts @ '' ['' @ snd bts @ '']''
                      else ''['' @ fst bts @ ''] '' @ snd bts) @ [CHR 0x0A])))"

definition sc_tag_show_bootdelays :: "bool \<Rightarrow> byte list \<Rightarrow> u16 \<Rightarrow> (int + string) option" where
  "sc_tag_show_bootdelays be pld pld_len =
     (if pld_len \<noteq> 4 then Some (Inl (- EINVAL))
      else case cpu_u32 be pld 0 of
        None \<Rightarrow> None
      | Some data \<Rightarrow>
          Some (Inr (concat (map (\<lambda>i. let d = [char_of (48 + i)] in
                               if of_nat i = data then ''['' @ d @ ''] '' else d @ '' '') [1..<10]) @
                     [CHR 0x0A])))"

definition sc_attr_show :: "sc_env \<Rightarrow> sc_attr \<Rightarrow> sc_state \<Rightarrow> (int + string) option" where
  "sc_attr_show env a s =
     (if sc_pld_len a = 0 then Some (Inl (- ENOENT))
      else case sc_buf s of
        None \<Rightarrow> None
      | Some buf \<Rightarrow>
          (let pld = drop (unat (sc_pld_ofs a)) buf in
           case sc_kind a of
             Kind_u32tvs tvs \<Rightarrow> sc_tag_show_u32tvs (se_be env) pld (sc_pld_len a) tvs (int (length tvs))
           | Kind_boolts bts \<Rightarrow> sc_tag_show_boolts (se_be env) pld (sc_pld_len a) bts
           | Kind_bootdelays \<Rightarrow> sc_tag_show_bootdelays (se_be env) pld (sc_pld_len a)
           | Kind_string \<Rightarrow> map_option Inr (routerboot_tag_show_string pld (sc_pld_len a))
           | Kind_cpufreq_indexes \<Rightarrow>
               (case se_soc env of
                  None \<Rightarrow> routerboot_tag_show_u32s (se_be env) pld (sc_pld_len a)
                | Some soc \<Rightarrow> sc_tag_show_u32tvs (se_be env) pld (sc_pld_len a)
                                (sc_cpufreq_indexes soc) (sc_tag_cpufreq_ath79_arraysize soc))))"

section \<open>Storing a setting\<close>

text \<open>A word of the buffer written, and the checksum cleared or set.\<close>

definition sc_put_u32 :: "bool \<Rightarrow> nat \<Rightarrow> u32 \<Rightarrow> byte list \<Rightarrow> byte list option" where
  "sc_put_u32 be ofs v buf =
     (if ofs + 4 \<le> length buf then Some (memcpy_at buf ofs (cpu_u32_bytes be v)) else None)"

definition sc_write :: "sc_env \<Rightarrow> nat \<Rightarrow> u32 \<Rightarrow> sc_state \<Rightarrow> sc_state option" where
  "sc_write env ofs v s =
     do { buf \<leftarrow> sc_buf s;
          buf \<leftarrow> sc_put_u32 (se_be env) ofs v buf;
          buf \<leftarrow> sc_put_u32 (se_be env) RB_SC_CRC32_OFFSET 0 buf;
          Some (s\<lparr>sc_buf := Some buf\<rparr>) }"

definition sc_tag_store_u32tvs ::
  "sc_env \<Rightarrow> nat \<Rightarrow> u16 \<Rightarrow> string \<Rightarrow> int \<Rightarrow> sc_u32tvs \<Rightarrow> int \<Rightarrow> sc_state \<Rightarrow> (int \<times> sc_state) option" where
  "sc_tag_store_u32tvs env ofs pld_len input count tvs tvselmts s =
     (if tvselmts < 0 then Some (tvselmts, s)
      else if pld_len \<noteq> 4 then Some (- EINVAL, s)
      else case find (\<lambda>(val, str). se_sysfs_streq env input str) (take (nat tvselmts) tvs) of
        None \<Rightarrow> Some (- EINVAL, s)
      | Some (val, str) \<Rightarrow> map_option (Pair count) (sc_write env ofs val s))"

definition sc_tag_store_boolts ::
  "sc_env \<Rightarrow> nat \<Rightarrow> u16 \<Rightarrow> string \<Rightarrow> int \<Rightarrow> sc_boolts \<Rightarrow> sc_state \<Rightarrow> (int \<times> sc_state) option" where
  "sc_tag_store_boolts env ofs pld_len input count bts s =
     (if pld_len \<noteq> 4 then Some (- EINVAL, s)
      else if se_sysfs_streq env input (fst bts) then map_option (Pair count) (sc_write env ofs 0 s)
      else if se_sysfs_streq env input (snd bts) then map_option (Pair count) (sc_write env ofs 1 s)
      else Some (- EINVAL, s))"

definition sc_tag_store_bootdelays ::
  "sc_env \<Rightarrow> nat \<Rightarrow> u16 \<Rightarrow> string \<Rightarrow> int \<Rightarrow> sc_state \<Rightarrow> (int \<times> sc_state) option" where
  "sc_tag_store_bootdelays env ofs pld_len input count s =
     (if pld_len \<noteq> 4 then Some (- EINVAL, s)
      else case se_kstrtou32 env input of
        Inl ret \<Rightarrow> Some (ret, s)
      | Inr data \<Rightarrow>
          if data < 1 \<or> 9 < data then Some (- EINVAL, s)
          else map_option (Pair count) (sc_write env ofs data s))"

text \<open>\<open>RB_SC_HAS_WRITE_SUPPORT\<close> is true.\<close>

definition sc_attr_store ::
  "sc_env \<Rightarrow> sc_attr \<Rightarrow> string \<Rightarrow> int \<Rightarrow> sc_state \<Rightarrow> (int \<times> sc_state) option" where
  "sc_attr_store env a input count s =
     (if \<not> se_capable env then Some (- EACCES, s)
      else if sc_kind a = Kind_string \<or> sc_kind a = Kind_cpufreq_indexes \<and> se_soc env = None
      then Some (- EOPNOTSUPP, s)
      else if sc_pld_len a = 0 then Some (- ENOENT, s)
      else let ofs = unat (sc_pld_ofs a) in
        case sc_kind a of
          Kind_u32tvs tvs \<Rightarrow>
            sc_tag_store_u32tvs env ofs (sc_pld_len a) input count tvs (int (length tvs)) s
        | Kind_boolts bts \<Rightarrow> sc_tag_store_boolts env ofs (sc_pld_len a) input count bts s
        | Kind_bootdelays \<Rightarrow> sc_tag_store_bootdelays env ofs (sc_pld_len a) input count s
        | _ \<Rightarrow>
            (case se_soc env of
               None \<Rightarrow> Some (- EOPNOTSUPP, s)
             | Some soc \<Rightarrow> sc_tag_store_u32tvs env ofs (sc_pld_len a) input count
                             (sc_cpufreq_indexes soc) (sc_tag_cpufreq_ath79_arraysize soc) s))"

section \<open>Commit\<close>

definition sc_get_crc :: "sc_env \<Rightarrow> sc_state \<Rightarrow> u32 option" where
  "sc_get_crc env s = do { buf \<leftarrow> sc_buf s; cpu_u32 (se_be env) buf RB_SC_CRC32_OFFSET }"

definition sc_commit_show :: "sc_env \<Rightarrow> sc_state \<Rightarrow> string option" where
  "sc_commit_show env s =
     map_option (\<lambda>crc. (if crc \<noteq> 0 then ''clean'' else ''dirty'') @ [CHR 0x0A]) (sc_get_crc env s)"

text \<open>The access to the partition under the lock: the code, the bytes moved and the state.\<close>

definition sc_commit_mtd :: "sc_env \<Rightarrow> bool \<Rightarrow> byte list \<Rightarrow> sc_state \<Rightarrow> int \<times> nat \<times> sc_state" where
  "sc_commit_mtd env flush buf s =
     (if \<not> flush then
        let (ret, bytes) = se_mtd_read env (sc_flash s)
        in (ret, length bytes, s\<lparr>sc_buf := Some (memcpy_at buf 0 bytes)\<rparr>)
      else
        let crc = NOT (se_crc32 env (NOT 0) (take (sc_buflen s) buf));
            buf = memcpy_at buf RB_SC_CRC32_OFFSET (cpu_u32_bytes (se_be env) crc);
            (ret, flash) = se_mtd_erase env (sc_flash s)
        in if ret \<noteq> 0 then (ret, 0, s\<lparr>sc_buf := Some buf, sc_flash := flash\<rparr>)
           else let (ret, n, flash) = se_mtd_write env flash buf
                in (ret, n, s\<lparr>sc_buf := Some buf, sc_flash := flash\<rparr>))"

definition sc_clear_crc :: "sc_env \<Rightarrow> sc_state \<Rightarrow> sc_state option" where
  "sc_clear_crc env s =
     do { buf \<leftarrow> sc_buf s;
          buf \<leftarrow> sc_put_u32 (se_be env) RB_SC_CRC32_OFFSET 0 buf;
          Some (s\<lparr>sc_buf := Some buf\<rparr>) }"

definition sc_commit_store :: "sc_env \<Rightarrow> string \<Rightarrow> int \<Rightarrow> sc_state \<Rightarrow> (int \<times> sc_state) option" where
  "sc_commit_store env input count s =
     (case (sc_get_crc env s, sc_buf s) of
        (Some crc, Some buf) \<Rightarrow>
          if crc \<noteq> 0 then Some (count, s)
          else (case se_kstrtobool env input of
            Inl ret \<Rightarrow> Some (ret, s)
          | Inr flush \<Rightarrow>
              if \<not> se_get_mtd_device_nm env then Some (- ENODEV, s)
              else let (ret, bytes_rw, s) = sc_commit_mtd env flush buf s
                   in if ret \<noteq> 0 then map_option (Pair ret) (sc_clear_crc env s)
                      else if bytes_rw \<noteq> sc_buflen s
                      then map_option (Pair (- EIO)) (sc_clear_crc env s)
                      else Some (count, s))
      | _ \<Rightarrow> None)"

section \<open>Start and stop\<close>

text \<open>The loop over \<open>sc_attrs\<close>; \<open>ofs\<close> 8 skips the magic number and the checksum.\<close>

fun sc_publish_tags ::
  "sc_env \<Rightarrow> byte list \<Rightarrow> nat \<Rightarrow> sc_attr list \<Rightarrow> (sc_attr list \<times> string list) option" where
  "sc_publish_tags env buf buflen [] = Some ([], [])"
| "sc_publish_tags env buf buflen (a # as) =
     (case routerboot_tag_find (se_be env) (Some buf) buflen (sc_tag_id a) of
        None \<Rightarrow> None
      | Some r \<Rightarrow>
          map_option (\<lambda>(as, fs).
            case r of
              Inl _ \<Rightarrow> (a\<lparr>sc_pld_ofs := 0, sc_pld_len := 0\<rparr> # as, fs)
            | Inr (ofs, len) \<Rightarrow>
                (a\<lparr>sc_pld_ofs := ofs + 8, sc_pld_len := len\<rparr> # as,
                 if se_sysfs_create env (sc_name a) = 0 then sc_name a # fs else fs))
            (sc_publish_tags env buf buflen as))"

text \<open>\<open>sc_buflen - 8\<close> is a \<open>size_t\<close>; a partition shorter than that wraps.\<close>

definition rb_softconfig_init :: "sc_env \<Rightarrow> sc_state \<Rightarrow> (int \<times> sc_state) option" where
  "rb_softconfig_init env s =
     (let s = s\<lparr>sc_buf := None, sc_kobj := False\<rparr> in
      if se_get_mtd_device env \<noteq> 0 then Some (- ENODEV, s)
      else let s = s\<lparr>sc_buflen := length (sc_flash s)\<rparr> in
      case se_kmalloc env (sc_buflen s) of
        None \<Rightarrow> Some (- ENOMEM, s)
      | Some fresh \<Rightarrow>
          (let (ret, bytes) = se_mtd_read env (sc_flash s); buf = memcpy_at fresh 0 bytes in
           if ret \<noteq> 0 then Some (ret, s)
           else if length bytes \<noteq> sc_buflen s then Some (- EIO, s)
           else case cpu_u32 (se_be env) buf 0 of
             None \<Rightarrow> None
           | Some magic \<Rightarrow>
               if magic \<noteq> RB_MAGIC_SOFT then Some (- EINVAL, s)
               else if \<not> se_kobject_create env then Some (- ENOMEM, s)
               else case sc_publish_tags env (drop 8 buf)
                           ((sc_buflen s + (SIZE_MAX + 1) - 8) mod (SIZE_MAX + 1)) (sc_attrs s) of
                 None \<Rightarrow> None
               | Some (as, files) \<Rightarrow>
                   let ret = se_sysfs_create env ''commit'' in
                   if ret \<noteq> 0 then Some (ret, s\<lparr>sc_attrs := as\<rparr>)
                   else Some (0, s\<lparr>sc_buf := Some buf, sc_kobj := True, sc_attrs := as,
                                   sc_files := files @ [''commit'']\<rparr>)))"

definition rb_softconfig_exit :: "sc_state \<Rightarrow> sc_state" where
  "rb_softconfig_exit s = s\<lparr>sc_kobj := False, sc_files := [], sc_buf := None\<rparr>"

section \<open>Words in the buffer\<close>

lemma put_u32_len: "sc_put_u32 be ofs v buf = Some buf' \<Longrightarrow> length buf' = length buf"
  by (auto simp: sc_put_u32_def split: if_splits)

lemma put_u32_same: "sc_put_u32 be ofs v buf = Some buf' \<Longrightarrow> cpu_u32 be buf' ofs = Some v"
  using le32_of_bytes [of v "[]"]
  by (auto simp: sc_put_u32_def cpu_u32_def cpu_u32_bytes_def take_drop_memcpy_same split: if_splits)

lemma put_u32_other:
  assumes "sc_put_u32 be ofs v buf = Some buf'" and "i + 4 \<le> ofs \<or> ofs + 4 \<le> i"
  shows "cpu_u32 be buf' i = cpu_u32 be buf i"
  using assms put_u32_len [OF assms(1)]
  by (auto simp: sc_put_u32_def cpu_u32_def take_drop_memcpy_below take_drop_memcpy_above
      split: if_splits)

lemma put_u32_nth:
  assumes "sc_put_u32 be ofs v buf = Some buf'" and "i < ofs \<or> ofs + 4 \<le> i" and "i < length buf"
  shows "buf' ! i = buf ! i"
  using assms by (auto simp: sc_put_u32_def memcpy_at_def nth_append split: if_splits)

lemma cpu_u32_drop: "cpu_u32 be (drop ofs buf) 0 = cpu_u32 be buf ofs"
  by (auto simp: cpu_u32_def)

text \<open>A write changes the word and the checksum field, and nothing else.\<close>

lemma write_effect:
  assumes "sc_write env ofs v s = Some s'" and "8 \<le> ofs"
  obtains buf buf' where "sc_buf s = Some buf" and "s' = s\<lparr>sc_buf := Some buf'\<rparr>"
    and "length buf' = length buf" and "cpu_u32 (se_be env) buf' ofs = Some v"
    and "cpu_u32 (se_be env) buf' 4 = Some 0"
    and "\<And>i. i < length buf \<Longrightarrow> i < 4 \<or> 8 \<le> i \<Longrightarrow> i < ofs \<or> ofs + 4 \<le> i \<Longrightarrow> buf' ! i = buf ! i"
proof -
  obtain buf b1 b2 where b: "sc_buf s = Some buf" "sc_put_u32 (se_be env) ofs v buf = Some b1"
    "sc_put_u32 (se_be env) 4 0 b1 = Some b2" "s' = s\<lparr>sc_buf := Some b2\<rparr>"
    using assms(1) by (auto simp: sc_write_def split: bind_splits)
  show thesis
  proof (rule that [OF b(1,4)])
    show "length b2 = length buf" using b put_u32_len by metis
    show "cpu_u32 (se_be env) b2 ofs = Some v"
      using put_u32_other [OF b(3), of ofs] put_u32_same [OF b(2)] assms(2) by simp
    show "cpu_u32 (se_be env) b2 4 = Some 0" by (rule put_u32_same [OF b(3)])
    fix i assume "i < length buf" "i < 4 \<or> 8 \<le> i" "i < ofs \<or> ofs + 4 \<le> i"
    then show "b2 ! i = buf ! i"
      using put_u32_nth [OF b(2), of i] put_u32_nth [OF b(3), of i] put_u32_len [OF b(2)] by auto
  qed
qed

lemma store_cases:
  assumes "sc_attr_store env a input count s = Some (r, s')"
  obtains (error) "s' = s" | (written) v where "sc_write env (unat (sc_pld_ofs a)) v s = Some s'" and "r = count"
  using assms
  by (auto simp: sc_attr_store_def Let_def sc_tag_store_u32tvs_def sc_tag_store_boolts_def
      sc_tag_store_bootdelays_def split: if_splits sc_kind.splits option.splits sum.splits)

section \<open>Clean means in sync\<close>

text \<open>What the MTD layer promises: it keeps the size of the partition, a complete read without
  an error returns its contents, and a complete write without an error leaves the data.\<close>

definition mtd_honest :: "sc_env \<Rightarrow> bool" where
  "mtd_honest env \<longleftrightarrow>
     (\<forall>f bs. se_mtd_read env f = (0, bs) \<and> length bs = length f \<longrightarrow> bs = f) \<and>
     (\<forall>f r bs. se_mtd_read env f = (r, bs) \<longrightarrow> length bs \<le> length f) \<and>
     (\<forall>f r f'. se_mtd_erase env f = (r, f') \<longrightarrow> length f' = length f) \<and>
     (\<forall>f d r n f'. se_mtd_write env f d = (r, n, f') \<and> length d = length f \<longrightarrow>
        length f' = length f \<and> (r = 0 \<and> n = length d \<longrightarrow> f' = d)) \<and>
     (\<forall>n m. se_kmalloc env n = Some m \<longrightarrow> length m = n)"

lemmas mtd_honestD = mtd_honest_def [THEN iffD1]

lemmas honest_read =
  mtd_honestD [THEN conjunct1, rule_format, OF _ conjI]
  mtd_honestD [THEN conjunct2, THEN conjunct1, rule_format]

lemmas honest_erase = mtd_honestD [THEN conjunct2, THEN conjunct2, THEN conjunct1, rule_format]

lemmas honest_write =
  mtd_honestD [THEN conjunct2, THEN conjunct2, THEN conjunct2, THEN conjunct1, rule_format, OF _ conjI,
    THEN conjunct1]
  mtd_honestD [THEN conjunct2, THEN conjunct2, THEN conjunct2, THEN conjunct1, rule_format, OF _ conjI,
    THEN conjunct2, rule_format]

lemmas honest_kmalloc =
  mtd_honestD [THEN conjunct2, THEN conjunct2, THEN conjunct2, THEN conjunct2, rule_format]

text \<open>The operations as steps, with the module loaded and unloaded at any time.\<close>

inductive sc_step :: "sc_env \<Rightarrow> sc_state \<Rightarrow> sc_state \<Rightarrow> bool" for env where
  Store: "sc_attr_store env a input count s = Some (r, s') \<Longrightarrow> sc_step env s s'"
| Commit: "sc_commit_store env input count s = Some (r, s') \<Longrightarrow> sc_step env s s'"
| Init: "rb_softconfig_init env s = Some (r, s') \<Longrightarrow> sc_step env s s'"
| Exit: "sc_step env s (rb_softconfig_exit s)"

inductive sc_reachable :: "sc_env \<Rightarrow> sc_state \<Rightarrow> bool" for env where
  Start: "sc_buf s = None \<Longrightarrow> sc_reachable env s"
| Step: "sc_reachable env s \<Longrightarrow> sc_step env s s' \<Longrightarrow> sc_reachable env s'"

definition sc_inv :: "sc_env \<Rightarrow> sc_state \<Rightarrow> bool" where
  "sc_inv env s \<longleftrightarrow>
     (\<forall>buf. sc_buf s = Some buf \<longrightarrow>
        length buf = sc_buflen s \<and> length (sc_flash s) = sc_buflen s \<and>
        (cpu_u32 (se_be env) buf 4 = Some 0 \<or> buf = sc_flash s))"

lemma inv_dirty:
  "sc_buf s = Some buf \<Longrightarrow> length buf = sc_buflen s \<Longrightarrow> length (sc_flash s) = sc_buflen s \<Longrightarrow>
   cpu_u32 (se_be env) buf 4 = Some 0 \<Longrightarrow> sc_inv env s"
  by (simp add: sc_inv_def)

lemma clear_crc_inv:
  assumes "sc_clear_crc env s = Some s'" and "sc_buf s = Some buf" and "length buf = sc_buflen s"
    and "length (sc_flash s) = sc_buflen s"
  shows "sc_inv env s'"
proof -
  obtain b where "sc_put_u32 (se_be env) 4 0 buf = Some b" "s' = s\<lparr>sc_buf := Some b\<rparr>"
    using assms(1,2) by (auto simp: sc_clear_crc_def split: bind_splits)
  then show ?thesis using assms(3,4) put_u32_len put_u32_same
    by (intro inv_dirty [where buf = b]) fastforce+
qed

lemma store_inv:
  assumes "sc_attr_store env a input count s = Some (r, s')" and "sc_inv env s"
  shows "sc_inv env s'"
  using assms(1)
proof (cases rule: store_cases)
  case error
  then show ?thesis using assms(2) by simp
next
  case (written v)
  then obtain buf b1 b2 where "sc_buf s = Some buf" "sc_put_u32 (se_be env) (unat (sc_pld_ofs a)) v buf = Some b1"
    "sc_put_u32 (se_be env) 4 0 b1 = Some b2" "s' = s\<lparr>sc_buf := Some b2\<rparr>"
    by (auto simp: sc_write_def split: bind_splits)
  then show ?thesis
    using assms(2) put_u32_len put_u32_same
    by (intro inv_dirty [where buf = b2]) (auto simp: sc_inv_def)
qed

lemma commit_mtd_inv:
  assumes "sc_commit_mtd env flush buf s = (ret, n, s')" and "mtd_honest env"
    and "length buf = sc_buflen s" and "length (sc_flash s) = sc_buflen s" and "8 \<le> length buf"
  shows "\<exists>b. sc_buf s' = Some b \<and> length b = sc_buflen s' \<and> length (sc_flash s') = sc_buflen s' \<and>
           sc_buflen s' = sc_buflen s \<and> (ret = 0 \<and> n = sc_buflen s \<longrightarrow> b = sc_flash s')"
proof (cases flush)
  case False
  obtain r bs where rd: "se_mtd_read env (sc_flash s) = (r, bs)" by (rule prod.exhaust)
  have "length (memcpy_at buf 0 bs) = length buf"
    using honest_read(2) [OF assms(2) rd] assms(3,4) by simp
  moreover have "memcpy_at buf 0 bs = sc_flash s" if "r = 0" "length bs = sc_buflen s"
    using honest_read(1) [OF assms(2), of "sc_flash s" bs] rd that assms(3,4)
    by (simp add: memcpy_at_whole)
  ultimately show ?thesis using assms(1,3,4) rd False by (auto simp: sc_commit_mtd_def)
next
  case True
  let ?b = "memcpy_at buf 4 (cpu_u32_bytes (se_be env) (NOT (se_crc32 env (NOT 0) (take (sc_buflen s) buf))))"
  have len: "length ?b = sc_buflen s" using assms(3,5) by simp
  obtain r f where er: "se_mtd_erase env (sc_flash s) = (r, f)" by (rule prod.exhaust)
  have f: "length f = sc_buflen s" using honest_erase [OF assms(2) er] assms(4) by simp
  obtain r' m f' where wr: "se_mtd_write env f ?b = (r', m, f')" by (rule prod_cases3)
  have f': "length f' = sc_buflen s" "r' = 0 \<and> m = sc_buflen s \<longrightarrow> f' = ?b"
    using honest_write [OF assms(2) wr] len f by auto
  show ?thesis
  proof (cases "r = 0")
    case True
    then have "ret = r'" "n = m" "s' = s\<lparr>sc_buf := Some ?b, sc_flash := f'\<rparr>"
      using assms(1) er wr \<open>flush\<close> by (simp_all add: sc_commit_mtd_def Let_def)
    then show ?thesis using f' len by simp
  next
    case False
    then have "ret = r" "s' = s\<lparr>sc_buf := Some ?b, sc_flash := f\<rparr>"
      using assms(1) er \<open>flush\<close> by (simp_all add: sc_commit_mtd_def Let_def)
    then show ?thesis using f len False by simp
  qed
qed

lemma commit_inv:
  assumes "sc_commit_store env input count s = Some (r, s')" and "mtd_honest env" and "sc_inv env s"
  shows "sc_inv env s'"
proof -
  obtain crc buf where c: "sc_get_crc env s = Some crc" "sc_buf s = Some buf"
    using assms(1) by (auto simp: sc_commit_store_def split: option.splits)
  have inv: "length buf = sc_buflen s" "length (sc_flash s) = sc_buflen s"
    using assms(3) c(2) by (simp_all add: sc_inv_def)
  have "8 \<le> length buf"
    using c by (auto simp: sc_get_crc_def cpu_u32_def split: if_splits)
  show ?thesis
  proof (cases "s' = s")
    case True
    then show ?thesis using assms(3) by simp
  next
    case False
    obtain flush ret n s1 where m: "sc_commit_mtd env flush buf s = (ret, n, s1)"
      and out: "if ret = 0 \<and> n = sc_buflen s1 then s' = s1 else sc_clear_crc env s1 = Some s'"
      using assms(1) c False
      by (cases "se_kstrtobool env input")
         (auto simp: sc_commit_store_def split: if_splits prod.splits)
    from commit_mtd_inv [OF m assms(2) inv \<open>8 \<le> length buf\<close>] obtain b where
      b: "sc_buf s1 = Some b" "length b = sc_buflen s1" "length (sc_flash s1) = sc_buflen s1"
         "sc_buflen s1 = sc_buflen s" "ret = 0 \<and> n = sc_buflen s \<longrightarrow> b = sc_flash s1" by blast
    show ?thesis
      using out b clear_crc_inv [OF _ b(1,2,3), of env s']
      by (cases "ret = 0 \<and> n = sc_buflen s1") (auto simp: sc_inv_def)
  qed
qed

lemma init_inv:
  assumes "rb_softconfig_init env s = Some (r, s')" and "mtd_honest env"
  shows "sc_inv env s'"
proof (cases "sc_buf s' = None")
  case True
  then show ?thesis by (simp add: sc_inv_def)
next
  case False
  obtain rr bs where rd: "se_mtd_read env (sc_flash s) = (rr, bs)" by (rule prod.exhaust)
  obtain m where m: "se_kmalloc env (length (sc_flash s)) = Some m"
    and s': "sc_buf s' = Some (memcpy_at m 0 bs)" "sc_buflen s' = length (sc_flash s)"
      "sc_flash s' = sc_flash s" "rr = 0" "length bs = length (sc_flash s)"
    using assms(1) rd False
    by (auto simp: rb_softconfig_init_def Let_def split: if_splits option.splits)
  have "bs = sc_flash s" using honest_read(1) [OF assms(2)] rd s'(4,5) by simp
  then show ?thesis
    using s' honest_kmalloc [OF assms(2) m] by (simp add: sc_inv_def memcpy_at_whole)
qed

lemma exit_inv: "sc_inv env (rb_softconfig_exit s)"
  by (simp add: sc_inv_def rb_softconfig_exit_def)

lemma reachable_inv: "sc_reachable env s \<Longrightarrow> mtd_honest env \<Longrightarrow> sc_inv env s"
proof (induction rule: sc_reachable.induct)
  case (Start s)
  then show ?case by (simp add: sc_inv_def)
next
  case (Step s s')
  then have inv: "sc_inv env s" by simp
  from Step.hyps(2) show ?case
    by cases (use inv Step.prems store_inv commit_inv init_inv exit_inv in blast)+
qed

text \<open>C8: The status that \<open>commit\<close> shows can be trusted when it says \<open>clean\<close>: in every state
  reached by any sequence of loads, unloads, stores, commits and discards, whatever fails on
  the way, a clean buffer has the contents of the flash.\<close>

theorem sc_clean_in_sync:
  assumes "sc_reachable env s" and "mtd_honest env"
    and "sc_commit_show env s = Some (''clean'' @ [CHR 0x0A])"
  shows "sc_buf s = Some (sc_flash s)"
proof -
  obtain buf crc where "sc_buf s = Some buf" "cpu_u32 (se_be env) buf 4 = Some crc" "crc \<noteq> 0"
    using assms(3) by (auto simp: sc_commit_show_def sc_get_crc_def split: bind_splits if_splits)
  then show ?thesis using reachable_inv [OF assms(1,2)] by (auto simp: sc_inv_def)
qed

theorem sc_clean_in_sync_witness:
  "sc_buf \<lparr>sc_buf = Some [83, 111, 102, 116, 1, 0, 0, 0], sc_buflen = 8, sc_kobj = True, sc_attrs = [],
           sc_files = [''commit''], sc_flash = [83, 111, 102, 116, 1, 0, 0, 0]\<rparr> =
   Some [83, 111, 102, 116, 1, 0, 0, 0]"
proof -
  let ?f = "[83, 111, 102, 116, 1, 0, 0, 0] :: byte list"
  let ?env = "\<lparr>se_be = False, se_soc = None, se_capable = True, se_sysfs_streq = (=),
      se_kstrtou32 = (\<lambda>x. Inr 1), se_kstrtobool = (\<lambda>x. Inr True), se_crc32 = (\<lambda>x bs. 5),
      se_kmalloc = (\<lambda>n. Some (replicate n 0)), se_get_mtd_device = 0, se_get_mtd_device_nm = True,
      se_mtd_read = Pair 0, se_mtd_erase = Pair 0, se_mtd_write = (\<lambda>f d. (0, length d, d)),
      se_kobject_create = True, se_sysfs_create = (\<lambda>n. 0)\<rparr> :: sc_env"
  let ?s = "\<lparr>sc_buf = Some ?f, sc_buflen = 8, sc_kobj = True, sc_attrs = [],
      sc_files = [''commit''], sc_flash = ?f\<rparr> :: sc_state"
  have honest: "mtd_honest ?env" by (simp add: mtd_honest_def)
  have word: "cpu_u32 False ?f 0 = Some RB_MAGIC_SOFT" "cpu_u32 False ?f 4 = Some 1"
    by (simp_all add: cpu_u32_def RB_MAGIC_SOFT_def)
  have "rb_softconfig_init ?env (?s\<lparr>sc_buf := None, sc_kobj := False, sc_files := []\<rparr>) = Some (0, ?s)"
    using word by (simp add: rb_softconfig_init_def memcpy_at_def Let_def)
  then have "sc_reachable ?env ?s"
    by (intro sc_reachable.Step [OF sc_reachable.Start sc_step.Init]) auto
  moreover have "sc_commit_show ?env ?s = Some (''clean'' @ [CHR 0x0A])"
    using word by (simp add: sc_commit_show_def sc_get_crc_def)
  ultimately show ?thesis using sc_clean_in_sync [OF _ honest] by fastforce
qed

text \<open>A board for examples: little endian, with a flash that works.\<close>

definition sc_example_env :: sc_env where
  "sc_example_env =
     \<lparr>se_be = False, se_soc = None, se_capable = True, se_sysfs_streq = (=),
      se_kstrtou32 = (\<lambda>x. Inr 1), se_kstrtobool = (\<lambda>x. Inr (x = ''1'')), se_crc32 = (\<lambda>x bs. 5),
      se_kmalloc = (\<lambda>n. Some (replicate n 0)), se_get_mtd_device = 0, se_get_mtd_device_nm = True,
      se_mtd_read = Pair 0, se_mtd_erase = Pair 0, se_mtd_write = (\<lambda>f d. (0, length d, d)),
      se_kobject_create = True, se_sysfs_create = (\<lambda>n. 0)\<rparr>"

definition sc_example_state :: "byte list \<Rightarrow> sc_state" where
  "sc_example_state f =
     \<lparr>sc_buf = Some f, sc_buflen = length f, sc_kobj = True, sc_attrs = [], sc_files = [], sc_flash = f\<rparr>"

definition sc_example_attr :: sc_attr where
  "sc_example_attr =
     \<lparr>sc_tag_id = 3, sc_name = ''boot_device'', sc_kind = Kind_u32tvs sc_bootdevices,
      sc_pld_ofs = 12, sc_pld_len = 4\<rparr>"

lemmas sc_example_defs = sc_example_env_def sc_example_state_def sc_example_attr_def

section \<open>A setting stored and committed\<close>

lemma store_u32tvs:
  assumes "se_capable env" and "sc_kind a = Kind_u32tvs tvs" and "sc_pld_len a = 4"
    and "sc_buf s = Some buf" and "8 \<le> unat (sc_pld_ofs a)" and "unat (sc_pld_ofs a) + 4 \<le> length buf"
    and "find (\<lambda>(val, str). se_sysfs_streq env input str) tvs = Some (v, str)"
  obtains b where "sc_put_u32 (se_be env) (unat (sc_pld_ofs a)) v buf = Some b"
    and "sc_attr_store env a input count s =
         Some (count, s\<lparr>sc_buf := Some (memcpy_at b 4 (cpu_u32_bytes (se_be env) 0))\<rparr>)"
    and "length b = length buf"
proof -
  obtain b where b: "sc_put_u32 (se_be env) (unat (sc_pld_ofs a)) v buf = Some b"
    using assms(6) by (simp add: sc_put_u32_def)
  have len: "length b = length buf" by (rule put_u32_len [OF b])
  have "sc_write env (unat (sc_pld_ofs a)) v s =
        Some (s\<lparr>sc_buf := Some (memcpy_at b 4 (cpu_u32_bytes (se_be env) 0))\<rparr>)"
    using b len assms(4,5,6) by (simp add: sc_write_def) (simp add: sc_put_u32_def)
  then have "sc_attr_store env a input count s =
        Some (count, s\<lparr>sc_buf := Some (memcpy_at b 4 (cpu_u32_bytes (se_be env) 0))\<rparr>)"
    using assms by (simp add: sc_attr_store_def sc_tag_store_u32tvs_def)
  then show thesis using that b len by blast
qed

lemma memcpy_at_twice:
  "length x = length y \<Longrightarrow> ofs + length y \<le> length b \<Longrightarrow>
   memcpy_at (memcpy_at b ofs x) ofs y = memcpy_at b ofs y"
  by (simp add: memcpy_at_def)

lemma put_u32_Some: "ofs + 4 \<le> length buf \<Longrightarrow>
  sc_put_u32 be ofs v buf = Some (memcpy_at buf ofs (cpu_u32_bytes be v))"
  by (simp add: sc_put_u32_def)

text \<open>A setting that is stored is shown: writing the name of a choice to a file whose tag
  lies in the buffer returns the count, marks the buffer dirty, leaves the flash alone, and the
  file then lists all choices with exactly those of that value in brackets.\<close>

theorem sc_store_then_show:
  assumes "se_capable env" and "sc_kind a = Kind_u32tvs tvs" and "sc_pld_len a = 4"
    and "sc_buf s = Some buf" and "8 \<le> unat (sc_pld_ofs a)" and "unat (sc_pld_ofs a) + 4 \<le> length buf"
    and "find (\<lambda>(val, str). se_sysfs_streq env input str) tvs = Some (v, str)"
  shows "\<exists>s'. sc_attr_store env a input count s = Some (count, s') \<and> sc_flash s' = sc_flash s \<and>
     sc_commit_show env s' = Some (''dirty'' @ [CHR 0x0A]) \<and>
     sc_attr_show env a s' =
       Some (Inr (concat (map (\<lambda>(w, t). if w = v then ''['' @ t @ ''] '' else t @ '' '') tvs) @ [CHR 0x0A]))"
proof -
  from store_u32tvs [OF assms] obtain b
    where b: "sc_put_u32 (se_be env) (unat (sc_pld_ofs a)) v buf = Some b" "length b = length buf"
      and store: "sc_attr_store env a input count s =
           Some (count, s\<lparr>sc_buf := Some (memcpy_at b 4 (cpu_u32_bytes (se_be env) 0))\<rparr>)" by metis
  let ?b = "memcpy_at b 4 (cpu_u32_bytes (se_be env) 0)"
  have put: "sc_put_u32 (se_be env) 4 0 b = Some ?b" using b(2) assms(5,6) by (simp add: put_u32_Some)
  have "cpu_u32 (se_be env) ?b (unat (sc_pld_ofs a)) = Some v"
    using put_u32_other [OF put] put_u32_same [OF b(1)] assms(5) by simp
  then show ?thesis
    using store put_u32_same [OF put] assms(2,3)
    by (simp add: sc_commit_show_def sc_get_crc_def sc_attr_show_def sc_tag_show_u32tvs_def cpu_u32_drop)
qed

theorem sc_store_then_show_witness:
  "\<exists>s'. sc_attr_store sc_example_env sc_example_attr ''flash'' 5 (sc_example_state (replicate 16 0)) = Some (5, s') \<and>
     sc_attr_show sc_example_env sc_example_attr s' =
       Some (Inr (''eth flasheth ethonce [flash] cfg cfgonce '' @ [CHR 0x0A]))"
  using sc_store_then_show [of sc_example_env sc_example_attr sc_bootdevices
      "sc_example_state (replicate 16 0)" "replicate 16 0" "''flash''" 5 "''flash''" 5]
  by (auto simp: sc_example_defs sc_bootdevices_def)

text \<open>The image on the flash passes the check of the boot loader: the checksum field holds the
  checksum of the image with that field zero.\<close>

definition sc_image_valid :: "sc_env \<Rightarrow> byte list \<Rightarrow> bool" where
  "sc_image_valid env img \<longleftrightarrow>
     cpu_u32 (se_be env) img 4 =
     Some (NOT (se_crc32 env (NOT 0) (memcpy_at img 4 (cpu_u32_bytes (se_be env) 0))))"



text \<open>A commit that fails stays pending: whenever \<open>commit\<close> does not return its count, the
  buffer is still marked dirty, so that it can be tried again.\<close>

theorem sc_commit_failure_dirty:
  assumes "sc_commit_store env input count s = Some (r, s')" and "r \<noteq> count"
  shows "sc_commit_show env s' = Some (''dirty'' @ [CHR 0x0A])"
proof -
  have clear: "sc_get_crc env s' = Some 0" if "sc_clear_crc env s1 = Some s'" for s1
    using that put_u32_same by (auto simp: sc_clear_crc_def sc_get_crc_def split: bind_splits)
  have "sc_get_crc env s' = Some 0"
    using assms clear
    by (auto simp: sc_commit_store_def split: option.splits sum.splits if_splits prod.splits)
  then show ?thesis by (simp add: sc_commit_show_def)
qed

theorem sc_commit_failure_dirty_witness:
  "\<exists>s'. sc_commit_store (sc_example_env\<lparr>se_mtd_erase := Pair (- 5)\<rparr>) ''1'' 1 (sc_example_state (replicate 16 0)) =
          Some (- 5, s') \<and>
        sc_commit_show (sc_example_env\<lparr>se_mtd_erase := Pair (- 5)\<rparr>) s' = Some (''dirty'' @ [CHR 0x0A])"
proof -
  let ?env = "sc_example_env\<lparr>se_mtd_erase := Pair (- 5)\<rparr>" and ?s = "sc_example_state (replicate 16 0)"
  have "sc_get_crc ?env ?s = Some 0"
    by (simp add: sc_example_defs sc_get_crc_def cpu_u32_def numeral_eq_Suc)
  then have "\<exists>s'. sc_commit_store ?env ''1'' 1 ?s = Some (- 5, s')"
    by (simp add: sc_commit_store_def) (simp add: sc_example_defs sc_commit_mtd_def sc_clear_crc_def
        sc_put_u32_def Let_def)
  then obtain s' where "sc_commit_store ?env ''1'' 1 ?s = Some (- 5, s')" by blast
  from this sc_commit_failure_dirty [OF this] show ?thesis by auto
qed

end
