(* ===== verification/Rb_Driver.thy ===== *)
theory Rb_Driver
  imports Rb_Nvmem Rb_Softconfig
begin

text \<open>
  The RouterBoot module itself
  (\<open>src/target/linux/generic/files/drivers/platform/mikrotik/routerboot.c\<close>): it watches the MTD
  partitions that appear and vanish, and starts or stops the two configuration drivers for the
  NOR partitions of their names.
\<close>

record rb_driver =
  rd_kobj :: bool
  rd_user :: bool
  rd_hard :: hc_state
  rd_soft :: sc_state

text \<open>The return codes of the two start routines are ignored.\<close>

definition routerboot_mtd_notifier_add ::
  "rb_env \<Rightarrow> sc_env \<Rightarrow> bool \<Rightarrow> string \<Rightarrow> rb_driver \<Rightarrow> rb_driver option" where
  "routerboot_mtd_notifier_add henv senv nor name d =
     (if \<not> nor then Some d
      else if name = ''hard_config'' then
        map_option (\<lambda>(ret, h). d\<lparr>rd_hard := h\<rparr>) (rb_hardconfig_init henv (rd_hard d))
      else if name = ''soft_config'' then
        map_option (\<lambda>(ret, s). d\<lparr>rd_soft := s\<rparr>) (rb_softconfig_init senv (rd_soft d))
      else Some d)"

definition routerboot_mtd_notifier_remove :: "bool \<Rightarrow> string \<Rightarrow> rb_driver \<Rightarrow> rb_driver" where
  "routerboot_mtd_notifier_remove nor name d =
     (if \<not> nor then d
      else if name = ''hard_config'' then d\<lparr>rd_hard := rb_hardconfig_exit (rd_hard d)\<rparr>
      else if name = ''soft_config'' then d\<lparr>rd_soft := rb_softconfig_exit (rd_soft d)\<rparr>
      else d)"

definition routerboot_init :: "bool \<Rightarrow> rb_driver \<Rightarrow> int \<times> rb_driver" where
  "routerboot_init kobject_ok d =
     (if \<not> kobject_ok then (- ENOMEM, d\<lparr>rd_kobj := False\<rparr>)
      else (0, d\<lparr>rd_kobj := True, rd_user := True\<rparr>))"

definition routerboot_exit :: "rb_driver \<Rightarrow> rb_driver" where
  "routerboot_exit d =
     d\<lparr>rd_user := False, rd_soft := rb_softconfig_exit (rd_soft d),
       rd_hard := rb_hardconfig_exit (rd_hard d), rd_kobj := False\<rparr>"

text \<open>The exit routines are idempotent, in any order with the removal of a partition.\<close>

lemma routerboot_exit_idempotent:
  "routerboot_exit (routerboot_exit d) = routerboot_exit d"
  "routerboot_exit (routerboot_mtd_notifier_remove nor name d) = routerboot_exit d"
  by (simp_all add: routerboot_exit_def routerboot_mtd_notifier_remove_def rb_softconfig_exit_def
      rb_hardconfig_exit_def)

text \<open>A flash event of one driver does not touch the state of the other.\<close>

lemma notifier_add_frame:
  assumes "routerboot_mtd_notifier_add henv senv nor name d = Some d'"
  shows "name \<noteq> ''hard_config'' \<Longrightarrow> rd_hard d' = rd_hard d"
    and "name \<noteq> ''soft_config'' \<Longrightarrow> rd_soft d' = rd_soft d"
  using assms by (auto simp: routerboot_mtd_notifier_add_def split: if_splits)

end
